(* ===== verification/Prelude.thy ===== *)
theory Prelude
  imports
    "HOL-Library.Word"
    "HOL-Library.List_Lexorder"
    "HOL-Library.Product_Lexorder"
    "HOL-Library.Sublist"
    "HOL-Library.Multiset"
    "HOL-Library.AList"
begin

text \<open>
  The vocabulary every component of the development shares: bytes and byte strings, the error
  enumeration of \<^verbatim>\<open>src/error.rs\<close>, fixed-width big-endian integers, the pieces of the Rust
  standard library the engine calls (\<open>max_by_key\<close>, \<open>chunks\<close>, \<open>binary_search_by\<close>, saturating
  arithmetic, truncating division, decimal printing), and the generic list lemmas their proofs need.

  Conventions.  A \<^verbatim>\<open>u8\<close> is an \<open>8 word\<close>; a \<^verbatim>\<open>Vec<u8>\<close> is a list of them, ordered
  lexicographically by unsigned bytes (the order of \<open>List_Lexorder\<close>, which is Rust's \<open>Ord\<close> on
  slices).  An \<^verbatim>\<open>i64\<close> is an \<open>int\<close> and the predicate \<open>i64\<close> says it is in range;
  an unsigned counter is a \<open>nat\<close>, with its wrap-around written out where the source can reach it.
\<close>

named_theorems codec \<open>round-trip and length facts of the byte encodings\<close>
named_theorems rec_simps \<open>field selections of records built by the constructors of the source\<close>

section \<open>Bytes, errors, results\<close>

type_synonym byte = "8 word"
type_synonym bytes = "byte list"

datatype flow_error =
    Io string
  | Corruption string string
  | Closed
  | WriteBufferFull
  | ConfigErr string
  | SstNotFound nat
  | BlockNotFound nat nat
  | InvalidMagic nat nat
  | JsonErr string
  | JsonDbErr string
  | Other string

type_synonym 'a result = "flow_error + 'a"

section \<open>64-bit signed integers\<close>

definition i64_max :: int where "i64_max = 9223372036854775807"
definition i64_min :: int where "i64_min = - 9223372036854775808"

definition i64 :: "int \<Rightarrow> bool" where
  "i64 x \<longleftrightarrow> i64_min \<le> x \<and> x \<le> i64_max"

definition sat_i64 :: "int \<Rightarrow> int" where
  "sat_i64 x = max i64_min (min i64_max x)"

definition saturating_add :: "int \<Rightarrow> int \<Rightarrow> int" where
  "saturating_add a b = sat_i64 (a + b)"

definition saturating_mul :: "int \<Rightarrow> int \<Rightarrow> int" where
  "saturating_mul a b = sat_i64 (a * b)"

text \<open>The cast \<^verbatim>\<open>u64 as i64\<close> reinterprets the bits.\<close>

definition u64_as_i64 :: "nat \<Rightarrow> int" where
  "u64_as_i64 n =
     (let m = n mod 18446744073709551616
      in if m < 9223372036854775808 then int m else int m - 18446744073709551616)"

text \<open>The cast \<^verbatim>\<open>i64 as u64\<close>, as the number the bits denote.\<close>

definition i64_as_u64 :: "int \<Rightarrow> nat" where
  "i64_as_u64 x = nat (x mod 18446744073709551616)"

text \<open>Rust's \<open>/\<close> on \<^verbatim>\<open>i64\<close> truncates towards zero.\<close>

definition i64_div :: "int \<Rightarrow> int \<Rightarrow> int" where
  "i64_div a b = sgn a * sgn b * (\<bar>a\<bar> div \<bar>b\<bar>)"

lemma sat_i64_range [simp]: "i64 (sat_i64 x)"
  by (auto simp: sat_i64_def i64_def i64_min_def i64_max_def)

lemma sat_i64_id: "i64 x \<Longrightarrow> sat_i64 x = x"
  by (auto simp: sat_i64_def i64_def)

lemma saturating_add_range [simp]: "i64 (saturating_add a b)"
  by (simp add: saturating_add_def)

lemma u64_as_i64_range [simp]: "i64 (u64_as_i64 n)"
  by (auto simp: u64_as_i64_def i64_def i64_min_def i64_max_def Let_def)

lemma i64_as_u64_bound [simp]: "i64_as_u64 x < 18446744073709551616"
  by (simp add: i64_as_u64_def nat_less_iff)

lemma u64_as_i64_inverse [simp]: "i64 x \<Longrightarrow> u64_as_i64 (i64_as_u64 x) = x"
proof -
  assume r: "i64 x"
  show ?thesis
  proof (cases "0 \<le> x")
    case True
    with r have "x mod 18446744073709551616 = x"
      by (intro mod_pos_pos_trivial) (auto simp: i64_def i64_max_def)
    with True r show ?thesis
      by (simp add: u64_as_i64_def i64_as_u64_def Let_def i64_def i64_max_def nat_less_iff)
  next
    case False
    with r have lo: "0 \<le> x + 18446744073709551616" and hi: "x + 18446744073709551616 < 18446744073709551616"
      by (auto simp: i64_def i64_min_def)
    have "x mod 18446744073709551616 = (x + 18446744073709551616) mod 18446744073709551616"
      by simp
    also have "\<dots> = x + 18446744073709551616"
      using lo hi by (rule mod_pos_pos_trivial)
    finally show ?thesis
      using lo hi r False
      by (simp add: u64_as_i64_def i64_as_u64_def Let_def i64_def i64_min_def nat_less_iff)
  qed
qed

lemma i64_div_mono: "0 < b \<Longrightarrow> x \<le> y \<Longrightarrow> i64_div x b \<le> i64_div y b"
proof -
  assume b: "0 < b" and xy: "x \<le> y"
  consider (pos) "0 \<le> x" | (neg) "y \<le> 0" | (mixed) "x < 0" "0 < y" by linarith
  then show ?thesis
  proof cases
    case pos
    with b xy show ?thesis
      by (auto simp: i64_div_def sgn_if zdiv_mono1 div_pos_pos_trivial)
        (metis order_le_less pos_imp_zdiv_nonneg_iff)+
  next
    case neg
    with b xy have "(- y) div b \<le> (- x) div b" by (intro zdiv_mono1) auto
    with neg b xy show ?thesis
      by (auto simp: i64_div_def sgn_if)
  next
    case mixed
    with b have "0 \<le> (- x) div b" "0 \<le> y div b"
      by (auto simp: pos_imp_zdiv_nonneg_iff)
    with mixed b show ?thesis by (simp add: i64_div_def)
  qed
qed

section \<open>Big-endian integers\<close>

text \<open>\<open>be_bytes n v\<close> is \<^verbatim>\<open>to_be_bytes\<close> at width \<open>n\<close>: the low \<open>8 * n\<close> bits of \<open>v\<close>, so the casts
  \<^verbatim>\<open>as u16\<close> and \<^verbatim>\<open>as u32\<close> that precede it in the source are its truncation.\<close>

primrec be_bytes :: "nat \<Rightarrow> nat \<Rightarrow> bytes" where
  "be_bytes 0 v = []"
| "be_bytes (Suc n) v = word_of_nat (v div 256 ^ n) # be_bytes n v"

definition be_val :: "bytes \<Rightarrow> nat" where
  "be_val bs = foldl (\<lambda>a b. a * 256 + unat b) 0 bs"

definition be_i64 :: "int \<Rightarrow> bytes" where
  "be_i64 x = be_bytes 8 (i64_as_u64 x)"

definition val_i64 :: "bytes \<Rightarrow> int" where
  "val_i64 bs = u64_as_i64 (be_val bs)"

lemma be_bytes_numeral:
  "be_bytes (numeral k) v = word_of_nat (v div 256 ^ pred_numeral k) # be_bytes (pred_numeral k) v"
  by (simp add: numeral_eq_Suc)

lemma length_be_bytes [simp, codec]: "length (be_bytes n v) = n"
  by (induction n) simp_all

lemma length_be_i64 [simp, codec]: "length (be_i64 x) = 8"
  by (simp add: be_i64_def)

lemma be_val_foldl: "foldl (\<lambda>a b. a * 256 + unat b) acc bs = acc * 256 ^ length bs + be_val bs"
proof (induction bs arbitrary: acc)
  case Nil
  then show ?case by (simp add: be_val_def)
next
  case (Cons b bs)
  show ?case
    using Cons.IH [of "acc * 256 + unat b"] Cons.IH [of "unat b"]
    by (simp add: be_val_def algebra_simps)
qed

lemma be_val_Cons: "be_val (b # bs) = unat b * 256 ^ length bs + be_val bs"
  using be_val_foldl [of "unat b" bs] by (simp add: be_val_def)

lemma be_val_bound: "be_val bs < 256 ^ length bs"
proof (induction bs)
  case Nil
  then show ?case by (simp add: be_val_def)
next
  case (Cons b bs)
  have "unat b < 2 ^ LENGTH(8)" by (rule unsigned_less)
  then have "unat b \<le> 255" by simp
  then have "unat b * 256 ^ length bs \<le> 255 * 256 ^ length bs" by (rule mult_right_mono) simp
  with Cons have "unat b * 256 ^ length bs + be_val bs < 255 * 256 ^ length bs + 256 ^ length bs"
    by linarith
  then show ?case by (simp add: be_val_Cons)
qed

lemma be_val_be_bytes [simp, codec]: "be_val (be_bytes n v) = v mod 256 ^ n"
proof (induction n)
  case 0
  then show ?case by (simp add: be_val_def)
next
  case (Suc n)
  have "v mod 256 ^ Suc n = 256 ^ n * (v div 256 ^ n mod 256) + v mod 256 ^ n"
    using mod_mult2_eq [of v "256 ^ n" 256] by (simp add: mult.commute)
  with Suc show ?case
    by (simp add: be_val_Cons unat_of_nat mult.commute)
qed

lemma val_i64_be_i64 [simp, codec]: "i64 x \<Longrightarrow> val_i64 (be_i64 x) = x"
proof -
  assume r: "i64 x"
  have "i64_as_u64 x mod 256 ^ 8 = i64_as_u64 x"
    using i64_as_u64_bound [of x] by (intro mod_less) simp
  with r show ?thesis
    by (simp add: val_i64_def be_i64_def)
qed

lemma val_i64_range [simp]: "i64 (val_i64 bs)"
  by (simp add: val_i64_def)

section \<open>Standard-library routines\<close>

text \<open>\<^verbatim>\<open>Iterator::max_by_key\<close>: the greatest key, and the last element among equals.\<close>

fun max_by_key :: "('a \<Rightarrow> 'b::linorder) \<Rightarrow> 'a list \<Rightarrow> 'a option" where
  "max_by_key f [] = None"
| "max_by_key f (x # xs) =
     (case max_by_key f xs of None \<Rightarrow> Some x
      | Some y \<Rightarrow> if f x \<le> f y then Some y else Some x)"

lemma max_by_key_None [simp]: "max_by_key f xs = None \<longleftrightarrow> xs = []"
  by (cases xs) (auto split: option.splits)

lemma max_by_key_in: "max_by_key f xs = Some y \<Longrightarrow> y \<in> set xs"
  by (induction xs arbitrary: y) (auto split: option.splits if_splits)

lemma max_by_key_max: "max_by_key f xs = Some y \<Longrightarrow> x \<in> set xs \<Longrightarrow> f x \<le> f y"
proof (induction xs arbitrary: y)
  case Nil
  then show ?case by simp
next
  case (Cons z zs)
  then show ?case
    by (cases "max_by_key f zs") (fastforce split: if_splits dest: order_trans)+
qed

lemma max_by_key_eqI:
  assumes "y \<in> set xs" and "\<And>x. x \<in> set xs \<Longrightarrow> x \<noteq> y \<Longrightarrow> f x < f y"
  shows "max_by_key f xs = Some y"
proof -
  from assms(1) obtain z where z: "max_by_key f xs = Some z"
    by (cases "max_by_key f xs") auto
  then have "z \<in> set xs" and "f y \<le> f z"
    using assms(1) by (auto dest: max_by_key_in max_by_key_max)
  with assms(2) have "z = y" by (metis leD)
  with z show ?thesis by simp
qed

text \<open>\<^verbatim>\<open>slice::chunks\<close>; the source always passes a size of at least one.\<close>

function chunks :: "nat \<Rightarrow> 'a list \<Rightarrow> 'a list list" where
  "chunks n xs = (if xs = [] then [] else take (max 1 n) xs # chunks n (drop (max 1 n) xs))"
  by pat_completeness auto
termination
  by (relation "measure (\<lambda>(n, xs). length xs)") auto

declare chunks.simps [simp del]

lemma chunks_Nil [simp]: "chunks n [] = []"
  by (simp add: chunks.simps)

lemma chunks_step: "xs \<noteq> [] \<Longrightarrow> chunks n xs = take (max 1 n) xs # chunks n (drop (max 1 n) xs)"
  by (simp add: chunks.simps)

lemma concat_chunks [simp]: "concat (chunks n xs) = xs"
proof (induction n xs rule: chunks.induct)
  case (1 n xs)
  then show ?case by (cases "xs = []") (simp_all add: chunks_step)
qed

lemma chunks_nonempty: "c \<in> set (chunks n xs) \<Longrightarrow> c \<noteq> []"
proof (induction n xs rule: chunks.induct)
  case (1 n xs)
  then show ?case by (cases "xs = []") (auto simp: chunks_step)
qed

lemma chunks_length: "c \<in> set (chunks n xs) \<Longrightarrow> length c \<le> max 1 n"
proof (induction n xs rule: chunks.induct)
  case (1 n xs)
  then show ?case by (cases "xs = []") (auto simp: chunks_step)
qed

text \<open>
  \<^verbatim>\<open>slice::binary_search_by\<close>.  The documentation promises some matching index; this is the loop of
  the current standard library, which halves \<open>size\<close> and keeps \<open>base\<close> on the last element that does
  not compare greater.  \<open>cmp\<close> is the comparator's result: negative, zero or positive.
\<close>

function bs_loop :: "('a \<Rightarrow> int) \<Rightarrow> 'a list \<Rightarrow> nat \<Rightarrow> nat \<Rightarrow> nat" where
  "bs_loop cmp xs base sz =
     (if sz \<le> 1 then base
      else let half = sz div 2; mid = base + half
           in bs_loop cmp xs (if cmp (xs ! mid) > 0 then base else mid) (sz - half))"
  by pat_completeness auto
termination
  by (relation "measure (\<lambda>(cmp, xs, base, sz). sz)") auto

declare bs_loop.simps [simp del]

definition binary_search_by :: "('a \<Rightarrow> int) \<Rightarrow> 'a list \<Rightarrow> nat option" where
  "binary_search_by cmp xs =
     (if xs = [] then None
      else let base = bs_loop cmp xs 0 (length xs)
           in if cmp (xs ! base) = 0 then Some base else None)"

definition cmp_of :: "'a::linorder \<Rightarrow> 'a \<Rightarrow> int" where
  "cmp_of a b = (if a < b then -1 else if a = b then 0 else 1)"

text \<open>Loop invariant: the window \<open>[base, base + sz)\<close> stays in range, everything from its end on
  compares greater, and \<open>base\<close> does not (unless it is still 0).\<close>

lemma bs_loop_spec:
  assumes mono: "\<And>i j. i \<le> j \<Longrightarrow> j < length xs \<Longrightarrow> cmp (xs ! j) \<le> 0 \<Longrightarrow> cmp (xs ! i) \<le> 0"
    and "0 < sz" "base + sz \<le> length xs"
    and "base = 0 \<or> cmp (xs ! base) \<le> 0"
    and "\<And>i. base + sz \<le> i \<Longrightarrow> i < length xs \<Longrightarrow> 0 < cmp (xs ! i)"
  shows "bs_loop cmp xs base sz < length xs
     \<and> (bs_loop cmp xs base sz = 0 \<or> cmp (xs ! bs_loop cmp xs base sz) \<le> 0)
     \<and> (\<forall>i. bs_loop cmp xs base sz < i \<longrightarrow> i < length xs \<longrightarrow> 0 < cmp (xs ! i))"
  using assms(2-)
proof (induction sz arbitrary: base rule: less_induct)
  case (less sz)
  show ?case
  proof (cases "sz \<le> 1")
    case True
    then have "bs_loop cmp xs base sz = base" by (subst bs_loop.simps) simp
    with True less.prems show ?thesis by auto
  next
    case False
    define half where "half = sz div 2"
    define base' where "base' = (if 0 < cmp (xs ! (base + half)) then base else base + half)"
    have half: "0 < half" "half < sz" "half \<le> sz - half" using False by (auto simp: half_def)
    have step: "bs_loop cmp xs base sz = bs_loop cmp xs base' (sz - half)"
      using False by (subst bs_loop.simps) (simp add: Let_def half_def base'_def)
    have tail: "0 < cmp (xs ! i)" if "base' + (sz - half) \<le> i" "i < length xs" for i
    proof (cases "0 < cmp (xs ! (base + half))")
      case True
      with that half have "base + half \<le> i" by (simp add: base'_def)
      with True mono [of "base + half" i] that show ?thesis by force
    next
      case False
      with that half less.prems(4) [of i] show ?thesis by (simp add: base'_def)
    qed
    have "base' = 0 \<or> cmp (xs ! base') \<le> 0" "base' + (sz - half) \<le> length xs"
      using less.prems half by (auto simp: base'_def)
    with less.IH [of "sz - half" base'] half tail show ?thesis by (simp add: step)
  qed
qed

lemma binary_search_by_last:
  assumes mono: "\<And>i j. i \<le> j \<Longrightarrow> j < length xs \<Longrightarrow> cmp (xs ! j) \<le> 0 \<Longrightarrow> cmp (xs ! i) \<le> 0"
    and found: "binary_search_by cmp xs = Some k"
  shows "k < length xs \<and> cmp (xs ! k) = 0
     \<and> (\<forall>i. k < i \<longrightarrow> i < length xs \<longrightarrow> cmp (xs ! i) \<noteq> 0)"
proof -
  from found have ne: "xs \<noteq> []" and k: "k = bs_loop cmp xs 0 (length xs)" and z: "cmp (xs ! k) = 0"
    by (auto simp: binary_search_by_def Let_def split: if_splits)
  have "k < length xs \<and> (k = 0 \<or> cmp (xs ! k) \<le> 0)
      \<and> (\<forall>i. k < i \<longrightarrow> i < length xs \<longrightarrow> 0 < cmp (xs ! i))"
    unfolding k by (rule bs_loop_spec) (use mono ne in auto)
  with z show ?thesis by (metis less_irrefl)
qed

lemma binary_search_by_complete:
  assumes mono: "\<And>i j. i \<le> j \<Longrightarrow> j < length xs \<Longrightarrow> cmp (xs ! j) \<le> 0 \<Longrightarrow> cmp (xs ! i) \<le> 0"
    and mono0: "\<And>i j. i \<le> j \<Longrightarrow> j < length xs \<Longrightarrow> 0 \<le> cmp (xs ! i) \<Longrightarrow> 0 \<le> cmp (xs ! j)"
    and i: "i < length xs" "cmp (xs ! i) = 0"
  shows "\<exists>k. binary_search_by cmp xs = Some k"
proof -
  let ?b = "bs_loop cmp xs 0 (length xs)"
  from i(1) have ne: "xs \<noteq> []" by auto
  have "?b < length xs \<and> (?b = 0 \<or> cmp (xs ! ?b) \<le> 0)
      \<and> (\<forall>i. ?b < i \<longrightarrow> i < length xs \<longrightarrow> 0 < cmp (xs ! i))"
    by (rule bs_loop_spec) (use mono ne in auto)
  then have b: "?b < length xs" "?b = 0 \<or> cmp (xs ! ?b) \<le> 0"
    "\<And>i. ?b < i \<Longrightarrow> i < length xs \<Longrightarrow> 0 < cmp (xs ! i)" by blast+
  have "i \<le> ?b" using b(3) [of i] i by force
  then have "0 \<le> cmp (xs ! ?b)" using mono0 [of i ?b] b(1) i by simp
  moreover have "cmp (xs ! ?b) \<le> 0"
  proof (cases "?b = 0")
    case True
    with \<open>i \<le> ?b\<close> i show ?thesis by simp
  next
    case False
    with b(2) show ?thesis by simp
  qed
  ultimately have "cmp (xs ! ?b) = 0" by simp
  with ne show ?thesis by (simp add: binary_search_by_def Let_def)
qed

text \<open>\<^verbatim>\<open>to_string\<close> of an unsigned integer: decimal digits.\<close>

fun show_nat :: "nat \<Rightarrow> string" where
  "show_nat n =
     (if n < 10 then [char_of (48 + n)] else show_nat (n div 10) @ [char_of (48 + n mod 10)])"

declare show_nat.simps [simp del]

section \<open>Sorted association lists for \<^verbatim>\<open>BTreeMap\<close>\<close>

type_synonym ('k, 'v) btree = "('k \<times> 'v) list"

definition bt_ok :: "('k::linorder, 'v) btree \<Rightarrow> bool" where
  "bt_ok m \<longleftrightarrow> sorted_wrt (<) (map fst m)"

text \<open>\<^verbatim>\<open>insert\<close> replaces the value of an existing key.\<close>

fun bt_insert :: "'k::linorder \<Rightarrow> 'v \<Rightarrow> ('k, 'v) btree \<Rightarrow> ('k, 'v) btree" where
  "bt_insert k v [] = [(k, v)]"
| "bt_insert k v ((k', v') # m) =
     (if k < k' then (k, v) # (k', v') # m
      else if k = k' then (k, v) # m
      else (k', v') # bt_insert k v m)"

text \<open>\<^verbatim>\<open>entry(k).or_default().push(v)\<close> on a map of vectors.\<close>

definition bt_push :: "'k::linorder \<Rightarrow> 'v \<Rightarrow> ('k, 'v list) btree \<Rightarrow> ('k, 'v list) btree" where
  "bt_push k v m =
     bt_insert k ((case map_of m k of None \<Rightarrow> [] | Some vs \<Rightarrow> vs) @ [v]) m"

definition bt_remove :: "'k::linorder \<Rightarrow> ('k, 'v) btree \<Rightarrow> ('k, 'v) btree" where
  "bt_remove k m = filter (\<lambda>(k', _). k' \<noteq> k) m"

lemma map_of_bt_insert [simp]: "map_of (bt_insert k v m) = (map_of m)(k \<mapsto> v)"
  by (induction k v m rule: bt_insert.induct) (auto simp: fun_eq_iff)

lemma set_bt_insert_keys [simp]: "fst ` set (bt_insert k v m) = insert k (fst ` set m)"
  by (induction k v m rule: bt_insert.induct) auto

lemma bt_ok_Nil [simp]: "bt_ok []"
  by (simp add: bt_ok_def)

lemma bt_ok_insert [simp]: "bt_ok m \<Longrightarrow> bt_ok (bt_insert k v m)"
proof (induction k v m rule: bt_insert.induct)
  case (1 k v)
  then show ?case by (simp add: bt_ok_def)
next
  case (2 k v k' v' m)
  then show ?case
    using set_bt_insert_keys [of k v m] by (auto simp: bt_ok_def dest: less_trans)
qed

lemma bt_ok_remove [simp]: "bt_ok m \<Longrightarrow> bt_ok (bt_remove k m)"
  by (induction m) (auto simp: bt_ok_def bt_remove_def)

lemma bt_ok_push [simp]: "bt_ok m \<Longrightarrow> bt_ok (bt_push k v m)"
  by (simp add: bt_push_def)

lemma map_of_bt_remove [simp]: "map_of (bt_remove k m) = (map_of m)(k := None)"
  by (induction m) (auto simp: bt_remove_def fun_eq_iff)

lemma bt_ok_distinct: "bt_ok m \<Longrightarrow> distinct (map fst m)"
  by (simp add: bt_ok_def strict_sorted_iff)

section \<open>Invariants of transition systems\<close>

text \<open>The contract under which an invariant holds in every state a step relation can reach.\<close>

locale invariant_system =
  fixes init :: "'s \<Rightarrow> bool"
    and step :: "'s \<Rightarrow> 's \<Rightarrow> bool"
    and inv :: "'s \<Rightarrow> bool"
  assumes init_inv: "init s \<Longrightarrow> inv s"
    and step_inv: "inv s \<Longrightarrow> step s s' \<Longrightarrow> inv s'"
begin

lemma reachable_inv:
  assumes "init s0" "step\<^sup>*\<^sup>* s0 s"
  shows "inv s"
  using assms(2) by (induction rule: rtranclp_induct) (auto intro: init_inv [OF assms(1)] step_inv)

end

end
