(* ===== verification/Group_Commit.thy ===== *)
theory Group_Commit
  imports Prelude
begin

text \<open>
  \<^verbatim>\<open>src/write_worker.rs\<close>, second half: \<open>WritePipeline::submit\<close>, the group commit.  Threads enqueue a
  submission, race for the flag \<open>committing\<close>, the winner drains the queue, and everybody waits for the
  completion of the own submission.  The model is a step relation in which a step is one critical
  section or atomic operation of one thread; a submission is named by its thread.  The work on a group
  (\<open>process_batch_group\<close>) is the parameter \<open>proc\<close>.  The fields \<open>order\<close>, \<open>hand\<close>
  and \<open>groups\<close> are history: the order of enqueueing, what the leader holds between taking the queue and
  processing it, and the groups processed with their results.
\<close>

section \<open>Threads and steps\<close>

datatype pc =
    Off
  | Start
  | Enqueued
  | LeadCheck
  | LeadProcess "nat list"
  | LeadSignal "nat list" "string option"
  | LeadRelease
  | Waiting
  | Returned "unit result"

record 'w pipeline =
  worker :: 'w
  queue :: "nat list"
  committing :: bool
  completion :: "nat \<rightharpoonup> string option"
  pcs :: "nat \<Rightarrow> pc"
  order :: "nat list"
  hand :: "nat list"
  groups :: "(nat list \<times> string option) list"

definition WritePipeline_new :: "nat set \<Rightarrow> 'w \<Rightarrow> 'w pipeline" where
  "WritePipeline_new threads w =
     \<lparr>worker = w, queue = [], committing = False, completion = Map.empty,
      pcs = (\<lambda>t. if t \<in> threads then Start else Off), order = [], hand = [], groups = []\<rparr>"

text \<open>\<^verbatim>\<open>wait_for_completion\<close>: the stored message becomes the error.\<close>

definition wait_result :: "string option \<Rightarrow> unit result" where
  "wait_result e = (case e of Some msg \<Rightarrow> Inl (Other msg) | None \<Rightarrow> Inr ())"

inductive gc_step :: "(nat list \<Rightarrow> 'w \<Rightarrow> 'w \<times> string option) \<Rightarrow> 'w pipeline \<Rightarrow> 'w pipeline \<Rightarrow> bool"
  for proc where
  enqueue: "pcs s t = Start \<Longrightarrow>
    gc_step proc s (s\<lparr>queue := queue s @ [t], order := order s @ [t], pcs := (pcs s)(t := Enqueued)\<rparr>)"
| lead: "pcs s t = Enqueued \<Longrightarrow> \<not> committing s \<Longrightarrow>
    gc_step proc s (s\<lparr>committing := True, pcs := (pcs s)(t := LeadCheck)\<rparr>)"
| follow: "pcs s t = Enqueued \<Longrightarrow> committing s \<Longrightarrow> gc_step proc s (s\<lparr>pcs := (pcs s)(t := Waiting)\<rparr>)"
| take_queue: "pcs s t = LeadCheck \<Longrightarrow> queue s \<noteq> [] \<Longrightarrow>
    gc_step proc s (s\<lparr>queue := [], hand := queue s, pcs := (pcs s)(t := LeadProcess (queue s))\<rparr>)"
| queue_empty: "pcs s t = LeadCheck \<Longrightarrow> queue s = [] \<Longrightarrow>
    gc_step proc s (s\<lparr>pcs := (pcs s)(t := LeadRelease)\<rparr>)"
| process: "pcs s t = LeadProcess ps \<Longrightarrow> proc ps (worker s) = (w', e) \<Longrightarrow>
    gc_step proc s (s\<lparr>worker := w', hand := [], groups := groups s @ [(ps, e)], pcs := (pcs s)(t := LeadSignal ps e)\<rparr>)"
| signal: "pcs s t = LeadSignal (p # ps) e \<Longrightarrow>
    gc_step proc s (s\<lparr>completion := (completion s)(p \<mapsto> e), pcs := (pcs s)(t := LeadSignal ps e)\<rparr>)"
| signalled: "pcs s t = LeadSignal [] e \<Longrightarrow> gc_step proc s (s\<lparr>pcs := (pcs s)(t := LeadCheck)\<rparr>)"
| release: "pcs s t = LeadRelease \<Longrightarrow>
    gc_step proc s (s\<lparr>committing := False, pcs := (pcs s)(t := Waiting)\<rparr>)"
| wake: "pcs s t = Waiting \<Longrightarrow> completion s t = Some e \<Longrightarrow>
    gc_step proc s (s\<lparr>pcs := (pcs s)(t := Returned (wait_result e))\<rparr>)"

inductive_cases gc_stepE: "gc_step proc s s'"

section \<open>Invariant\<close>

fun leader :: "pc \<Rightarrow> bool" where
  "leader LeadCheck = True"
| "leader (LeadProcess ps) = True"
| "leader (LeadSignal ps e) = True"
| "leader LeadRelease = True"
| "leader _ = False"

definition run_groups :: "(nat list \<Rightarrow> 'w \<Rightarrow> 'w \<times> string option) \<Rightarrow> 'w \<Rightarrow> (nat list \<times> string option) list \<Rightarrow> 'w" where
  "run_groups proc w gs = fold (\<lambda>g w. fst (proc (fst g) w)) gs w"

definition processed :: "'w pipeline \<Rightarrow> nat list" where
  "processed s = concat (map fst (groups s))"

definition inv_lead :: "'w pipeline \<Rightarrow> bool" where
  "inv_lead s \<longleftrightarrow>
     (\<forall>a b. leader (pcs s a) \<longrightarrow> leader (pcs s b) \<longrightarrow> a = b) \<and> (committing s \<longleftrightarrow> (\<exists>t. leader (pcs s t)))"

definition inv_hand :: "'w pipeline \<Rightarrow> bool" where
  "inv_hand s \<longleftrightarrow>
     order s = processed s @ hand s @ queue s
     \<and> (\<forall>t ps. pcs s t = LeadProcess ps \<longrightarrow> hand s = ps)
     \<and> ((\<forall>t ps. pcs s t \<noteq> LeadProcess ps) \<longrightarrow> hand s = [])"

definition inv_members :: "'w pipeline \<Rightarrow> bool" where
  "inv_members s \<longleftrightarrow> distinct (order s) \<and> set (order s) = {t. pcs s t \<noteq> Off \<and> pcs s t \<noteq> Start}"

definition in_group :: "'w pipeline \<Rightarrow> nat \<Rightarrow> string option \<Rightarrow> bool" where
  "in_group s t e \<longleftrightarrow> (\<exists>g. (g, e) \<in> set (groups s) \<and> t \<in> set g)"

definition inv_results :: "'w pipeline \<Rightarrow> bool" where
  "inv_results s \<longleftrightarrow>
     (\<forall>t e. completion s t = Some e \<longrightarrow> in_group s t e)
     \<and> (\<forall>t ps e. pcs s t = LeadSignal ps e \<longrightarrow> (\<forall>p\<in>set ps. in_group s p e))
     \<and> (\<forall>t r. pcs s t = Returned r \<longrightarrow> (\<exists>e. in_group s t e \<and> r = wait_result e))"

definition inv_worker :: "(nat list \<Rightarrow> 'w \<Rightarrow> 'w \<times> string option) \<Rightarrow> 'w \<Rightarrow> 'w pipeline \<Rightarrow> bool" where
  "inv_worker proc w0 s \<longleftrightarrow> worker s = run_groups proc w0 (groups s)"

definition gc_inv :: "(nat list \<Rightarrow> 'w \<Rightarrow> 'w \<times> string option) \<Rightarrow> 'w \<Rightarrow> 'w pipeline \<Rightarrow> bool" where
  "gc_inv proc w0 s \<longleftrightarrow> inv_lead s \<and> inv_hand s \<and> inv_members s \<and> inv_results s \<and> inv_worker proc w0 s"

lemma inv_lead_cong:
  assumes "inv_lead s" "pcs s' = (pcs s)(t := p)" "committing s' = committing s" "leader (pcs s t) = leader p"
  shows "inv_lead s'"
  using assms by (auto simp: inv_lead_def split: if_splits)

lemma inv_lead_step:
  assumes "inv_lead s" "gc_step proc s s'"
  shows "inv_lead s'"
  using assms(2)
proof cases
  case (lead t)
    with assms(1) show ?thesis by (auto simp: inv_lead_def split: if_splits)
  next
    case (release t)
    with assms(1) have "x = t" if "leader (pcs s x)" for x using that by (simp add: inv_lead_def)
    with release assms(1) show ?thesis by (auto simp: inv_lead_def split: if_splits)
  next
    case (enqueue t)
    then show ?thesis by (intro inv_lead_cong [OF assms(1), of s' t Enqueued]) simp_all
  next
    case (follow t)
    then show ?thesis by (intro inv_lead_cong [OF assms(1), of s' t Waiting]) simp_all
  next
    case (take_queue t)
    then show ?thesis by (intro inv_lead_cong [OF assms(1), of s' t "LeadProcess (queue s)"]) simp_all
  next
    case (queue_empty t)
    then show ?thesis by (intro inv_lead_cong [OF assms(1), of s' t LeadRelease]) simp_all
  next
    case (process t ps w' e)
    then show ?thesis by (intro inv_lead_cong [OF assms(1), of s' t "LeadSignal ps e"]) simp_all
  next
    case (signal t p ps e)
    then show ?thesis by (intro inv_lead_cong [OF assms(1), of s' t "LeadSignal ps e"]) simp_all
  next
    case (signalled t e)
    then show ?thesis by (intro inv_lead_cong [OF assms(1), of s' t LeadCheck]) simp_all
  next
    case (wake t e)
    then show ?thesis by (intro inv_lead_cong [OF assms(1), of s' t "Returned (wait_result e)"]) simp_all
qed

lemma inv_members_cong:
  assumes "inv_members s" "pcs s' = (pcs s)(t := p)" "order s' = order s" "pcs s t \<noteq> Off" "pcs s t \<noteq> Start" "p \<noteq> Off" "p \<noteq> Start"
  shows "inv_members s'"
  using assms by (auto simp: inv_members_def)

lemma inv_members_step:
  assumes "inv_members s" "gc_step proc s s'"
  shows "inv_members s'"
  using assms(2)
proof cases
  case (enqueue t)
    with assms(1) show ?thesis by (auto simp: inv_members_def)
  next
    case (follow t)
    then show ?thesis by (intro inv_members_cong [OF assms(1), of s' t Waiting]) simp_all
  next
    case (take_queue t)
    then show ?thesis by (intro inv_members_cong [OF assms(1), of s' t "LeadProcess (queue s)"]) simp_all
  next
    case (queue_empty t)
    then show ?thesis by (intro inv_members_cong [OF assms(1), of s' t LeadRelease]) simp_all
  next
    case (process t ps w' e)
    then show ?thesis by (intro inv_members_cong [OF assms(1), of s' t "LeadSignal ps e"]) simp_all
  next
    case (signal t p ps e)
    then show ?thesis by (intro inv_members_cong [OF assms(1), of s' t "LeadSignal ps e"]) simp_all
  next
    case (signalled t e)
    then show ?thesis by (intro inv_members_cong [OF assms(1), of s' t LeadCheck]) simp_all
  next
    case (wake t e)
    then show ?thesis by (intro inv_members_cong [OF assms(1), of s' t "Returned (wait_result e)"]) simp_all
  next
    case (lead t)
    then show ?thesis by (intro inv_members_cong [OF assms(1), of s' t LeadCheck]) simp_all
  next
    case (release t)
    then show ?thesis by (intro inv_members_cong [OF assms(1), of s' t Waiting]) simp_all
qed

lemma inv_results_step: "inv_results s \<Longrightarrow> gc_step proc s s' \<Longrightarrow> inv_results s'"
  by (erule gc_stepE; fastforce simp: inv_results_def in_group_def)

lemma inv_worker_step: "inv_worker proc w0 s \<Longrightarrow> gc_step proc s s' \<Longrightarrow> inv_worker proc w0 s'"
  by (erule gc_stepE) (auto simp: inv_worker_def run_groups_def)

lemma inv_hand_cong:
  assumes "inv_hand s" "pcs s' = (pcs s)(t := p)" "order s' = order s" "processed s' = processed s" "hand s' = hand s"
    "queue s' = queue s" "\<forall>ps. pcs s t \<noteq> LeadProcess ps" "\<forall>ps. p \<noteq> LeadProcess ps"
  shows "inv_hand s'"
proof -
  have "pcs s' x = LeadProcess ps \<longleftrightarrow> pcs s x = LeadProcess ps" for x ps using assms(2,7,8) by auto
  then show ?thesis using assms(1,3-6) by (simp add: inv_hand_def)
qed

lemma hand_empty:
  assumes "inv_lead s" "inv_hand s" "leader (pcs s t)" "\<forall>ps. pcs s t \<noteq> LeadProcess ps"
  shows "hand s = []"
proof -
  have "pcs s x \<noteq> LeadProcess ps" for x ps
  proof
    assume "pcs s x = LeadProcess ps"
    then have "x = t" using assms(1,3) unfolding inv_lead_def by (metis leader.simps(2))
    with assms(4) \<open>pcs s x = LeadProcess ps\<close> show False by simp
  qed
  with assms(2) show ?thesis unfolding inv_hand_def by blast
qed

lemma inv_hand_step:
  assumes L: "inv_lead s" and I: "inv_hand s" and st: "gc_step proc s s'"
  shows "inv_hand s'"
proof -
  have o: "order s = processed s @ hand s @ queue s" using I by (simp add: inv_hand_def)
  have only: "x = t" if "leader (pcs s t)" "leader (pcs s x)" for x t using L that by (simp add: inv_lead_def)
  from st show ?thesis
  proof cases
  case (enqueue t)
    have "((pcs s)(t := Enqueued)) x = LeadProcess ps \<longleftrightarrow> pcs s x = LeadProcess ps" for x ps
      using enqueue by auto
    then show ?thesis using enqueue I by (simp add: inv_hand_def processed_def)
  next
    case (take_queue t)
    have h: "hand s = []" by (rule hand_empty [OF L I, of t]) (simp_all add: take_queue)
    have "pcs s x \<noteq> LeadProcess ps" if "x \<noteq> t" for x ps using only [of t x] that take_queue by auto
    then show ?thesis using take_queue o h by (auto simp: inv_hand_def processed_def)
  next
    case (process t ps w' e)
    have h: "hand s = ps" using I process by (simp add: inv_hand_def)
    have "pcs s x \<noteq> LeadProcess qs" if "x \<noteq> t" for x qs using only [of t x] that process by auto
    then show ?thesis using process o h by (auto simp: inv_hand_def processed_def)
  next
    case (follow t)
    then show ?thesis by (intro inv_hand_cong [OF I, of s' t Waiting]) (simp_all add: processed_def)
  next
    case (queue_empty t)
    then show ?thesis by (intro inv_hand_cong [OF I, of s' t LeadRelease]) (simp_all add: processed_def)
  next
    case (signal t p ps e)
    then show ?thesis by (intro inv_hand_cong [OF I, of s' t "LeadSignal ps e"]) (simp_all add: processed_def)
  next
    case (signalled t e)
    then show ?thesis by (intro inv_hand_cong [OF I, of s' t LeadCheck]) (simp_all add: processed_def)
  next
    case (wake t e)
    then show ?thesis by (intro inv_hand_cong [OF I, of s' t "Returned (wait_result e)"]) (simp_all add: processed_def)
  next
    case (lead t)
    then show ?thesis by (intro inv_hand_cong [OF I, of s' t LeadCheck]) (simp_all add: processed_def)
  next
    case (release t)
    then show ?thesis by (intro inv_hand_cong [OF I, of s' t Waiting]) (simp_all add: processed_def)
  qed
qed

lemma leader_new [simp]: "\<not> leader (if P then Start else Off)"
  by simp

interpretation gc: invariant_system "\<lambda>s. \<exists>threads. s = WritePipeline_new threads w0" "gc_step proc" "gc_inv proc w0"
  for proc w0
proof
  fix s assume "\<exists>threads. s = WritePipeline_new threads w0"
  then show "gc_inv proc w0 s"
    by (auto simp: WritePipeline_new_def gc_inv_def inv_lead_def inv_hand_def inv_members_def inv_results_def inv_worker_def
        in_group_def processed_def run_groups_def split: if_splits)
next
  fix s s' assume "gc_inv proc w0 s" "gc_step proc s s'"
  then show "gc_inv proc w0 s'"
    unfolding gc_inv_def by (blast intro: inv_lead_step inv_hand_step inv_members_step inv_results_step inv_worker_step)
qed

section \<open>Guarantees\<close>

text \<open>C30. Group commit is serial and first come, first served: in every interleaving at most one thread drains the
  queue at a time, the worker's state is the result of applying the groups one after another, and the
  groups, read in order, are a prefix of the order in which the submissions were enqueued, each
  submission at most once.\<close>

theorem group_commit_serial:
  assumes "(gc_step proc)\<^sup>*\<^sup>* (WritePipeline_new threads w0) s"
  shows "(\<forall>a b. leader (pcs s a) \<longrightarrow> leader (pcs s b) \<longrightarrow> a = b)
    \<and> worker s = run_groups proc w0 (groups s)
    \<and> prefix (processed s) (order s) \<and> distinct (order s)"
proof -
  have "gc_inv proc w0 s" by (rule gc.reachable_inv [OF _ assms]) blast
  then show ?thesis by (auto simp: gc_inv_def inv_lead_def inv_worker_def inv_hand_def inv_members_def)
qed

text \<open>C31. An acknowledgement is honest: when \<open>submit\<close> has returned to a thread, its submission was in a group the
  worker processed, and what it returned is the result of that group.\<close>

theorem group_commit_acknowledged:
  assumes "(gc_step proc)\<^sup>*\<^sup>* (WritePipeline_new threads w0) s" and "pcs s t = Returned r"
  shows "t \<in> set (processed s) \<and> (\<exists>g e. (g, e) \<in> set (groups s) \<and> t \<in> set g \<and> r = wait_result e)"
proof -
  have "gc_inv proc w0 s" by (rule gc.reachable_inv [OF _ assms(1)]) blast
  then obtain e where "in_group s t e" "r = wait_result e"
    using assms(2) unfolding gc_inv_def inv_results_def by blast
  then show ?thesis by (force simp: in_group_def processed_def)
qed

section \<open>A lost wake-up\<close>

text \<open>Thread 0 has found the queue empty and is about to clear \<open>committing\<close>; thread 1 enqueues, still sees the
  flag set, and waits.\<close>

definition stuck_state :: "'w \<Rightarrow> string option \<Rightarrow> 'w pipeline" where
  "stuck_state w e =
     \<lparr>worker = w, queue = [1], committing = False, completion = [0 \<mapsto> e],
      pcs = (\<lambda>t. if t = 0 then Returned (wait_result e) else if t = 1 then Waiting else Off),
      order = [0, 1], hand = [], groups = [([0], e)]\<rparr>"

lemma stuck_reachable:
  assumes "proc [0] w0 = (w, e)"
  shows "(gc_step proc)\<^sup>*\<^sup>* (WritePipeline_new {0, 1} w0) (stuck_state w e)"
proof -
  define st where "st q c m a b o' h g v = \<lparr>worker = v, queue = q, committing = c, completion = m,
      pcs = (\<lambda>t. if t = 0 then a else if t = 1 then b else Off), order = o', hand = h, groups = g\<rparr>"
    for q c m a b o' h g and v :: 'a
  let ?m = "[0 \<mapsto> e]" and ?g = "[([0], e)]"
  have pcs: "(\<lambda>t :: nat. if t = 0 then a else if t = 1 then b else Off)(0 := c) = (\<lambda>t. if t = 0 then c else if t = 1 then b else Off)"
    "(\<lambda>t :: nat. if t = 0 then a else if t = 1 then b else Off)(1 := c) = (\<lambda>t. if t = 0 then a else if t = 1 then c else Off)"
    for a b c :: pc by (auto simp: fun_eq_iff)
  note mk = st_def pcs
  have 0: "WritePipeline_new {0, 1} w0 = st [] False Map.empty Start Start [] [] [] w0"
    by (auto simp: WritePipeline_new_def st_def fun_eq_iff)
  have 1: "gc_step proc (st [] False Map.empty Start Start [] [] [] w0)
      (st [0] False Map.empty Enqueued Start [0] [] [] w0)"
    using enqueue [of "st [] False Map.empty Start Start [] [] [] w0" 0 proc] by (simp add: mk)
  have 2: "gc_step proc (st [0] False Map.empty Enqueued Start [0] [] [] w0)
      (st [0] True Map.empty LeadCheck Start [0] [] [] w0)"
    using lead [of "st [0] False Map.empty Enqueued Start [0] [] [] w0" 0 proc] by (simp add: mk)
  have 3: "gc_step proc (st [0] True Map.empty LeadCheck Start [0] [] [] w0)
      (st [] True Map.empty (LeadProcess [0]) Start [0] [0] [] w0)"
    using take_queue [of "st [0] True Map.empty LeadCheck Start [0] [] [] w0" 0 proc] by (simp add: mk)
  have 4: "gc_step proc (st [] True Map.empty (LeadProcess [0]) Start [0] [0] [] w0)
      (st [] True Map.empty (LeadSignal [0] e) Start [0] [] ?g w)"
    using process [of "st [] True Map.empty (LeadProcess [0]) Start [0] [0] [] w0" 0 "[0]" proc w e] assms by (simp add: mk)
  have 5: "gc_step proc (st [] True Map.empty (LeadSignal [0] e) Start [0] [] ?g w)
      (st [] True ?m (LeadSignal [] e) Start [0] [] ?g w)"
    using signal [of "st [] True Map.empty (LeadSignal [0] e) Start [0] [] ?g w" 0 0 "[]" e proc] by (simp add: mk)
  have 6: "gc_step proc (st [] True ?m (LeadSignal [] e) Start [0] [] ?g w)
      (st [] True ?m LeadCheck Start [0] [] ?g w)"
    using signalled [of "st [] True ?m (LeadSignal [] e) Start [0] [] ?g w" 0 e proc] by (simp add: mk)
  have 7: "gc_step proc (st [] True ?m LeadCheck Start [0] [] ?g w) (st [] True ?m LeadRelease Start [0] [] ?g w)"
    using queue_empty [of "st [] True ?m LeadCheck Start [0] [] ?g w" 0 proc] by (simp add: mk)
  have 8: "gc_step proc (st [] True ?m LeadRelease Start [0] [] ?g w) (st [1] True ?m LeadRelease Enqueued [0, 1] [] ?g w)"
    using enqueue [of "st [] True ?m LeadRelease Start [0] [] ?g w" 1 proc] by (simp add: mk del: One_nat_def)
  have 9: "gc_step proc (st [1] True ?m LeadRelease Enqueued [0, 1] [] ?g w) (st [1] True ?m LeadRelease Waiting [0, 1] [] ?g w)"
    using follow [of "st [1] True ?m LeadRelease Enqueued [0, 1] [] ?g w" 1 proc] by (simp add: mk del: One_nat_def)
  have 10: "gc_step proc (st [1] True ?m LeadRelease Waiting [0, 1] [] ?g w) (st [1] False ?m Waiting Waiting [0, 1] [] ?g w)"
    using release [of "st [1] True ?m LeadRelease Waiting [0, 1] [] ?g w" 0 proc] by (simp add: mk del: One_nat_def)
  have 11: "gc_step proc (st [1] False ?m Waiting Waiting [0, 1] [] ?g w) (stuck_state w e)"
    using wake [of "st [1] False ?m Waiting Waiting [0, 1] [] ?g w" 0 e proc] by (simp add: mk stuck_state_def del: One_nat_def)
  show ?thesis
    unfolding 0 using 1 2 3 4 5 6 7 8 9 10 11
    by (meson converse_rtranclp_into_rtranclp rtranclp.rtrancl_refl)
qed

lemma stuck_no_step: "\<not> gc_step proc (stuck_state w e) s'"
  by (auto simp: stuck_state_def elim!: gc_stepE split: if_splits)

text \<open>C40. A wake-up can be lost: whatever the worker does, two threads can reach a state in which thread 1 waits for
  a submission that is still in the queue, nobody holds the leader's flag, thread 0 has returned, and
  no step is possible any more: \<open>submit\<close> of thread 1 does not return until somebody else writes.\<close>

theorem group_commit_lost_wakeup:
  "\<exists>s. (gc_step proc)\<^sup>*\<^sup>* (WritePipeline_new {0, 1} w0) s \<and> pcs s 1 = Waiting \<and> 1 \<in> set (queue s)
    \<and> \<not> committing s \<and> completion s 1 = None \<and> (\<forall>s'. \<not> gc_step proc s s')"
proof -
  obtain w e where "proc [0] w0 = (w, e)" by fastforce
  with stuck_reachable [of proc w0 w e] stuck_no_step [of proc w e] show ?thesis
    by (intro exI [of _ "stuck_state w e"]) (simp add: stuck_state_def)
qed

theorem group_commit_serial_witness:
  "prefix (processed (stuck_state (1 :: nat) None)) (order (stuck_state (1 :: nat) None))
   \<and> worker (stuck_state (1 :: nat) None) = run_groups (\<lambda>g w. (w + length g, None)) 0 (groups (stuck_state (1 :: nat) None))"
proof -
  have "(gc_step (\<lambda>g w. (w + length g, None)))\<^sup>*\<^sup>* (WritePipeline_new {0, 1} 0) (stuck_state (1 :: nat) None)"
    by (rule stuck_reachable) simp
  from group_commit_serial [OF this] show ?thesis by simp
qed

theorem group_commit_acknowledged_witness: "0 \<in> set (processed (stuck_state (1 :: nat) None))"
proof -
  have "(gc_step (\<lambda>g w. (w + length g, None)))\<^sup>*\<^sup>* (WritePipeline_new {0, 1} 0) (stuck_state (1 :: nat) None)"
    by (rule stuck_reachable) simp
  from group_commit_acknowledged [OF this, of 0 "wait_result None"] show ?thesis by (simp add: stuck_state_def)
qed

end
