(* ===== verification/Records.thy ===== *)
theory Records
  imports Prelude
begin

text \<open>
  \<^verbatim>\<open>src/record.rs\<close>: the public and internal record types, the engine configuration with its
  validation, and the query and scan-range types with their translation to the internal filter.
  The main facts: the half-open range \<open>[p, increment_prefix_bytes p)\<close> is exactly the set of keys
  with prefix \<open>p\<close> (unless \<open>p\<close> is empty or all \<open>0xFF\<close>), and an accepted configuration keeps every
  later conversion to microseconds inside \<^verbatim>\<open>i64\<close>.
\<close>

section \<open>Records\<close>

text \<open>The field \<^verbatim>\<open>value\<close> of the source is called \<open>val\<close> here and \<^verbatim>\<open>op\<close> is \<open>rop\<close>; the fields of
  the public \<open>Record\<close> carry a prefix, since Isabelle records share one name space.\<close>

record Record =
  pkey :: bytes
  pts :: int
  pexpire_at :: int
  pval :: bytes

definition Record_new :: "bytes \<Rightarrow> int \<Rightarrow> bytes \<Rightarrow> Record" where
  "Record_new k t v = \<lparr>pkey = k, pts = t, pexpire_at = i64_max, pval = v\<rparr>"

datatype Op = Put | Delete | DeleteRange

definition from_u8 :: "byte \<Rightarrow> Op" where
  "from_u8 v = (if v = 1 then Delete else if v = 2 then DeleteRange else Put)"

fun to_u8 :: "Op \<Rightarrow> byte" where
  "to_u8 Put = 0"
| "to_u8 Delete = 1"
| "to_u8 DeleteRange = 2"

record InternalRecord =
  seq :: nat
  rop :: Op
  key :: bytes
  ts :: int
  expire_at :: int
  val :: bytes
  range_end :: "bytes option"

definition from_record :: "Record \<Rightarrow> nat \<Rightarrow> InternalRecord" where
  "from_record r s =
     \<lparr>seq = s, rop = Put, key = pkey r, ts = pts r, expire_at = pexpire_at r, val = pval r,
      range_end = None\<rparr>"

definition delete_rec :: "bytes \<Rightarrow> int \<Rightarrow> nat \<Rightarrow> InternalRecord" where
  "delete_rec k t s =
     \<lparr>seq = s, rop = Delete, key = k, ts = t, expire_at = i64_max, val = [], range_end = None\<rparr>"

definition delete_range_rec :: "bytes \<Rightarrow> bytes \<Rightarrow> nat \<Rightarrow> InternalRecord" where
  "delete_range_rec start_key end_key s =
     \<lparr>seq = s, rop = DeleteRange, key = start_key, ts = 0, expire_at = i64_max, val = [],
      range_end = Some end_key\<rparr>"

text \<open>\<^verbatim>\<open>to_record\<close>; \<^verbatim>\<open>into_record_owned\<close> differs only in consuming its argument.\<close>

definition to_record :: "InternalRecord \<Rightarrow> Record" where
  "to_record r = \<lparr>pkey = key r, pts = ts r, pexpire_at = expire_at r, pval = val r\<rparr>"

definition estimated_size :: "InternalRecord \<Rightarrow> nat" where
  "estimated_size r =
     (let base = 8 + 1 + 2 + length (key r) + 8 + 8 + 4 + length (val r)
      in case range_end r of Some re \<Rightarrow> base + 2 + length re | None \<Rightarrow> base)"

lemma from_u8_to_u8 [simp, codec]: "from_u8 (to_u8 p) = p"
  by (cases p) (simp_all add: from_u8_def)

lemma from_record_simps [simp, rec_simps]:
  "seq (from_record r s) = s" "rop (from_record r s) = Put" "key (from_record r s) = pkey r"
  "ts (from_record r s) = pts r" "expire_at (from_record r s) = pexpire_at r"
  "val (from_record r s) = pval r" "range_end (from_record r s) = None"
  by (simp_all add: from_record_def)

lemma delete_rec_simps [simp, rec_simps]:
  "seq (delete_rec k t s) = s" "rop (delete_rec k t s) = Delete" "key (delete_rec k t s) = k"
  "ts (delete_rec k t s) = t" "expire_at (delete_rec k t s) = i64_max"
  "val (delete_rec k t s) = []" "range_end (delete_rec k t s) = None"
  by (simp_all add: delete_rec_def)

lemma delete_range_rec_simps [simp, rec_simps]:
  "seq (delete_range_rec a b s) = s" "rop (delete_range_rec a b s) = DeleteRange"
  "key (delete_range_rec a b s) = a" "ts (delete_range_rec a b s) = 0"
  "expire_at (delete_range_rec a b s) = i64_max" "range_end (delete_range_rec a b s) = Some b"
  by (simp_all add: delete_range_rec_def)

lemma to_record_simps [simp, rec_simps]:
  "pkey (to_record r) = key r" "pts (to_record r) = ts r"
  "pexpire_at (to_record r) = expire_at r" "pval (to_record r) = val r"
  by (simp_all add: to_record_def)

lemma to_record_from_record [simp]: "to_record (from_record r s) = r"
  by (simp add: to_record_def)

text \<open>The order of memtables, flushes and scans: \<open>(key, ts)\<close> ascending and the highest sequence
  number first among the versions of one \<open>(key, ts)\<close>.\<close>

definition sort_ord :: "InternalRecord \<Rightarrow> bytes \<times> int \<times> int" where
  "sort_ord r = (key r, ts r, - int (seq r))"

definition version :: "InternalRecord \<Rightarrow> bytes \<times> int" where
  "version r = (key r, ts r)"

lemma sort_ord_le_version: "sort_ord a \<le> sort_ord b \<Longrightarrow> version a \<le> version b"
  by (auto simp: sort_ord_def version_def)

section \<open>Configuration\<close>

datatype SyncMode = Always | IntervalMs nat

record Config =
  data_dir :: string
  default_ttl_secs :: "nat option"
  gc_interval_secs :: nat
  memtable_size_mb :: nat
  max_frozen_memtables :: nat
  block_size :: nat
  flush_interval_ms :: nat
  time_bucket_secs :: nat
  index_memory_budget_mb :: nat
  block_cache_capacity_mb :: nat
  bloom_bits_per_key :: nat
  wal_segment_size_mb :: nat
  compaction_threshold :: nat
  create_if_missing :: bool
  wal_sync_mode :: SyncMode
  auto_background :: bool

definition Config_default :: Config where
  "Config_default =
     \<lparr>data_dir = ''./data'', default_ttl_secs = None, gc_interval_secs = 3600,
      memtable_size_mb = 64, max_frozen_memtables = 2, block_size = 8192,
      flush_interval_ms = 1000, time_bucket_secs = 3600, index_memory_budget_mb = 256,
      block_cache_capacity_mb = 128, bloom_bits_per_key = 10, wal_segment_size_mb = 64,
      compaction_threshold = 2, create_if_missing = True, wal_sync_mode = Always,
      auto_background = True\<rparr>"

text \<open>\<^verbatim>\<open>i64::MAX as u64 / 1_000_000\<close>.\<close>

definition max_bucket :: nat where
  "max_bucket = 9223372036854775807 div 1000000"

definition validate :: "Config \<Rightarrow> unit result" where
  "validate c =
     (if memtable_size_mb c = 0 then
        Inl (ConfigErr ''memtable_size_mb must be >= 1 (0 causes a flush storm)'')
      else if max_frozen_memtables c = 0 then
        Inl (ConfigErr ''max_frozen_memtables must be >= 1 (0 means unbounded growth)'')
      else if block_size c = 0 then Inl (ConfigErr ''block_size must be >= 1'')
      else if time_bucket_secs c = 0 then
        Inl (ConfigErr ''time_bucket_secs must be >= 1 (0 causes division-by-zero panic)'')
      else if bloom_bits_per_key c = 0 then
        Inl (ConfigErr ''bloom_bits_per_key must be >= 1 (0 produces a useless filter)'')
      else if wal_segment_size_mb c = 0 then
        Inl (ConfigErr ''wal_segment_size_mb must be >= 1 (0 causes segment rollover on every write)'')
      else if compaction_threshold c = 0 then
        Inl (ConfigErr ''compaction_threshold must be >= 1 (0 disables compaction entirely)'')
      else if block_cache_capacity_mb c = 0 then
        Inl (ConfigErr ''block_cache_capacity_mb must be >= 1'')
      else if default_ttl_secs c = Some 0 then
        Inl (ConfigErr ''default_ttl_secs must be > 0 if set (0 = instant expiry)'')
      else if (case default_ttl_secs c of Some t \<Rightarrow> max_bucket < t | None \<Rightarrow> False) then
        Inl (ConfigErr ''default_ttl_secs is too large (would overflow i64 when converted to microseconds)'')
      else if max_bucket < time_bucket_secs c then
        Inl (ConfigErr ''time_bucket_secs is too large (product with 1_000_000 would overflow i64)'')
      else Inr ())"

lemma validate_okD:
  assumes "validate c = Inr ()"
  shows "0 < memtable_size_mb c" "0 < max_frozen_memtables c" "0 < block_size c"
    "0 < time_bucket_secs c" "time_bucket_secs c \<le> max_bucket" "0 < bloom_bits_per_key c"
    "0 < wal_segment_size_mb c" "0 < compaction_threshold c" "0 < block_cache_capacity_mb c"
    "default_ttl_secs c = Some t \<Longrightarrow> 0 < t \<and> t \<le> max_bucket"
  using assms by (auto simp: validate_def split: if_splits option.splits)

section \<open>Queries and scan ranges\<close>

datatype KeyFilter = Prefix bytes | Range bytes bytes | All

record Query =
  key_filter :: KeyFilter
  time_range :: "(int \<times> int) option"

definition Query_prefix :: "bytes \<Rightarrow> Query" where
  "Query_prefix k = \<lparr>key_filter = Prefix k, time_range = None\<rparr>"

definition Query_key_range :: "bytes \<Rightarrow> bytes \<Rightarrow> Query" where
  "Query_key_range s e = \<lparr>key_filter = Range s e, time_range = None\<rparr>"

definition Query_time_range :: "int \<Rightarrow> int \<Rightarrow> Query" where
  "Query_time_range s e = \<lparr>key_filter = All, time_range = Some (s, e)\<rparr>"

definition Query_prefix_time_range :: "bytes \<Rightarrow> int \<Rightarrow> int \<Rightarrow> Query" where
  "Query_prefix_time_range k s e = \<lparr>key_filter = Prefix k, time_range = Some (s, e)\<rparr>"

definition Query_key_time_range :: "bytes \<Rightarrow> bytes \<Rightarrow> int \<Rightarrow> int \<Rightarrow> Query" where
  "Query_key_time_range sk ek s e = \<lparr>key_filter = Range sk ek, time_range = Some (s, e)\<rparr>"

datatype 'a Bound = Included 'a | Excluded 'a | Unbounded

record ScanRange =
  key_start :: "bytes Bound"
  key_end :: "bytes Bound"
  ts_start :: "int Bound"
  ts_end :: "int Bound"

text \<open>The loop of \<^verbatim>\<open>increment_prefix_bytes\<close> works on the end of the buffer, so it is a recursion
  on the reversed key: add one to the last byte below 255, dropping the 255s behind it.\<close>

fun inc_last :: "bytes \<Rightarrow> bytes option" where
  "inc_last [] = None"
| "inc_last (b # bs) = (if b < 255 then Some ((b + 1) # bs) else inc_last bs)"

definition increment_prefix_bytes :: "bytes \<Rightarrow> bytes" where
  "increment_prefix_bytes k =
     (case inc_last (rev k) of Some r \<Rightarrow> rev r | None \<Rightarrow> k @ [0])"

definition is_prefix_range :: "bytes \<Rightarrow> bytes \<Rightarrow> bool" where
  "is_prefix_range s e \<longleftrightarrow> e = increment_prefix_bytes s"

definition ScanRange_prefix :: "bytes \<Rightarrow> ScanRange" where
  "ScanRange_prefix p =
     \<lparr>key_start = Included p, key_end = Excluded (increment_prefix_bytes p),
      ts_start = Unbounded, ts_end = Unbounded\<rparr>"

definition ScanRange_time_range :: "int \<Rightarrow> int \<Rightarrow> ScanRange" where
  "ScanRange_time_range s e =
     \<lparr>key_start = Unbounded, key_end = Unbounded, ts_start = Included s, ts_end = Included e\<rparr>"

definition ScanRange_prefix_time_range :: "bytes \<Rightarrow> int \<Rightarrow> int \<Rightarrow> ScanRange" where
  "ScanRange_prefix_time_range p s e =
     \<lparr>key_start = Included p, key_end = Excluded (increment_prefix_bytes p),
      ts_start = Included s, ts_end = Included e\<rparr>"

definition ScanRange_key_range :: "bytes \<Rightarrow> bytes \<Rightarrow> ScanRange" where
  "ScanRange_key_range s e =
     \<lparr>key_start = Included s, key_end = Included e, ts_start = Unbounded, ts_end = Unbounded\<rparr>"

definition ScanRange_key_time_range :: "bytes \<Rightarrow> bytes \<Rightarrow> int \<Rightarrow> int \<Rightarrow> ScanRange" where
  "ScanRange_key_time_range sk ek s e =
     \<lparr>key_start = Included sk, key_end = Included ek, ts_start = Included s, ts_end = Included e\<rparr>"

definition ScanRange_all :: ScanRange where
  "ScanRange_all =
     \<lparr>key_start = Unbounded, key_end = Unbounded, ts_start = Unbounded, ts_end = Unbounded\<rparr>"

definition to_query_params :: "ScanRange \<Rightarrow> KeyFilter \<times> (int \<times> int) option" where
  "to_query_params r =
     ((case (key_start r, key_end r) of
         (Included s, Excluded e) \<Rightarrow> if is_prefix_range s e then Prefix s else Range s e
       | (Included s, Included e) \<Rightarrow> Range s e
       | _ \<Rightarrow> All),
      (case (ts_start r, ts_end r) of
         (Included s, Included e) \<Rightarrow> Some (s, e)
       | _ \<Rightarrow> None))"

section \<open>Prefix ranges\<close>

lemma byte_less_Suc: "b < 255 \<Longrightarrow> c < b + 1 \<longleftrightarrow> c \<le> b" for b c :: byte
  by unat_arith auto

lemma byte_le_255 [simp]: "c \<le> (255 :: byte)"
proof -
  have "unat c < 2 ^ LENGTH(8)" by (rule unsigned_less)
  then show ?thesis by (simp add: word_le_nat_alt)
qed

lemma replicate_255_le: "replicate n (255 :: byte) \<le> k \<longleftrightarrow> prefix (replicate n 255) k"
proof (induction n arbitrary: k)
  case 0
  then show ?case by simp
next
  case (Suc n)
  have "\<not> 255 < c" for c :: byte by (simp add: not_less)
  with Suc.IH show ?case by (cases k) auto
qed

lemma inc_last_None: "inc_last bs = None \<longleftrightarrow> (\<forall>b\<in>set bs. b = 255)"
  by (induction bs) (auto simp: not_less intro: antisym)

text \<open>A key with a byte below 255 splits at the last one, and its increment is the part before it
  with that byte raised.\<close>

lemma increment_split:
  assumes "\<exists>b\<in>set p. b \<noteq> 255"
  obtains q b n where "p = q @ b # replicate n 255" "b < 255"
    "increment_prefix_bytes p = q @ [b + 1]"
proof -
  have "\<exists>q b n. p = q @ b # replicate n 255 \<and> b < 255 \<and> inc_last (rev p) = Some ((b + 1) # rev q)"
    using assms
  proof (induction p rule: rev_induct)
    case Nil
    then show ?case by simp
  next
    case (snoc c p)
    show ?case
    proof (cases "c < 255")
      case True
      then have "p @ [c] = p @ c # replicate 0 255" by simp
      with True show ?thesis by fastforce
    next
      case False
      then have c: "c = 255" by (simp add: not_less antisym)
      with snoc obtain q b n where "p = q @ b # replicate n 255" "b < 255"
        "inc_last (rev p) = Some ((b + 1) # rev q)" by auto
      with c have "p @ [c] = q @ b # replicate (Suc n) 255 \<and> b < 255
          \<and> inc_last (rev (p @ [c])) = Some ((b + 1) # rev q)"
        by (simp add: replicate_append_same)
      then show ?thesis by blast
    qed
  qed
  then obtain q b n where "p = q @ b # replicate n 255" "b < 255"
    "inc_last (rev p) = Some ((b + 1) # rev q)" by blast
  then show thesis by (intro that) (auto simp: increment_prefix_bytes_def)
qed

lemma append_le_append [simp]: "q @ x \<le> q @ y \<longleftrightarrow> x \<le> y" for q :: "'a::linorder list"
  by (induction q) auto

lemma append_less_append [simp]: "q @ x < q @ y \<longleftrightarrow> x < y" for q :: "'a::linorder list"
  by (induction q) auto

lemma between_append:
  fixes q :: "'a::linorder list"
  assumes "q @ x \<le> k" "k < q @ y"
  shows "\<exists>k'. k = q @ k'"
  using assms
proof (induction q arbitrary: k)
  case Nil
  then show ?case by simp
next
  case (Cons a q)
  from Cons.prems show ?case
    by (cases k) (auto dest: Cons.IH)
qed

lemma prefix_range_iff:
  assumes "\<exists>b\<in>set p. b \<noteq> 255"
  shows "prefix p k \<longleftrightarrow> p \<le> k \<and> k < increment_prefix_bytes p"
proof -
  obtain q b n where p: "p = q @ b # replicate n 255" and b: "b < 255"
    and inc: "increment_prefix_bytes p = q @ [b + 1]"
    using assms by (rule increment_split)
  have core: "prefix (b # replicate n 255) k' \<longleftrightarrow> b # replicate n 255 \<le> k' \<and> k' < [b + 1]" for k'
    using b by (cases k') (auto simp: byte_less_Suc replicate_255_le)
  show ?thesis
  proof
    assume "prefix p k"
    then obtain k' where "k = q @ k'" "prefix (b # replicate n 255) k'"
      by (auto simp: p prefix_def)
    then show "p \<le> k \<and> k < increment_prefix_bytes p" unfolding p inc[unfolded p] by (simp add: core)
  next
    assume "p \<le> k \<and> k < increment_prefix_bytes p"
    then have *: "q @ b # replicate n 255 \<le> k" "k < q @ [b + 1]" by (auto simp: p inc[unfolded p])
    then obtain k' where "k = q @ k'" using between_append by blast
    with * show "prefix p k" by (simp add: p core)
  qed
qed

text \<open>The upper bound a prefix scan uses is exact: for a prefix with some byte below \<open>0xFF\<close>, a key
  starts with \<open>p\<close> exactly when it lies in the half-open range from \<open>p\<close> to
  \<open>increment_prefix_bytes p\<close>.\<close>

theorem increment_prefix_bytes_range:
  assumes "\<exists>b\<in>set p. b \<noteq> 255"
  shows "prefix p k \<longleftrightarrow> p \<le> k \<and> k < increment_prefix_bytes p"
  by (rule prefix_range_iff [OF assms])

theorem increment_prefix_bytes_range_witness:
  "increment_prefix_bytes [97, 255] = [98] \<and> prefix [97, 255] [97, 255, 3]
   \<and> [97, 255, 3] < increment_prefix_bytes [97, 255]"
  using increment_prefix_bytes_range [of "[97, 255]" "[97, 255, 3]"]
  by (auto simp: increment_prefix_bytes_def)

end
