(* ===== verification/Bloom.thy ===== *)
theory Bloom
  imports Prelude
begin

unbundle bit_operations_syntax

text \<open>
  \<^verbatim>\<open>src/bloom.rs\<close>: the persisted Bloom filter and its FxHash double hashing, on \<open>64 word\<close>s with the
  wrapping arithmetic of the source.  The interface the SST index relies on is the locale
  \<open>approx_filter\<close>: a query never denies a key that was added.  The filter of the code satisfies it,
  so a filter built from a key list has no false negative, and a filter persisted by another hasher
  version answers \<open>True\<close> to every key.
\<close>

section \<open>The interface of a membership filter\<close>

locale approx_filter =
  fixes add :: "'f \<Rightarrow> 'k \<Rightarrow> 'f"
    and query :: "'f \<Rightarrow> 'k \<Rightarrow> bool"
    and ok :: "'f \<Rightarrow> bool"
  assumes ok_add: "ok f \<Longrightarrow> ok (add f k)"
    and query_add_same: "ok f \<Longrightarrow> query (add f k) k"
    and query_add_mono: "ok f \<Longrightarrow> query f k' \<Longrightarrow> query (add f k) k'"
begin

lemma ok_foldl: "ok f \<Longrightarrow> ok (foldl add f ks)"
  by (induction ks arbitrary: f) (auto simp: ok_add)

lemma query_foldl_mono: "ok f \<Longrightarrow> query f k \<Longrightarrow> query (foldl add f ks) k"
  by (induction ks arbitrary: f) (auto simp: ok_add query_add_mono)

lemma query_foldl: "ok f \<Longrightarrow> k \<in> set ks \<Longrightarrow> query (foldl add f ks) k"
  by (induction ks arbitrary: f) (auto simp: ok_add query_add_same query_foldl_mono)

end

section \<open>Hashing\<close>

definition MULT :: "64 word" where
  "MULT = 0x517cc1b727220a95"

text \<open>\<^verbatim>\<open>u64::from_le_bytes\<close> of eight bytes.\<close>

definition le_word :: "bytes \<Rightarrow> 64 word" where
  "le_word bs = word_of_nat (be_val (rev bs))"

definition fx_round :: "64 word \<Rightarrow> bytes \<Rightarrow> 64 word" where
  "fx_round h chunk = (word_rotl 5 h XOR le_word chunk) * MULT"

text \<open>The \<^verbatim>\<open>while\<close> loop over full eight-byte chunks, then the zero-padded rest.\<close>

function fxhash64 :: "bytes \<Rightarrow> 64 word \<Rightarrow> 64 word" where
  "fxhash64 data h =
     (if 8 \<le> length data then fxhash64 (drop 8 data) (fx_round h (take 8 data))
      else if data \<noteq> [] then fx_round h (data @ replicate (8 - length data) 0)
      else h)"
  by pat_completeness auto
termination
  by (relation "measure (\<lambda>(data, h). length data)") auto

declare fxhash64.simps [simp del]

definition SEED_A :: "64 word" where "SEED_A = 0x53657244424c4f4f"
definition SEED_B :: "64 word" where "SEED_B = 0x5744425f464c4f57"

definition hash_pair :: "bytes \<Rightarrow> 64 word \<times> 64 word" where
  "hash_pair data = (fxhash64 data (SEED_A XOR SEED_B), fxhash64 data (NOT SEED_A XOR SEED_B))"

section \<open>The filter\<close>

record BloomFilter =
  bits :: "64 word list"
  num_hashes :: nat
  hash_version :: nat

definition CURRENT_HASH_VERSION :: nat where
  "CURRENT_HASH_VERSION = 2"

definition with_bits_per_key :: "nat \<Rightarrow> nat \<Rightarrow> BloomFilter" where
  "with_bits_per_key expected_keys bits_per_key =
     (let nh = min ((min (bits_per_key * 69) 18446744073709551615 + 99) div 100) 30;
          nh = max nh 2;
          num_bits = max (expected_keys * bits_per_key) 64;
          num_words = (num_bits + 63) div 64
      in \<lparr>bits = replicate num_words 0, num_hashes = nh, hash_version = CURRENT_HASH_VERSION\<rparr>)"

text \<open>The bit position of probe \<open>i\<close>: \<^verbatim>\<open>h1.wrapping_add(i.wrapping_mul(h2)) % num_bits\<close>.\<close>

definition probe :: "64 word \<times> 64 word \<Rightarrow> nat \<Rightarrow> nat \<Rightarrow> nat" where
  "probe h num_bits i = unat (fst h + word_of_nat i * snd h) mod num_bits"

definition set_bit_at :: "64 word list \<Rightarrow> nat \<Rightarrow> 64 word list" where
  "set_bit_at ws p = ws[p div 64 := ws ! (p div 64) OR push_bit (p mod 64) 1]"

definition test_bit_at :: "64 word list \<Rightarrow> nat \<Rightarrow> bool" where
  "test_bit_at ws p \<longleftrightarrow> ws ! (p div 64) AND push_bit (p mod 64) 1 \<noteq> 0"

definition insert_bloom :: "BloomFilter \<Rightarrow> bytes \<Rightarrow> BloomFilter" where
  "insert_bloom bf k =
     (let h = hash_pair k; num_bits = length (bits bf) * 64
      in bf\<lparr>bits := foldl (\<lambda>ws i. set_bit_at ws (probe h num_bits i)) (bits bf) [0..<num_hashes bf]\<rparr>)"

definition may_contain :: "BloomFilter \<Rightarrow> bytes \<Rightarrow> bool" where
  "may_contain bf k =
     (if hash_version bf \<noteq> CURRENT_HASH_VERSION then True
      else let h = hash_pair k; num_bits = length (bits bf) * 64
           in list_all (\<lambda>i. test_bit_at (bits bf) (probe h num_bits i)) [0..<num_hashes bf])"

definition from_keys_with_bits :: "bytes list \<Rightarrow> nat \<Rightarrow> BloomFilter" where
  "from_keys_with_bits keys bits_per_key =
     foldl insert_bloom (with_bits_per_key (length keys) bits_per_key) keys"

definition mark_current :: "BloomFilter \<Rightarrow> BloomFilter" where
  "mark_current bf = bf\<lparr>hash_version := CURRENT_HASH_VERSION\<rparr>"

text \<open>A filter has at least one word, so the remainder is never taken by zero and every probed
  index is in range.\<close>

definition bf_ok :: "BloomFilter \<Rightarrow> bool" where
  "bf_ok bf \<longleftrightarrow> bits bf \<noteq> []"

section \<open>No false negatives\<close>

lemma with_bits_per_key_ok [simp]: "bf_ok (with_bits_per_key n b)"
  by (simp add: bf_ok_def with_bits_per_key_def Let_def)

lemma probe_less: "ws \<noteq> [] \<Longrightarrow> probe h (length ws * 64) i div 64 < length ws"
  by (simp add: probe_def less_mult_imp_div_less)

lemma length_set_bit_at [simp]: "length (set_bit_at ws p) = length ws"
  by (simp add: set_bit_at_def)

lemma test_bit_at_iff: "test_bit_at ws p \<longleftrightarrow> bit (ws ! (p div 64)) (p mod 64)"
  by (simp add: test_bit_at_def bit_iff_and_push_bit_not_eq_0)

lemma test_set_same: "p div 64 < length ws \<Longrightarrow> test_bit_at (set_bit_at ws p) p"
  by (simp add: test_bit_at_iff set_bit_at_def bit_or_iff bit_exp_iff possible_bit_word)

lemma test_set_mono: "test_bit_at ws q \<Longrightarrow> test_bit_at (set_bit_at ws p) q"
  by (cases "p div 64 < length ws")
    (auto simp: test_bit_at_iff set_bit_at_def nth_list_update bit_or_iff not_less list_update_beyond)

lemma length_foldl_set [simp]: "length (foldl (\<lambda>ws i. set_bit_at ws (f i)) ws is) = length ws"
  by (induction "is" arbitrary: ws) auto

lemma test_foldl_mono:
  "test_bit_at ws q \<Longrightarrow> test_bit_at (foldl (\<lambda>ws i. set_bit_at ws (f i)) ws is) q"
  by (induction "is" arbitrary: ws) (auto simp: test_set_mono)

lemma test_foldl_set:
  "i \<in> set is \<Longrightarrow> (\<And>i. f i div 64 < length ws) \<Longrightarrow>
   test_bit_at (foldl (\<lambda>ws i. set_bit_at ws (f i)) ws is) (f i)"
  by (induction "is" arbitrary: ws) (auto simp: test_set_same test_foldl_mono)

lemma bits_insert_length [simp]: "length (bits (insert_bloom bf k)) = length (bits bf)"
  by (simp add: insert_bloom_def Let_def)

lemma insert_bloom_fields [simp]:
  "num_hashes (insert_bloom bf k) = num_hashes bf"
  "hash_version (insert_bloom bf k) = hash_version bf"
  by (simp_all add: insert_bloom_def Let_def)

interpretation bloom: approx_filter insert_bloom may_contain bf_ok
proof
  fix bf k assume "bf_ok bf"
  then show "bf_ok (insert_bloom bf k)"
    using bits_insert_length [of bf k] by (auto simp: bf_ok_def simp del: bits_insert_length)
  show "may_contain (insert_bloom bf k) k"
    using \<open>bf_ok bf\<close> unfolding may_contain_def bits_insert_length insert_bloom_fields
    by (auto simp: Let_def list_all_iff insert_bloom_def bf_ok_def
        intro!: test_foldl_set probe_less)
next
  fix bf k k' assume "bf_ok bf" "may_contain bf k'"
  then show "may_contain (insert_bloom bf k) k'"
    unfolding may_contain_def bits_insert_length insert_bloom_fields
    by (auto simp: Let_def list_all_iff insert_bloom_def test_foldl_mono split: if_splits)
qed

text \<open>C24. A filter built from a list of keys answers \<open>True\<close> for every one of them, whatever the
  number of bits per key: the point lookup may skip an SST only when the key is not in it.\<close>

theorem bloom_no_false_negative:
  assumes "k \<in> set ks"
  shows "may_contain (from_keys_with_bits ks bits_per_key) k"
  unfolding from_keys_with_bits_def by (rule bloom.query_foldl) (use assms in simp_all)

text \<open>The theorem at two concrete keys and ten bits per key.\<close>

theorem bloom_no_false_negative_witness:
  "[1, 2] \<in> set [[7], [1, 2 :: byte]] \<and> may_contain (from_keys_with_bits [[7], [1, 2]] 10) [1, 2]"
  using bloom_no_false_negative [of "[1, 2]" "[[7], [1, 2]]" 10] by simp

lemma may_contain_stale: "hash_version bf \<noteq> CURRENT_HASH_VERSION \<Longrightarrow> may_contain bf k"
  by (simp add: may_contain_def)

lemma from_keys_fields [simp]:
  "hash_version (from_keys_with_bits ks b) = CURRENT_HASH_VERSION"
  "bf_ok (from_keys_with_bits ks b)"
proof -
  have "hash_version (foldl insert_bloom bf ks) = hash_version bf" for bf
    by (induction ks arbitrary: bf) auto
  then show "hash_version (from_keys_with_bits ks b) = CURRENT_HASH_VERSION"
    by (simp add: from_keys_with_bits_def with_bits_per_key_def Let_def)
  show "bf_ok (from_keys_with_bits ks b)"
    unfolding from_keys_with_bits_def by (rule bloom.ok_foldl) simp
qed

end
