(* ===== verification/Codec.thy ===== *)
theory Codec
  imports Records Bloom
begin

text \<open>
  What the two record formats of the engine (the WAL of \<^verbatim>\<open>src/wal.rs\<close> and the SST blocks of
  \<^verbatim>\<open>src/sstable.rs\<close>) have in common: a decoder that reads one record from the front of a buffer and
  says how many bytes it used, and a loop that applies it.  The locale \<open>record_codec\<close> states the law
  a format promises; the lemmas about the loop are proved once in it.
\<close>

definition slice :: "bytes \<Rightarrow> nat \<Rightarrow> nat \<Rightarrow> bytes" where
  "slice data pos n = take n (drop pos data)"

lemma slice_append1: "pos + n \<le> length a \<Longrightarrow> slice (a @ b) pos n = slice a pos n"
  by (simp add: slice_def)

lemma length_slice [simp]: "length (slice d p n) = min n (length d - p)"
  by (simp add: slice_def min.commute)

lemma slice_skip: "length a \<le> pos \<Longrightarrow> slice (a @ b) pos n = slice b (pos - length a) n"
  by (simp add: slice_def)

lemma slice_Cons: "0 < pos \<Longrightarrow> slice (x # b) pos n = slice b (pos - 1) n"
  by (simp add: slice_def drop_Cons')

lemma slice_here: "length a = n \<Longrightarrow> slice (a @ b) 0 n = a"
  by (simp add: slice_def)

lemma nth_skip: "length a \<le> i \<Longrightarrow> (a @ b) ! i = b ! (i - length a)"
  by (simp add: nth_append)

lemmas slice_simps = slice_skip slice_Cons slice_here nth_skip

text \<open>The bytes of an optional range end; both formats write an absent one as length 0.\<close>

definition range_bytes :: "InternalRecord \<Rightarrow> bytes" where
  "range_bytes r = (case range_end r of None \<Rightarrow> [] | Some re \<Rightarrow> re)"

text \<open>Up to \<open>n\<close> records from the front of the buffer, stopping at the first the decoder refuses.\<close>

fun decode_loop :: "(bytes \<Rightarrow> ('r \<times> nat) option) \<Rightarrow> nat \<Rightarrow> bytes \<Rightarrow> 'r list" where
  "decode_loop dec 0 data = []"
| "decode_loop dec (Suc n) data =
     (case dec data of None \<Rightarrow> [] | Some (r, used) \<Rightarrow> r # decode_loop dec n (drop used data))"

text \<open>How many whole records fit in the first \<open>m\<close> bytes of an encoded sequence.\<close>

primrec whole :: "('r \<Rightarrow> bytes) \<Rightarrow> nat \<Rightarrow> 'r list \<Rightarrow> nat" where
  "whole enc m [] = 0"
| "whole enc m (r # rs) =
     (if length (enc r) \<le> m then Suc (whole enc (m - length (enc r)) rs) else 0)"

lemma whole_spec:
  "whole enc m rs \<le> length rs"
  "length (concat (map enc (take (whole enc m rs) rs))) \<le> m"
  "j \<le> length rs \<Longrightarrow> length (concat (map enc (take j rs))) \<le> m \<Longrightarrow> j \<le> whole enc m rs"
proof (induction rs arbitrary: m j)
  case (Cons r rs)
  { case 1 show ?case using Cons.IH(1) by simp }
  { case 2 show ?case using Cons.IH(2) [of "m - length (enc r)"] by auto }
  { case 3
    then show ?case
    proof (cases j)
      case (Suc i)
      with 3 Cons.IH(3) [of i "m - length (enc r)"] show ?thesis by auto
    qed simp }
qed auto

locale record_codec =
  fixes enc :: "'r \<Rightarrow> bytes"
    and dec :: "bytes \<Rightarrow> ('r \<times> nat) option"
    and norm :: "'r \<Rightarrow> 'r"
    and ok :: "'r \<Rightarrow> bool"
  assumes dec_enc: "ok r \<Longrightarrow> dec (enc r @ rest) = Some (norm r, length (enc r))"
    and dec_bound: "dec data = Some (r, used) \<Longrightarrow> 0 < used \<and> used \<le> length data"
    and dec_extend: "dec data = Some (r, used) \<Longrightarrow> dec (data @ rest) = Some (r, used)"
begin

lemma decode_loop_exact:
  "list_all ok rs \<Longrightarrow> decode_loop dec (length rs) (concat (map enc rs) @ rest) = map norm rs"
  by (induction rs) (auto simp: dec_enc)

lemma decode_loop_all:
  "list_all ok rs \<Longrightarrow> dec rest = None \<Longrightarrow> length rs \<le> n \<Longrightarrow>
   decode_loop dec n (concat (map enc rs) @ rest) = map norm rs"
proof (induction rs arbitrary: n)
  case Nil
  then show ?case by (cases n) auto
next
  case (Cons r rs)
  then obtain m where "n = Suc m" by (cases n) auto
  with Cons show ?case by (simp add: dec_enc)
qed

lemma dec_proper_prefix: "ok r \<Longrightarrow> m < length (enc r) \<Longrightarrow> dec (take m (enc r)) = None"
proof (rule ccontr)
  assume ok: "ok r" and m: "m < length (enc r)" and "dec (take m (enc r)) \<noteq> None"
  then obtain r' used where d: "dec (take m (enc r)) = Some (r', used)" by auto
  then have "dec (take m (enc r) @ drop m (enc r)) = Some (r', used)" by (rule dec_extend)
  then have "used = length (enc r)" using dec_enc [OF ok, of "[]"] by simp
  with dec_bound [OF d] m show False by simp
qed

lemma decode_loop_torn:
  "list_all ok rs \<Longrightarrow> dec [] = None \<Longrightarrow> length rs \<le> n \<Longrightarrow>
   decode_loop dec n (take m (concat (map enc rs))) = map norm (take (whole enc m rs) rs)"
proof (induction rs arbitrary: n m)
  case Nil
  then show ?case by (cases n) auto
next
  case (Cons r rs)
  then obtain n' where n: "n = Suc n'" by (cases n) auto
  show ?case
  proof (cases "length (enc r) \<le> m")
    case True
    with Cons n show ?thesis by (simp add: dec_enc)
  next
    case False
    with Cons n show ?thesis by (simp add: dec_proper_prefix)
  qed
qed

end

end
