(* ===== verification/Wal.thy ===== *)
theory Wal
  imports Codec
begin

unbundle bit_operations_syntax

text \<open>
  \<^verbatim>\<open>src/wal.rs\<close>: the write-ahead log.  First the record format with its checksum trailer, then the
  segment files.
\<close>

section \<open>Checksum\<close>

definition SEED :: "64 word" where
  "SEED = 0x517cc1b727220a95"

definition CHECKSUM_LEN :: nat where
  "CHECKSUM_LEN = 4"

definition checksum_round :: "64 word \<Rightarrow> bytes \<Rightarrow> 64 word" where
  "checksum_round h chunk = (word_rotl 5 h XOR le_word chunk) * SEED"

text \<open>\<^verbatim>\<open>data.chunks_exact(8)\<close>.\<close>

definition chunks_exact8 :: "bytes \<Rightarrow> bytes list" where
  "chunks_exact8 data = map (\<lambda>i. slice data (8 * i) 8) [0..<length data div 8]"

definition compute_checksum :: "bytes \<Rightarrow> bytes" where
  "compute_checksum data =
     (let h = foldl checksum_round 0 (chunks_exact8 data);
          rem = length data mod 8;
          h = (if 0 < rem
               then checksum_round h (drop (length data - rem) data @ replicate (8 - rem) 0)
               else h)
      in be_bytes 4 (unat h))"

definition verify_checksum :: "bytes \<Rightarrow> bytes \<Rightarrow> bool" where
  "verify_checksum record_bytes file_tail =
     (if length file_tail < CHECKSUM_LEN then False
      else compute_checksum record_bytes = take CHECKSUM_LEN file_tail)"

section \<open>Record format\<close>

definition encoded_size :: "InternalRecord \<Rightarrow> nat" where
  "encoded_size r =
     8 + 1 + 2 + length (key r) + 8 + 8 + 4
     + (case range_end r of None \<Rightarrow> 0 | Some re \<Rightarrow> length re) + 4 + length (val r) + CHECKSUM_LEN"

text \<open>The bytes \<open>encode_record\<close> appends before the checksum.\<close>

definition record_body :: "InternalRecord \<Rightarrow> bytes" where
  "record_body r =
     be_bytes 8 (seq r) @ [to_u8 (rop r)] @ be_bytes 2 (length (key r)) @ key r
     @ be_i64 (ts r) @ be_i64 (expire_at r)
     @ (case range_end r of Some re \<Rightarrow> be_bytes 4 (length re) @ re | None \<Rightarrow> be_bytes 4 0)
     @ be_bytes 4 (length (val r)) @ val r"

definition encode_record :: "InternalRecord \<Rightarrow> bytes \<Rightarrow> bytes" where
  "encode_record r buf =
     (let start = length buf;
          buf = buf @ record_body r
      in buf @ compute_checksum (drop start buf))"

fun encode_batch_loop :: "InternalRecord list \<Rightarrow> bytes \<Rightarrow> nat \<Rightarrow> bytes \<times> nat" where
  "encode_batch_loop [] buf mem = (buf, mem)"
| "encode_batch_loop (r # rs) buf mem =
     encode_batch_loop rs (encode_record r buf) (mem + estimated_size r)"

definition encode_batch :: "InternalRecord list \<Rightarrow> bytes \<times> nat" where
  "encode_batch rs = encode_batch_loop rs [] 0"

text \<open>\<^verbatim>\<open>decode_record\<close>; every return of the source is \<^verbatim>\<open>Ok(None)\<close> or \<^verbatim>\<open>Ok(Some(..))\<close>, so the result
  is an option.\<close>

definition decode_record :: "bytes \<Rightarrow> (InternalRecord \<times> nat) option" where
  "decode_record data =
     (if length data < 8 + 1 + 2 then None
      else let sq = be_val (slice data 0 8);
               p = from_u8 (data ! 8);
               key_len = be_val (slice data 9 2);
               pos = 11
      in if pos + key_len > length data then None
      else let k = slice data pos key_len;
               pos = pos + key_len
      in if pos + 8 + 8 > length data then None
      else let t = val_i64 (slice data pos 8);
               e = val_i64 (slice data (pos + 8) 8);
               pos = pos + 16
      in if pos + 4 > length data then None
      else let range_end_len = be_val (slice data pos 4);
               pos = pos + 4
      in if 0 < range_end_len \<and> pos + range_end_len > length data then None
      else let re = (if 0 < range_end_len then Some (slice data pos range_end_len) else None);
               pos = pos + range_end_len
      in if pos + 4 > length data then None
      else let val_len = be_val (slice data pos 4);
               pos = pos + 4
      in if pos + val_len > length data then None
      else let v = slice data pos val_len;
               pos = pos + val_len
      in if \<not> verify_checksum (take pos data) (drop pos data) then None
      else Some (\<lparr>seq = sq, rop = p, key = k, ts = t, expire_at = e, val = v, range_end = re\<rparr>,
                 pos + CHECKSUM_LEN))"

text \<open>The records the format can carry: lengths fit their fields, and a present range end is not
  empty (an empty one is written like an absent one).\<close>

definition wal_rec_ok :: "InternalRecord \<Rightarrow> bool" where
  "wal_rec_ok r \<longleftrightarrow>
     seq r < 2 ^ 64 \<and> length (key r) < 2 ^ 16 \<and> i64 (ts r) \<and> i64 (expire_at r)
     \<and> length (val r) < 2 ^ 32
     \<and> (case range_end r of None \<Rightarrow> True | Some re \<Rightarrow> re \<noteq> [] \<and> length re < 2 ^ 32)"

section \<open>Round trip\<close>

lemma length_compute_checksum [simp, codec]: "length (compute_checksum d) = 4"
  by (simp add: compute_checksum_def Let_def)

lemma encode_record_append: "encode_record r buf = buf @ encode_record r []"
  by (simp add: encode_record_def Let_def)

lemma encode_record_Nil: "encode_record r [] = record_body r @ compute_checksum (record_body r)"
  by (simp add: encode_record_def Let_def)

lemma length_record_body: "length (record_body r) + 4 = encoded_size r"
  by (simp add: record_body_def encoded_size_def CHECKSUM_LEN_def split: option.splits)

lemma length_encode_record: "length (encode_record r buf) = length buf + encoded_size r"
  by (simp add: encode_record_append [of r buf] encode_record_Nil length_record_body [symmetric])

lemma encode_batch_loop_eq:
  "encode_batch_loop rs buf mem =
     (buf @ concat (map (\<lambda>r. encode_record r []) rs), mem + sum_list (map estimated_size rs))"
  by (induction rs arbitrary: buf mem) (simp_all add: encode_record_append [of _ "_ @ _"] encode_record_append [of _ "_ # _"], metis encode_record_append append.assoc)

lemma record_body_range:
  "record_body r = be_bytes 8 (seq r) @ to_u8 (rop r) # be_bytes 2 (length (key r)) @ key r
     @ be_i64 (ts r) @ be_i64 (expire_at r) @ be_bytes 4 (length (range_bytes r)) @ range_bytes r
     @ be_bytes 4 (length (val r)) @ val r"
  by (simp add: record_body_def range_bytes_def split: option.splits)

lemma decode_encode_record:
  assumes "wal_rec_ok r"
  shows "decode_record (encode_record r [] @ rest) = Some (r, encoded_size r)"
proof -
  define c where "c = compute_checksum (record_body r)"
  define re where "re = range_bytes r"
  define data where "data = record_body r @ c @ rest"
  have c4: "length c = 4" by (simp add: c_def)
  have small: "seq r < 256 ^ 8" "length (key r) < 256 ^ 2" "length (val r) < 256 ^ 4" "length re < 256 ^ 4"
    and i: "i64 (ts r)" "i64 (expire_at r)"
    using assms by (auto simp: wal_rec_ok_def re_def range_bytes_def split: option.splits)
  have re: "(if 0 < length re then Some re else None) = range_end r"
    using assms by (auto simp: wal_rec_ok_def re_def range_bytes_def split: option.splits)
  have lb: "length (record_body r) = 35 + length (key r) + length re + length (val r)"
    by (simp add: record_body_range re_def)
  have fields: "slice data 0 8 = be_bytes 8 (seq r)" "data ! 8 = to_u8 (rop r)"
    "slice data 9 2 = be_bytes 2 (length (key r))" "slice data 11 (length (key r)) = key r"
    "slice data (11 + length (key r)) 8 = be_i64 (ts r)"
    "slice data (19 + length (key r)) 8 = be_i64 (expire_at r)"
    "slice data (27 + length (key r)) 4 = be_bytes 4 (length re)"
    "slice data (31 + length (key r)) (length re) = re"
    "slice data (31 + length (key r) + length re) 4 = be_bytes 4 (length (val r))"
    "slice data (35 + length (key r) + length re) (length (val r)) = val r"
    by (simp_all add: data_def record_body_range re_def slice_simps)
  have nums: "be_val (slice data 0 8) = seq r" "be_val (slice data 9 2) = length (key r)"
    "val_i64 (slice data (11 + length (key r)) 8) = ts r"
    "val_i64 (slice data (19 + length (key r)) 8) = expire_at r"
    "be_val (slice data (27 + length (key r)) 4) = length re"
    "be_val (slice data (31 + length (key r) + length re) 4) = length (val r)"
    unfolding fields using small i by (simp_all del: power_numeral)
  have len: "length data = 39 + length (key r) + length re + length (val r) + length rest"
    by (simp add: data_def lb c4)
  have cut: "take (35 + length (key r) + length re + length (val r)) data = record_body r"
    "drop (35 + length (key r) + length re + length (val r)) data = c @ rest"
    using lb by (simp_all add: data_def)
  have v: "verify_checksum (record_body r) (c @ rest)"
    by (simp add: verify_checksum_def CHECKSUM_LEN_def c_def)
  have size: "encoded_size r = 39 + length (key r) + length re + length (val r)"
    using length_record_body [of r] lb by simp
  have "encode_record r [] @ rest = data" by (simp add: encode_record_Nil data_def c_def)
  moreover have "decode_record data = Some (r, encoded_size r)"
  proof (cases "re = []")
    case True
    with re have "range_end r = None" by simp
    with True nums fields(2,4,8,10) cut show ?thesis
      by (simp add: decode_record_def Let_def len v size CHECKSUM_LEN_def)
  next
    case False
    with re have "range_end r = Some re" by simp
    with False nums fields(2,4,8,10) cut show ?thesis
      by (simp add: decode_record_def Let_def len v size CHECKSUM_LEN_def add.assoc)
  qed
  ultimately show ?thesis by simp
qed

lemma verify_checksum_extend: "verify_checksum b t \<Longrightarrow> verify_checksum b (t @ x)"
  by (auto simp: verify_checksum_def split: if_splits)

lemma decode_record_bound:
  "decode_record data = Some (r, used) \<Longrightarrow> 39 \<le> used \<and> used \<le> length data"
  by (auto simp: decode_record_def Let_def verify_checksum_def CHECKSUM_LEN_def split: if_splits)

text \<open>The decoder in one step: the lengths it reads fix where every field lies.\<close>

lemma decode_record_closed:
  assumes "be_val (slice data 9 2) = kl" "be_val (slice data (27 + kl) 4) = rl"
    "be_val (slice data (31 + kl + rl) 4) = vl"
  shows "decode_record data =
    (if 11 \<le> length data \<and> 31 + kl \<le> length data \<and> 35 + kl + rl \<le> length data
        \<and> 35 + kl + rl + vl \<le> length data
        \<and> verify_checksum (take (35 + kl + rl + vl) data) (drop (35 + kl + rl + vl) data)
     then Some (\<lparr>seq = be_val (slice data 0 8), rop = from_u8 (data ! 8), key = slice data 11 kl,
                 ts = val_i64 (slice data (11 + kl) 8), expire_at = val_i64 (slice data (19 + kl) 8),
                 val = slice data (35 + kl + rl) vl,
                 range_end = (if 0 < rl then Some (slice data (31 + kl) rl) else None)\<rparr>,
                39 + kl + rl + vl)
     else None)"
  using assms by (cases "rl = 0") (simp_all add: decode_record_def Let_def CHECKSUM_LEN_def add.assoc not_less)

lemma decode_record_extend:
  assumes "decode_record data = Some (r, used)"
  shows "decode_record (data @ x) = Some (r, used)"
proof -
  define kl where "kl = be_val (slice data 9 2)"
  define rl where "rl = be_val (slice data (27 + kl) 4)"
  define vl where "vl = be_val (slice data (31 + kl + rl) 4)"
  note d = decode_record_closed [OF kl_def [symmetric] rl_def [symmetric] vl_def [symmetric]]
  have c: "11 \<le> length data" "31 + kl \<le> length data" "35 + kl + rl \<le> length data"
    "35 + kl + rl + vl \<le> length data" "verify_checksum (take (35 + kl + rl + vl) data) (drop (35 + kl + rl + vl) data)"
    using assms unfolding d by (simp_all split: if_split_asm)
  have k: "be_val (slice (data @ x) 9 2) = kl" "be_val (slice (data @ x) (27 + kl) 4) = rl"
    "be_val (slice (data @ x) (31 + kl + rl) 4) = vl"
    using c by (simp_all add: slice_append1 kl_def rl_def vl_def)
  show ?thesis
    using assms c verify_checksum_extend [OF c(5), of x]
    unfolding d decode_record_closed [OF k] by (auto simp: slice_append1 nth_append)
qed

interpretation wal_codec: record_codec "\<lambda>r. encode_record r []" decode_record "\<lambda>r. r" wal_rec_ok
proof
  fix r rest assume "wal_rec_ok r"
  then show "decode_record (encode_record r [] @ rest) = Some (r, length (encode_record r []))"
    by (simp add: decode_encode_record length_encode_record)
qed (auto dest: decode_record_bound decode_record_extend)

section \<open>Scanning a segment\<close>

text \<open>The inner loop of \<^verbatim>\<open>replay_from\<close>: decode records from the front until the data ends or a record
  is refused.\<close>

function wal_scan :: "bytes \<Rightarrow> InternalRecord list" where
  "wal_scan data =
     (if data = [] then []
      else case decode_record data of None \<Rightarrow> []
           | Some (r, advance) \<Rightarrow> r # wal_scan (drop advance data))"
  by pat_completeness auto
termination
  by (relation "measure length") (auto dest: decode_record_bound)

declare wal_scan.simps [simp del]

lemma decode_record_Nil [simp]: "decode_record [] = None"
  by (simp add: decode_record_def)

lemma wal_scan_loop: "length data \<le> n \<Longrightarrow> wal_scan data = decode_loop decode_record n data"
proof (induction n arbitrary: data)
  case 0
  then show ?case by (simp add: wal_scan.simps)
next
  case (Suc n)
  show ?case
  proof (cases "decode_record data")
    case None
    then show ?thesis by (simp add: wal_scan.simps [of data])
  next
    case (Some p)
    obtain r used where p: "p = (r, used)" by (cases p)
    with Some have "39 \<le> used" "used \<le> length data" by (auto dest: decode_record_bound)
    with Some p Suc show ?thesis by (auto simp: wal_scan.simps [of data])
  qed
qed

lemma enc_ge: "length rs \<le> length (concat (map (\<lambda>r. encode_record r []) rs))"
  by (induction rs) (auto simp: length_encode_record encoded_size_def)


lemma fst_encode_batch: "fst (encode_batch rs) = concat (map (\<lambda>r. encode_record r []) rs)"
  by (simp add: encode_batch_def encode_batch_loop_eq)

text \<open>A well-formed run of records in front of bytes the decoder refuses is read back whole.\<close>

lemma wal_scan_batch:
  assumes "list_all wal_rec_ok rs" and "decode_record rest = None"
  shows "wal_scan (fst (encode_batch rs) @ rest) = rs"
proof -
  let ?d = "fst (encode_batch rs) @ rest"
  have "wal_scan ?d = decode_loop decode_record (length ?d) ?d"
    by (rule wal_scan_loop) simp
  then show ?thesis
    using assms enc_ge [of rs] wal_codec.decode_loop_all [of rs rest "length ?d"]
    by (simp add: fst_encode_batch)
qed

text \<open>Torn writes: if a crash leaves only the first \<open>m\<close> bytes of what was appended to a segment,
  the scan returns exactly the records that are wholly in those bytes, in order; nothing is
  invented and the incomplete record is refused.\<close>

theorem wal_torn_write:
  assumes "list_all wal_rec_ok rs"
  shows "wal_scan (take m (fst (encode_batch rs))) =
         take (whole (\<lambda>r. encode_record r []) m rs) rs"
proof -
  let ?f = "fst (encode_batch rs)"
  have "wal_scan (take m ?f) = decode_loop decode_record (length ?f) (take m ?f)"
    by (rule wal_scan_loop) simp
  then show ?thesis
    using assms wal_codec.decode_loop_torn [of rs "length ?f" m] enc_ge [of rs]
    by (simp add: fst_encode_batch)
qed

theorem wal_torn_write_witness:
  "wal_scan (take 41 (fst (encode_batch [delete_rec [1] 5 2, delete_rec [2] 5 3]))) = [delete_rec [1] 5 2]"
proof -
  have ok: "list_all wal_rec_ok [delete_rec [1] 5 2, delete_rec [2] 5 3]"
    by (simp add: wal_rec_ok_def i64_def i64_min_def i64_max_def delete_rec_def)
  have "length (encode_record (delete_rec [b] 5 s) []) = 40" for b s
    by (simp add: length_encode_record encoded_size_def CHECKSUM_LEN_def delete_rec_def)
  then show ?thesis using wal_torn_write [OF ok, of 41] by simp
qed

text \<open>The checksum of the log is the Bloom filter's FxHash with seed 0, cut to its low 32 bits: the
  two hand-written loops (\<^verbatim>\<open>chunks_exact\<close> with a remainder, and the index loop) compute the same
  function.\<close>

theorem checksum_is_fxhash: "compute_checksum data = be_bytes 4 (unat (fxhash64 data 0))"
proof -
  have rnd: "checksum_round = fx_round" by (simp add: fun_eq_iff checksum_round_def fx_round_def SEED_def MULT_def)
  have "(let h = foldl fx_round h0 (chunks_exact8 data); rem = length data mod 8 in
      if 0 < rem then fx_round h (drop (length data - rem) data @ replicate (8 - rem) 0) else h) = fxhash64 data h0" for h0
  proof (induction data h0 rule: fxhash64.induct)
    case (1 data h)
    show ?case
    proof (cases "8 \<le> length data")
      case True
      then have m: "length data div 8 = Suc (length (drop 8 data) div 8)" by (simp add: le_div_geq)
      have "chunks_exact8 data = take 8 data # chunks_exact8 (drop 8 data)"
        unfolding chunks_exact8_def m by (simp add: slice_def map_upt_Suc add.commute del: upt_Suc)
      moreover have "length (drop 8 data) mod 8 = length data mod 8" using True by (simp add: le_mod_geq)
      moreover from this have "length data mod 8 \<le> length data - 8"
        using mod_less_eq_dividend [of "length data - 8" 8] by simp
      then have "drop (length (drop 8 data) - length data mod 8) (drop 8 data)
          = drop (length data - length data mod 8) data" using True by simp
      ultimately show ?thesis using 1 True by (auto simp add: Let_def fxhash64.simps [of data])
    next
      case False
      then show ?thesis by (auto simp add: Let_def fxhash64.simps [of data] chunks_exact8_def)
    qed
  qed
  from this [of 0] show ?thesis by (auto simp: compute_checksum_def rnd Let_def split: if_splits)
qed

end
