(* ===== verification/Wal_Log.thy ===== *)
theory Wal_Log
  imports Wal
begin

text \<open>
  \<^verbatim>\<open>src/wal.rs\<close>: the segment files of the write-ahead log.  The state of the log is the list of records
  its segments spell (\<open>log_of\<close>); the operations \<open>open\<close>, \<open>write_encoded\<close>, \<open>flush\<close>, \<open>sync_all\<close>,
  \<open>replay_from\<close> and \<open>truncate_before\<close> are related to that list, and the locale \<open>write_log\<close> states
  the contract the engine relies on.
\<close>

section \<open>Segment files\<close>

text \<open>
  A segment is an append-only file with a \<^verbatim>\<open>BufWriter\<close> in front of it.  The directory maps the segment
  number in a file name to the file's content and to how much of it has been fsynced; \<open>wbuf\<close> holds
  the bytes still in the writer.  The file system itself does not fail in the model.
\<close>

type_synonym wal_dir = "(nat, bytes \<times> nat) btree"

record WalSegment =
  seg_path :: nat
  wbuf :: bytes
  written_bytes :: nat
  max_seq :: nat

record Wal =
  dir :: wal_dir
  segments :: "WalSegment list"
  max_segment_bytes :: nat
  next_seq :: nat
  next_segment_id :: nat

definition dir_read :: "wal_dir \<Rightarrow> nat \<Rightarrow> bytes" where
  "dir_read d i = (case map_of d i of Some (c, _) \<Rightarrow> c | None \<Rightarrow> [])"

definition dir_append :: "wal_dir \<Rightarrow> nat \<Rightarrow> bytes \<Rightarrow> wal_dir" where
  "dir_append d i bs =
     bt_insert i (case map_of d i of Some (c, n) \<Rightarrow> (c @ bs, n) | None \<Rightarrow> (bs, 0)) d"

definition dir_sync :: "wal_dir \<Rightarrow> nat \<Rightarrow> wal_dir" where
  "dir_sync d i = bt_insert i (dir_read d i, length (dir_read d i)) d"

text \<open>\<^verbatim>\<open>BufWriter::flush\<close> and \<^verbatim>\<open>BufWriter::write_all\<close> at the capacity of the source (256 KiB).\<close>

definition BUF_CAP :: nat where
  "BUF_CAP = 262144"

definition seg_flush :: "wal_dir \<times> WalSegment \<Rightarrow> wal_dir \<times> WalSegment" where
  "seg_flush ds = (dir_append (fst ds) (seg_path (snd ds)) (wbuf (snd ds)), (snd ds)\<lparr>wbuf := []\<rparr>)"

definition seg_write_all :: "bytes \<Rightarrow> wal_dir \<times> WalSegment \<Rightarrow> wal_dir \<times> WalSegment" where
  "seg_write_all bs ds =
     (if length bs < BUF_CAP - length (wbuf (snd ds))
      then (fst ds, (snd ds)\<lparr>wbuf := wbuf (snd ds) @ bs\<rparr>)
      else let ds = (if BUF_CAP - length (wbuf (snd ds)) < length bs then seg_flush ds else ds)
           in if BUF_CAP \<le> length bs
              then (dir_append (fst ds) (seg_path (snd ds)) bs, snd ds)
              else (fst ds, (snd ds)\<lparr>wbuf := wbuf (snd ds) @ bs\<rparr>))"

definition skip_record :: "bytes \<Rightarrow> nat \<Rightarrow> nat option" where
  "skip_record data start =
     (let pos = start + 8 + 1
      in if pos + 2 > length data then None
      else let key_len = be_val (slice data pos 2);
               pos = pos + 2 + key_len
      in if pos + 16 > length data then None
      else let pos = pos + 16
      in if pos + 4 > length data then None
      else let range_end_len = be_val (slice data pos 4);
               pos = pos + 4 + range_end_len
      in if pos + 4 > length data then None
      else let val_len = be_val (slice data pos 4);
               pos = pos + 4 + val_len + CHECKSUM_LEN
      in Some (pos - start))"

lemma skip_record_pos: "skip_record data start = Some n \<Longrightarrow> 0 < n"
  by (auto simp: skip_record_def Let_def split: if_splits)

function max_seq_loop :: "bytes \<Rightarrow> nat \<Rightarrow> nat \<Rightarrow> nat" where
  "max_seq_loop data pos m =
     (if length data \<le> pos then m
      else if pos + 8 > length data then m
      else case skip_record data pos of
             Some n \<Rightarrow> max_seq_loop data (pos + n) (max m (be_val (slice data pos 8)))
           | None \<Rightarrow> m)"
  by pat_completeness auto
termination
  by (relation "measure (\<lambda>(data, pos, m). length data - pos)") (auto dest: skip_record_pos)

declare max_seq_loop.simps [simp del]

definition find_max_seq_in_segment :: "bytes \<Rightarrow> nat" where
  "find_max_seq_in_segment data = max_seq_loop data 0 0"

definition create_new_segment :: "nat \<Rightarrow> Wal \<Rightarrow> Wal" where
  "create_new_segment i w =
     (case map_of (dir w) i of
        Some (c, _) \<Rightarrow>
          w\<lparr>segments := segments w @
              [\<lparr>seg_path = i, wbuf = [], written_bytes = 0, max_seq = find_max_seq_in_segment c\<rparr>]\<rparr>
      | None \<Rightarrow>
          w\<lparr>dir := bt_insert i ([], 0) (dir w),
            segments := segments w @
              [\<lparr>seg_path = i, wbuf = [], written_bytes = 0, max_seq = 0\<rparr>]\<rparr>)"

text \<open>\<^verbatim>\<open>next_segment_id\<close> is taken and advanced before the segment is created.\<close>

definition roll_segment :: "Wal \<Rightarrow> Wal" where
  "roll_segment w =
     create_new_segment (next_segment_id w) (w\<lparr>next_segment_id := next_segment_id w + 1\<rparr>)"

definition load_existing :: "Wal \<Rightarrow> Wal" where
  "load_existing w =
     (let segs = map (\<lambda>(i, c, _). \<lparr>seg_path = i, wbuf = [], written_bytes = 0,
                                  max_seq = find_max_seq_in_segment c\<rparr>) (dir w);
          mx = foldl (\<lambda>m s. max m (max_seq s)) 0 segs;
          max_seg_id = foldl (\<lambda>m s. max m (seg_path s)) 0 segs;
          w = w\<lparr>segments := segs,
                next_seq := (if 0 < mx then mx + 1 else next_seq w),
                next_segment_id := max_seg_id + 1\<rparr>
      in if segs = [] then roll_segment w else w)"

definition Wal_open :: "wal_dir \<Rightarrow> nat \<Rightarrow> Wal" where
  "Wal_open d segment_size_mb =
     load_existing \<lparr>dir = d, segments = [], max_segment_bytes = segment_size_mb * 1024 * 1024,
                    next_seq = 1, next_segment_id = 1\<rparr>"

fun map_segs :: "(wal_dir \<times> WalSegment \<Rightarrow> wal_dir \<times> WalSegment) \<Rightarrow> wal_dir \<Rightarrow> WalSegment list
    \<Rightarrow> wal_dir \<times> WalSegment list" where
  "map_segs f d [] = (d, [])"
| "map_segs f d (s # ss) =
     (let (d, s) = f (d, s); (d, ss) = map_segs f d ss in (d, s # ss))"

definition wal_flush :: "Wal \<Rightarrow> Wal" where
  "wal_flush w =
     (let (d, ss) = map_segs seg_flush (dir w) (segments w) in w\<lparr>dir := d, segments := ss\<rparr>)"

definition seg_sync :: "wal_dir \<times> WalSegment \<Rightarrow> wal_dir \<times> WalSegment" where
  "seg_sync ds = (let ds = seg_flush ds in (dir_sync (fst ds) (seg_path (snd ds)), snd ds))"

definition wal_sync_all :: "Wal \<Rightarrow> Wal" where
  "wal_sync_all w =
     (let (d, ss) = map_segs seg_sync (dir w) (segments w) in w\<lparr>dir := d, segments := ss\<rparr>)"

definition write_encoded :: "bytes \<Rightarrow> nat \<Rightarrow> Wal \<Rightarrow> Wal" where
  "write_encoded buf batch_max_seq w =
     (let w = (if segments w = [] then roll_segment w else w);
          (d, s) = seg_write_all buf (dir w, last (segments w));
          s = s\<lparr>written_bytes := written_bytes s + length buf,
                max_seq := (if batch_max_seq > max_seq s then batch_max_seq else max_seq s)\<rparr>
      in if max_segment_bytes w \<le> written_bytes s
         then let (d, s) = seg_flush (d, s)
              in roll_segment (w\<lparr>dir := d, segments := butlast (segments w) @ [s]\<rparr>)
         else w\<lparr>dir := d, segments := butlast (segments w) @ [s]\<rparr>)"

definition replay_from :: "nat \<Rightarrow> Wal \<Rightarrow> Wal \<times> InternalRecord list" where
  "replay_from after_seq w =
     (let w = wal_flush w;
          rs = concat (map (\<lambda>s. filter (\<lambda>r. after_seq < seq r) (wal_scan (dir_read (dir w) (seg_path s))))
                 (segments w))
      in (w, sort_key seq rs))"

definition truncate_before :: "nat \<Rightarrow> Wal \<Rightarrow> Wal" where
  "truncate_before q w =
     (let to_delete = map seg_path (filter (\<lambda>s. 0 < max_seq s \<and> max_seq s \<le> q) (segments w));
          w = w\<lparr>segments := filter (\<lambda>s. max_seq s = 0 \<or> q < max_seq s) (segments w)\<rparr>;
          w = (if segments w = [] then roll_segment w else w)
      in w\<lparr>dir := foldl (\<lambda>d i. bt_remove i d) (dir w) to_delete\<rparr>)"

section \<open>The log as a list of records\<close>

text \<open>The abstract state of the log is the list of records in it; appending, truncating and replaying
  are stated on that list.\<close>

definition seg_bytes :: "wal_dir \<Rightarrow> WalSegment \<Rightarrow> bytes" where
  "seg_bytes d s = dir_read d (seg_path s) @ wbuf s"

definition log_of :: "Wal \<Rightarrow> InternalRecord list" where
  "log_of w = concat (map (\<lambda>s. wal_scan (seg_bytes (dir w) s)) (segments w))"

definition seg_ok :: "wal_dir \<Rightarrow> WalSegment \<Rightarrow> bool" where
  "seg_ok d s \<longleftrightarrow>
     (\<exists>rs. list_all wal_rec_ok rs \<and> seg_bytes d s = fst (encode_batch rs)
           \<and> (\<forall>r\<in>set rs. seq r \<le> max_seq s))"

definition wal_ok :: "Wal \<Rightarrow> bool" where
  "wal_ok w \<longleftrightarrow>
     bt_ok (dir w) \<and> map fst (dir w) = map seg_path (segments w)
     \<and> (\<forall>i\<in>fst ` set (dir w). i < next_segment_id w)
     \<and> (\<forall>s\<in>set (segments w). seg_ok (dir w) s)"

lemma encode_batch_Nil [simp]: "fst (encode_batch []) = []"
  by (simp add: fst_encode_batch)

lemma encode_batch_append: "fst (encode_batch (xs @ ys)) = fst (encode_batch xs) @ fst (encode_batch ys)"
  by (simp add: fst_encode_batch)

lemma wal_scan_encode [simp]: "list_all wal_rec_ok rs \<Longrightarrow> wal_scan (fst (encode_batch rs)) = rs"
  using wal_scan_batch [of rs "[]"] by simp

lemma wal_scan_Nil [simp]: "wal_scan [] = []"
  by (simp add: wal_scan.simps)

subsection \<open>Directory and writer\<close>

lemma bt_insert_fresh: "\<forall>k\<in>fst ` set m. k < i \<Longrightarrow> bt_insert i v m = m @ [(i, v)]"
  by (induction i v m rule: bt_insert.induct) (auto dest: less_asym)

lemma bt_ok_snoc: "bt_ok m \<Longrightarrow> \<forall>k\<in>fst ` set m. k < i \<Longrightarrow> bt_ok (m @ [(i, v)])"
  by (auto simp: bt_ok_def sorted_wrt_append)

lemma bt_insert_keys: "bt_ok m \<Longrightarrow> i \<in> fst ` set m \<Longrightarrow> map fst (bt_insert i v m) = map fst m"
proof (induction i v m rule: bt_insert.induct)
  case (2 k v k' v' m)
  then show ?case by (fastforce simp: bt_ok_def)
qed simp

lemma dir_read_insert [simp]: "dir_read (bt_insert i (c, n) d) j = (if j = i then c else dir_read d j)"
  by (simp add: dir_read_def)

lemma dir_read_append [simp]:
  "dir_read (dir_append d i bs) j = (if j = i then dir_read d i @ bs else dir_read d j)"
  by (auto simp: dir_append_def dir_read_def split: option.splits)

lemma dir_read_sync [simp]: "dir_read (dir_sync d i) j = dir_read d j"
  by (auto simp: dir_sync_def)

lemma dir_append_keys:
  "bt_ok d \<Longrightarrow> i \<in> fst ` set d \<Longrightarrow> map fst (dir_append d i bs) = map fst d \<and> bt_ok (dir_append d i bs)"
  by (simp add: dir_append_def bt_insert_keys)

lemma dir_sync_keys:
  "bt_ok d \<Longrightarrow> i \<in> fst ` set d \<Longrightarrow> map fst (dir_sync d i) = map fst d \<and> bt_ok (dir_sync d i)"
  by (simp add: dir_sync_def bt_insert_keys)

text \<open>What a writer operation may change: \<open>bs\<close> arrives at the end of the segment's bytes and every
  other file keeps its content.\<close>

definition writer_step :: "bytes \<Rightarrow> wal_dir \<times> WalSegment \<Rightarrow> wal_dir \<times> WalSegment \<Rightarrow> bool" where
  "writer_step bs ds ds' \<longleftrightarrow>
     seg_path (snd ds') = seg_path (snd ds) \<and> max_seq (snd ds') = max_seq (snd ds)
     \<and> seg_bytes (fst ds') (snd ds') = seg_bytes (fst ds) (snd ds) @ bs
     \<and> (\<forall>j. j \<noteq> seg_path (snd ds) \<longrightarrow> dir_read (fst ds') j = dir_read (fst ds) j)
     \<and> map fst (fst ds') = map fst (fst ds) \<and> bt_ok (fst ds')"

lemma keys_eq_set: "map fst d = map fst e \<Longrightarrow> fst ` set d = fst ` set e"
  by (metis list.set_map)

lemma writer_step_flush:
  "bt_ok (fst ds) \<Longrightarrow> seg_path (snd ds) \<in> fst ` set (fst ds) \<Longrightarrow> writer_step [] ds (seg_flush ds)"
  by (simp add: writer_step_def seg_flush_def seg_bytes_def dir_append_keys)

lemma writer_step_trans:
  "writer_step bs ds ds' \<Longrightarrow> writer_step bs' ds' ds'' \<Longrightarrow> writer_step (bs @ bs') ds ds''"
  by (simp add: writer_step_def)

lemma writer_step_buffer: "bt_ok d \<Longrightarrow> writer_step bs (d, s) (d, s\<lparr>wbuf := wbuf s @ bs\<rparr>)"
  by (simp add: writer_step_def seg_bytes_def)

lemma writer_step_direct:
  "bt_ok d \<Longrightarrow> seg_path s \<in> fst ` set d \<Longrightarrow> wbuf s = [] \<Longrightarrow>
   writer_step bs (d, s) (dir_append d (seg_path s) bs, s)"
  by (simp add: writer_step_def seg_bytes_def dir_append_keys)

lemma writer_step_write_all:
  assumes "bt_ok (fst ds)" "seg_path (snd ds) \<in> fst ` set (fst ds)"
  shows "writer_step bs ds (seg_write_all bs ds)"
proof -
  obtain d s where ds: "ds = (d, s)" by (cases ds)
  note fl = writer_step_flush [OF assms]
  obtain d' s' where f: "seg_flush (d, s) = (d', s')" by fastforce
  have *: "bt_ok d'" "seg_path s' = seg_path s" "seg_path s' \<in> fst ` set d'" "wbuf s' = []"
    using fl assms f keys_eq_set [of d' d] by (force simp: ds writer_step_def seg_flush_def)+
  show ?thesis
  proof (cases "length bs < BUF_CAP - length (wbuf s)")
    case True
    with assms show ?thesis by (simp add: ds seg_write_all_def writer_step_buffer)
  next
    case F: False
    show ?thesis
    proof (cases "BUF_CAP - length (wbuf s) < length bs")
      case True
      with F f have w: "seg_write_all bs ds =
          (if BUF_CAP \<le> length bs then (dir_append d' (seg_path s') bs, s')
           else (d', s'\<lparr>wbuf := wbuf s' @ bs\<rparr>))"
        by (simp add: ds seg_write_all_def)
      have "writer_step bs (d', s') (seg_write_all bs ds)"
        unfolding w using * writer_step_direct [of d' s' bs] writer_step_buffer [of d' bs s'] by simp
      with writer_step_trans [of "[]"] fl f show ?thesis by (simp add: ds)
    next
      case False
      then have w: "seg_write_all bs ds =
          (if BUF_CAP \<le> length bs then (dir_append d (seg_path s) bs, s)
           else (d, s\<lparr>wbuf := wbuf s @ bs\<rparr>))"
        using F by (simp add: ds seg_write_all_def)
      have "length (wbuf s) = 0" if "BUF_CAP \<le> length bs"
        using F False that unfolding BUF_CAP_def by linarith
      then show ?thesis
        unfolding w using assms writer_step_direct [of d s bs] writer_step_buffer [of d bs s] by (simp add: ds)
    qed
  qed
qed

subsection \<open>Operations keep the log\<close>

lemma wal_ok_paths:
  assumes "wal_ok w"
  shows "distinct (map seg_path (segments w))" "seg_path ` set (segments w) = fst ` set (dir w)"
proof -
  have k: "map fst (dir w) = map seg_path (segments w)" "bt_ok (dir w)" using assms by (simp_all add: wal_ok_def)
  then show "distinct (map seg_path (segments w))" using bt_ok_distinct [of "dir w"] by simp
  from k(1) show "seg_path ` set (segments w) = fst ` set (dir w)" by (metis list.set_map)
qed

lemma seg_okD: "seg_ok d s \<Longrightarrow> list_all wal_rec_ok (wal_scan (seg_bytes d s))
    \<and> seg_bytes d s = fst (encode_batch (wal_scan (seg_bytes d s)))
    \<and> (\<forall>r\<in>set (wal_scan (seg_bytes d s)). seq r \<le> max_seq s)"
  by (auto simp: seg_ok_def)

lemma seg_ok_cong:
  "seg_bytes d' s' = seg_bytes d s \<Longrightarrow> max_seq s' = max_seq s \<Longrightarrow> seg_ok d' s' = seg_ok d s"
  by (simp add: seg_ok_def)

lemma roll_segment_ok:
  assumes "wal_ok w"
  shows "wal_ok (roll_segment w) \<and> log_of (roll_segment w) = log_of w
    \<and> segments (roll_segment w) \<noteq> [] \<and> max_segment_bytes (roll_segment w) = max_segment_bytes w"
proof -
  let ?i = "next_segment_id w"
  let ?new = "\<lparr>seg_path = ?i, wbuf = [], written_bytes = 0, max_seq = 0\<rparr>"
  let ?d = "bt_insert ?i ([], 0) (dir w)"
  have fresh: "\<forall>k\<in>fst ` set (dir w). k < ?i" using assms by (simp add: wal_ok_def)
  then have "map_of (dir w) ?i = None" by (force simp: map_of_eq_None_iff)
  then have r: "roll_segment w = w\<lparr>dir := ?d, segments := segments w @ [?new], next_segment_id := ?i + 1\<rparr>"
    by (simp add: roll_segment_def create_new_segment_def)
  have same: "seg_bytes ?d s = seg_bytes (dir w) s" if "s \<in> set (segments w)" for s
    using that fresh wal_ok_paths(2) [OF assms] by (force simp: seg_bytes_def)
  have new: "seg_bytes ?d ?new = []" by (simp add: seg_bytes_def)
  have "seg_ok ?d ?new" unfolding seg_ok_def new by (intro exI [of _ "[]"]) simp
  moreover have "seg_ok ?d s" if "s \<in> set (segments w)" for s
    using that assms seg_ok_cong [OF same [OF that]] by (auto simp: wal_ok_def)
  ultimately have "wal_ok (roll_segment w)"
    using assms fresh by (auto simp: r wal_ok_def bt_insert_fresh bt_ok_snoc less_Suc_eq simp del: set_bt_insert_keys)
  moreover have "log_of (roll_segment w) = log_of w"
    by (simp add: r log_of_def new same cong: map_cong)
  ultimately show ?thesis by (simp add: r)
qed

text \<open>A writer operation on the last segment appends its records to the log.\<close>

lemma append_last_ok:
  assumes w: "wal_ok w" "segments w = ss @ [s]"
    and step: "writer_step (fst (encode_batch rs)) (dir w, s) (d', s')"
    and s'': "seg_path s'' = seg_path s'" "wbuf s'' = wbuf s'" "max_seq s \<le> max_seq s''"
    and rs: "list_all wal_rec_ok rs" "\<forall>r\<in>set rs. seq r \<le> max_seq s''"
  shows "wal_ok (w\<lparr>dir := d', segments := ss @ [s'']\<rparr>)
    \<and> log_of (w\<lparr>dir := d', segments := ss @ [s'']\<rparr>) = log_of w @ rs"
proof -
  have sp: "seg_path s' = seg_path s" and bytes: "seg_bytes d' s' = seg_bytes (dir w) s @ fst (encode_batch rs)"
    and other: "\<And>j. j \<noteq> seg_path s \<Longrightarrow> dir_read d' j = dir_read (dir w) j"
    and keys: "map fst d' = map fst (dir w)" "bt_ok d'"
    using step by (auto simp: writer_step_def)
  have b'': "seg_bytes d' s'' = seg_bytes (dir w) s @ fst (encode_batch rs)"
    using bytes s'' by (simp add: seg_bytes_def)
  have old: "seg_bytes d' t = seg_bytes (dir w) t" if "t \<in> set ss" for t
  proof -
    have "seg_path t \<noteq> seg_path s" using that wal_ok_paths(1) [OF w(1)] w(2) by (force simp: image_iff)
    then show ?thesis using other by (simp add: seg_bytes_def)
  qed
  have sok: "seg_ok (dir w) s" using w by (simp add: wal_ok_def)
  define us where "us = wal_scan (seg_bytes (dir w) s)"
  have us: "list_all wal_rec_ok us" "seg_bytes (dir w) s = fst (encode_batch us)"
    "\<forall>r\<in>set us. seq r \<le> max_seq s"
    using seg_okD [OF sok] by (auto simp: us_def)
  have all: "seg_bytes d' s'' = fst (encode_batch (us @ rs))" "list_all wal_rec_ok (us @ rs)"
    using b'' us rs by (simp_all add: encode_batch_append)
  have "\<forall>r\<in>set (us @ rs). seq r \<le> max_seq s''" using us(3) rs(2) s''(3) by auto
  with all have "seg_ok d' s''" unfolding seg_ok_def by blast
  moreover have "seg_ok d' t" if "t \<in> set ss" for t
    using that w seg_ok_cong [OF old [OF that]] by (auto simp: wal_ok_def)
  ultimately have "wal_ok (w\<lparr>dir := d', segments := ss @ [s'']\<rparr>)"
    using w keys sp s''(1) keys_eq_set [OF keys(1)] by (auto simp: wal_ok_def)
  moreover have "wal_scan (seg_bytes d' s'') = us @ rs" using all by simp
  then have "log_of (w\<lparr>dir := d', segments := ss @ [s'']\<rparr>) = log_of w @ rs"
    by (simp add: log_of_def w(2) us_def old cong: map_cong)
  ultimately show ?thesis by simp
qed

lemma write_encoded_spec:
  assumes "wal_ok w" and rs: "list_all wal_rec_ok rs" "\<forall>r\<in>set rs. seq r \<le> m"
  shows "wal_ok (write_encoded (fst (encode_batch rs)) m w)
    \<and> log_of (write_encoded (fst (encode_batch rs)) m w) = log_of w @ rs"
proof -
  let ?buf = "fst (encode_batch rs)"
  define v where "v = (if segments w = [] then roll_segment w else w)"
  have v: "wal_ok v" "log_of v = log_of w" "segments v \<noteq> []"
    using assms(1) roll_segment_ok [OF assms(1)] by (auto simp: v_def)
  then obtain ss s where ss: "segments v = ss @ [s]" by (metis rev_exhaust)
  obtain d1 s1 where wr: "seg_write_all ?buf (dir v, s) = (d1, s1)" by fastforce
  define s2 where "s2 = s1\<lparr>written_bytes := written_bytes s1 + length ?buf, max_seq := max (max_seq s1) m\<rparr>"
  have dirok: "bt_ok (dir v)" "seg_path s \<in> fst ` set (dir v)"
    using v(1) wal_ok_paths(2) [OF v(1)] ss by (auto simp: wal_ok_def)
  have st: "writer_step ?buf (dir v, s) (d1, s1)" using writer_step_write_all [of "(dir v, s)" ?buf] dirok wr by simp
  then have s1: "max_seq s1 = max_seq s" by (simp add: writer_step_def)
  let ?v1 = "v\<lparr>dir := d1, segments := ss @ [s2]\<rparr>"
  have v1: "wal_ok ?v1 \<and> log_of ?v1 = log_of v @ rs"
    by (rule append_last_ok [OF v(1) ss st]) (use rs s1 in \<open>auto simp: s2_def le_max_iff_disj\<close>)
  obtain d3 s3 where fl: "seg_flush (d1, s2) = (d3, s3)" by fastforce
  have d1ok: "bt_ok d1" "seg_path s2 \<in> fst ` set d1"
    using v1 wal_ok_paths(2) [of ?v1] by (auto simp: wal_ok_def)
  have st3: "writer_step (fst (encode_batch [])) (dir ?v1, s2) (d3, s3)"
    using writer_step_flush [of "(d1, s2)"] d1ok fl by simp
  let ?v3 = "v\<lparr>dir := d3, segments := ss @ [s3]\<rparr>"
  have m3: "max_seq s3 = max_seq s2" using st3 by (simp add: writer_step_def)
  have "wal_ok (?v1\<lparr>dir := d3, segments := ss @ [s3]\<rparr>) \<and> log_of (?v1\<lparr>dir := d3, segments := ss @ [s3]\<rparr>) = log_of ?v1 @ []"
    by (rule append_last_ok [OF _ _ st3]) (use v1 m3 in auto)
  then have v3: "wal_ok ?v3 \<and> log_of ?v3 = log_of v @ rs" using v1 by simp
  have "write_encoded ?buf m w =
      (if max_segment_bytes v \<le> written_bytes s2 then roll_segment ?v3 else ?v1)"
    using wr fl unfolding write_encoded_def v_def [symmetric]
    by (simp add: Let_def ss s2_def s1 max_def split: if_splits)
  with v(2) v1 v3 roll_segment_ok [of ?v3] show ?thesis by auto
qed

subsection \<open>Passes over all segments\<close>

text \<open>\<open>flush\<close> and \<open>sync_all\<close> run one writer operation per segment; none of them moves a record.\<close>

definition seg_same :: "wal_dir \<Rightarrow> wal_dir \<Rightarrow> WalSegment \<Rightarrow> WalSegment \<Rightarrow> bool" where
  "seg_same d d' s s' \<longleftrightarrow>
     seg_path s' = seg_path s \<and> max_seq s' = max_seq s \<and> wbuf s' = []
     \<and> dir_read d' (seg_path s) = seg_bytes d s"

lemma map_segs_same:
  assumes f: "\<And>d s. bt_ok d \<Longrightarrow> seg_path s \<in> fst ` set d \<Longrightarrow>
      writer_step [] (d, s) (f (d, s)) \<and> wbuf (snd (f (d, s))) = []"
    and "bt_ok d" "distinct (map seg_path ss)" "seg_path ` set ss \<subseteq> fst ` set d"
    and "map_segs f d ss = (d', ss')"
  shows "list_all2 (seg_same d d') ss ss' \<and> map fst d' = map fst d \<and> bt_ok d'
    \<and> (\<forall>j. j \<notin> seg_path ` set ss \<longrightarrow> dir_read d' j = dir_read d j)"
  using assms(2-)
proof (induction ss arbitrary: d d' ss')
  case Nil
  then show ?case by simp
next
  case (Cons s ss)
  obtain d1 s1 where 1: "f (d, s) = (d1, s1)" by fastforce
  obtain d2 ss2 where 2: "map_segs f d1 ss = (d2, ss2)" by fastforce
  from Cons.prems 1 2 have r: "d' = d2" "ss' = s1 # ss2" by auto
  have st: "writer_step [] (d, s) (d1, s1)" and b: "wbuf s1 = []"
    using f [of d s] Cons.prems 1 by auto
  have k: "map fst d1 = map fst d" "bt_ok d1" and oth: "\<And>j. j \<noteq> seg_path s \<Longrightarrow> dir_read d1 j = dir_read d j"
    and s1: "seg_path s1 = seg_path s" "max_seq s1 = max_seq s" "dir_read d1 (seg_path s) = seg_bytes d s"
    using st b by (auto simp: writer_step_def seg_bytes_def)
  have IH: "list_all2 (seg_same d1 d2) ss ss2 \<and> map fst d2 = map fst d1 \<and> bt_ok d2
      \<and> (\<forall>j. j \<notin> seg_path ` set ss \<longrightarrow> dir_read d2 j = dir_read d1 j)"
    using Cons.IH [OF k(2) _ _ 2] Cons.prems keys_eq_set [OF k(1)] by auto
  have "seg_same d d2 t t'" if "seg_same d1 d2 t t'" "t \<in> set ss" for t t'
  proof -
    have "seg_path t \<noteq> seg_path s" using that Cons.prems by (force simp: image_iff)
    with that oth show ?thesis by (simp add: seg_same_def seg_bytes_def)
  qed
  then have "list_all2 (seg_same d d2) ss ss2"
    using IH by (auto intro: list.rel_mono_strong)
  moreover have "seg_same d d2 s s1"
    using IH s1 b Cons.prems by (auto simp: seg_same_def)
  ultimately show ?case using IH k oth by (simp add: r)
qed

lemma all_segs_ok:
  assumes w: "wal_ok w" and same: "list_all2 (seg_same (dir w) d') (segments w) ss'"
    and k: "map fst d' = map fst (dir w)" "bt_ok d'"
  shows "wal_ok (w\<lparr>dir := d', segments := ss'\<rparr>) \<and> log_of (w\<lparr>dir := d', segments := ss'\<rparr>) = log_of w"
proof -
  have b: "seg_bytes d' s' = seg_bytes (dir w) s \<and> seg_path s' = seg_path s \<and> max_seq s' = max_seq s"
    if "seg_same (dir w) d' s s'" for s s'
    using that by (simp add: seg_same_def seg_bytes_def)
  have "map seg_path ss' = map seg_path (segments w)"
    using same by (rule list_all2_induct) (auto simp: seg_same_def)
  moreover have "\<forall>s'\<in>set ss'. seg_ok d' s'"
  proof
    fix s' assume "s' \<in> set ss'"
    then obtain s where "s \<in> set (segments w)" "seg_same (dir w) d' s s'"
      using same by (metis list_all2_conv_all_nth in_set_conv_nth)
    with w b [of s s'] show "seg_ok d' s'" using seg_ok_cong [of d' s' "dir w" s] by (auto simp: wal_ok_def)
  qed
  ultimately have "wal_ok (w\<lparr>dir := d', segments := ss'\<rparr>)"
    using w k keys_eq_set [OF k(1)] by (simp add: wal_ok_def)
  moreover have "map (\<lambda>s. wal_scan (seg_bytes d' s)) ss' = map (\<lambda>s. wal_scan (seg_bytes (dir w) s)) (segments w)"
    using same by (rule list_all2_induct) (auto dest: b)
  ultimately show ?thesis by (simp add: log_of_def)
qed

lemma seg_flush_writer:
  "bt_ok d \<Longrightarrow> seg_path s \<in> fst ` set d \<Longrightarrow>
   writer_step [] (d, s) (seg_flush (d, s)) \<and> wbuf (snd (seg_flush (d, s))) = []"
  using writer_step_flush [of "(d, s)"] by (simp add: seg_flush_def)

lemma seg_sync_writer:
  assumes "bt_ok d" "seg_path s \<in> fst ` set d"
  shows "writer_step [] (d, s) (seg_sync (d, s)) \<and> wbuf (snd (seg_sync (d, s))) = []"
proof -
  obtain d1 s1 where f: "seg_flush (d, s) = (d1, s1)" by fastforce
  have st: "writer_step [] (d, s) (d1, s1)" "wbuf s1 = []" using seg_flush_writer [OF assms] f by auto
  then have k: "map fst d1 = map fst d" "bt_ok d1" "seg_path s1 = seg_path s" by (auto simp: writer_step_def)
  then have in1: "seg_path s1 \<in> fst ` set d1" using keys_eq_set [OF k(1)] assms by simp
  show ?thesis
    using st dir_sync_keys [OF k(2) in1] k f
    by (simp add: seg_sync_def writer_step_def seg_bytes_def)
qed

lemma wal_flush_segs:
  assumes "wal_ok w"
  obtains d' ss' where "wal_flush w = w\<lparr>dir := d', segments := ss'\<rparr>"
    "list_all2 (seg_same (dir w) d') (segments w) ss'" "map fst d' = map fst (dir w)" "bt_ok d'"
proof -
  obtain d' ss' where m: "map_segs seg_flush (dir w) (segments w) = (d', ss')" by fastforce
  have *: "list_all2 (seg_same (dir w) d') (segments w) ss' \<and> map fst d' = map fst (dir w) \<and> bt_ok d'
      \<and> (\<forall>j. j \<notin> seg_path ` set (segments w) \<longrightarrow> dir_read d' j = dir_read (dir w) j)"
    by (rule map_segs_same [OF seg_flush_writer _ _ _ m])
      (use assms wal_ok_paths [OF assms] in \<open>auto simp: wal_ok_def\<close>)
  show thesis using that m * by (simp add: wal_flush_def)
qed

lemma wal_sync_segs:
  assumes "wal_ok w"
  obtains d' ss' where "map_segs seg_sync (dir w) (segments w) = (d', ss')"
    "wal_sync_all w = w\<lparr>dir := d', segments := ss'\<rparr>"
    "list_all2 (seg_same (dir w) d') (segments w) ss'" "map fst d' = map fst (dir w)" "bt_ok d'"
proof -
  obtain d' ss' where m: "map_segs seg_sync (dir w) (segments w) = (d', ss')" by fastforce
  have *: "list_all2 (seg_same (dir w) d') (segments w) ss' \<and> map fst d' = map fst (dir w) \<and> bt_ok d'
      \<and> (\<forall>j. j \<notin> seg_path ` set (segments w) \<longrightarrow> dir_read d' j = dir_read (dir w) j)"
    by (rule map_segs_same [OF seg_sync_writer _ _ _ m])
      (use assms wal_ok_paths [OF assms] in \<open>auto simp: wal_ok_def\<close>)
  show thesis using that m * by (simp add: wal_sync_all_def)
qed

lemma wal_sync_all_spec: "wal_ok w \<Longrightarrow> wal_ok (wal_sync_all w) \<and> log_of (wal_sync_all w) = log_of w"
  by (metis wal_sync_segs all_segs_ok)

lemma replay_from_spec:
  assumes "wal_ok w"
  shows "snd (replay_from n w) = sort_key seq (filter (\<lambda>r. n < seq r) (log_of w))
    \<and> wal_ok (fst (replay_from n w)) \<and> log_of (fst (replay_from n w)) = log_of w"
proof -
  obtain d' ss' where w': "wal_flush w = w\<lparr>dir := d', segments := ss'\<rparr>"
    and same: "list_all2 (seg_same (dir w) d') (segments w) ss'"
    and k: "map fst d' = map fst (dir w)" "bt_ok d'"
    using wal_flush_segs [OF assms] by blast
  have "map (\<lambda>s. filter P (wal_scan (dir_read d' (seg_path s)))) ss'
      = map (\<lambda>s. filter P (wal_scan (seg_bytes (dir w) s))) (segments w)" for P
    using same by (rule list_all2_induct) (auto simp: seg_same_def)
  then show ?thesis
    using all_segs_ok [OF assms same k] by (simp add: replay_from_def w' log_of_def filter_concat comp_def)
qed

subsection \<open>Truncation\<close>

lemma foldl_bt_remove:
  "foldl (\<lambda>d i. bt_remove i d) d is = filter (\<lambda>(i, _). i \<notin> set is) d"
  by (induction "is" arbitrary: d) (auto simp: bt_remove_def filter_filter split_beta intro!: filter_cong)

lemma dir_read_filter: "P i \<Longrightarrow> dir_read (filter (\<lambda>(i, _). P i) d) i = dir_read d i"
  by (induction d) (auto simp: dir_read_def)

lemma bt_ok_filter: "bt_ok d \<Longrightarrow> bt_ok (filter P d)"
  unfolding bt_ok_def by (simp add: sorted_wrt_map sorted_wrt_filter)

lemma map_fst_filter_paths:
  "map fst d = map f ss \<Longrightarrow> map fst (filter (\<lambda>(i, _). P i) d) = map f (filter (\<lambda>s. P (f s)) ss)"
proof (induction d arbitrary: ss)
  case (Cons p d)
  then obtain s ss' where "ss = s # ss'" by (cases ss) auto
  with Cons show ?case by auto
qed simp

lemma drop_segments_ok:
  assumes w: "wal_ok w"
  shows "wal_ok (w\<lparr>dir := filter (\<lambda>(i, _). i \<in> seg_path ` {s \<in> set (segments w). P s}) (dir w),
                  segments := filter P (segments w)\<rparr>)"
    and "log_of (w\<lparr>dir := filter (\<lambda>(i, _). i \<in> seg_path ` {s \<in> set (segments w). P s}) (dir w),
                  segments := filter P (segments w)\<rparr>)
      = concat (map (\<lambda>s. wal_scan (seg_bytes (dir w) s)) (filter P (segments w)))"
proof -
  let ?K = "\<lambda>i. i \<in> seg_path ` {s \<in> set (segments w). P s}"
  let ?d = "filter (\<lambda>(i, _). ?K i) (dir w)"
  have inj: "?K (seg_path s) \<longleftrightarrow> P s" if "s \<in> set (segments w)" for s
    using that wal_ok_paths(1) [OF w] by (auto simp: distinct_map dest: inj_onD)
  have paths: "map fst ?d = map seg_path (filter P (segments w))"
    using w map_fst_filter_paths [of "dir w" seg_path "segments w" ?K] inj
    by (simp add: wal_ok_def cong: filter_cong)
  have b: "seg_bytes ?d s = seg_bytes (dir w) s" if "s \<in> set (filter P (segments w))" for s
    using that inj [of s] by (simp add: seg_bytes_def dir_read_filter)
  have "seg_ok ?d s" if "s \<in> set (filter P (segments w))" for s
    using that w seg_ok_cong [OF b [OF that]] by (auto simp: wal_ok_def)
  with w paths show "wal_ok (w\<lparr>dir := ?d, segments := filter P (segments w)\<rparr>)"
    by (auto simp: wal_ok_def bt_ok_filter)
  show "log_of (w\<lparr>dir := ?d, segments := filter P (segments w)\<rparr>)
      = concat (map (\<lambda>s. wal_scan (seg_bytes (dir w) s)) (filter P (segments w)))"
  proof -
    have "map (\<lambda>s. wal_scan (seg_bytes ?d s)) (filter P (segments w))
        = map (\<lambda>s. wal_scan (seg_bytes (dir w) s)) (filter P (segments w))"
      by (rule map_cong [OF refl]) (simp only: b)
    moreover have "log_of (w\<lparr>dir := ?d, segments := filter P (segments w)\<rparr>)
        = concat (map (\<lambda>s. wal_scan (seg_bytes ?d s)) (filter P (segments w)))"
      by (simp add: log_of_def)
    ultimately show ?thesis by (simp only:)
  qed
qed

text \<open>Deleting the files after the fresh segment was created is the same as deleting them first.\<close>

lemma truncate_before_eq:
  fixes q :: nat
  assumes w: "wal_ok w"
  defines "P \<equiv> \<lambda>s. max_seq s = 0 \<or> q < max_seq s"
  defines "v \<equiv> w\<lparr>dir := filter (\<lambda>(i, _). i \<in> seg_path ` {s \<in> set (segments w). P s}) (dir w),
                 segments := filter P (segments w)\<rparr>"
  shows "truncate_before q w = (if segments v = [] then roll_segment v else v)"
proof -
  let ?del = "map seg_path (filter (\<lambda>s. \<not> P s) (segments w))"
  have eqP: "filter (\<lambda>s. 0 < max_seq s \<and> max_seq s \<le> q) (segments w) = filter (\<lambda>s. \<not> P s) (segments w)"
    by (intro filter_cong) (auto simp: P_def)
  have part: "i \<notin> set ?del \<longleftrightarrow> i \<in> seg_path ` {s \<in> set (segments w). P s}" if "i \<in> fst ` set (dir w)" for i
  proof -
    from that wal_ok_paths(2) [OF w] obtain s where "s \<in> set (segments w)" "i = seg_path s" by force
    then show ?thesis using wal_ok_paths(1) [OF w] by (auto simp: distinct_map dest: inj_onD)
  qed
  then have dir: "foldl (\<lambda>d i. bt_remove i d) (dir w) ?del = dir v"
  proof -
    have "filter (\<lambda>(i, _). i \<notin> set ?del) (dir w)
        = filter (\<lambda>(i, _). i \<in> seg_path ` {s \<in> set (segments w). P s}) (dir w)"
      by (rule filter_cong [OF refl]) (metis (no_types, lifting) case_prod_unfold image_eqI part)
    then show ?thesis unfolding foldl_bt_remove v_def by simp
  qed
  have fresh: "\<forall>k\<in>fst ` set (dir w). k < next_segment_id w" using w by (simp add: wal_ok_def)
  then have new: "next_segment_id w \<notin> set ?del" using wal_ok_paths(2) [OF w] by force
  have "bt_insert (next_segment_id w) ([], 0) (dir v) = dir v @ [(next_segment_id w, [], 0)]"
    using fresh by (intro bt_insert_fresh) (auto simp: v_def)
  moreover have "map_of (dir w) (next_segment_id w) = None" "map_of (dir v) (next_segment_id w) = None"
    using fresh by (force simp: map_of_eq_None_iff v_def)+
  moreover have "foldl (\<lambda>d i. bt_remove i d) (bt_insert (next_segment_id w) ([], 0) (dir w)) ?del
      = dir v @ [(next_segment_id w, [], 0)]"
    using fresh new dir by (simp add: bt_insert_fresh foldl_bt_remove)
  ultimately show ?thesis
    using dir
    by (simp add: truncate_before_def eqP [unfolded P_def] roll_segment_def create_new_segment_def v_def P_def Let_def)
qed

lemma truncate_before_spec:
  assumes "wal_ok w"
  shows "wal_ok (truncate_before q w)
    \<and> filter (\<lambda>r. q < seq r) (log_of (truncate_before q w)) = filter (\<lambda>r. q < seq r) (log_of w)"
proof -
  let ?P = "\<lambda>s. max_seq s = 0 \<or> q < max_seq s"
  let ?v = "w\<lparr>dir := filter (\<lambda>(i, _). i \<in> seg_path ` {s \<in> set (segments w). ?P s}) (dir w),
              segments := filter ?P (segments w)\<rparr>"
  let ?scan = "\<lambda>s. filter (\<lambda>r. q < seq r) (wal_scan (seg_bytes (dir w) s))"
  note v = drop_segments_ok [OF assms, of ?P]
  have "wal_ok (truncate_before q w) \<and> log_of (truncate_before q w) = log_of ?v"
    unfolding truncate_before_eq [OF assms] using v(1) roll_segment_ok [OF v(1)] by auto
  moreover have "?scan s = []" if "s \<in> set (segments w)" "\<not> ?P s" for s
  proof -
    have "seg_ok (dir w) s" using that assms by (simp add: wal_ok_def)
    with that seg_okD show ?thesis by (fastforce simp: filter_empty_conv)
  qed
  then have "concat (map ?scan (filter ?P ss)) = concat (map ?scan ss)" if "set ss \<subseteq> set (segments w)" for ss
    using that by (induction ss) auto
  then have "concat (map ?scan (filter ?P (segments w))) = concat (map ?scan (segments w))" by simp
  ultimately show ?thesis
    using v(2) by (simp add: log_of_def filter_concat comp_def)
qed

subsection \<open>Reopening after a crash\<close>

lemma skip_record_encode:
  assumes "wal_rec_ok r"
  shows "skip_record (pre @ encode_record r [] @ rest) (length pre) = Some (encoded_size r)"
    and "be_val (slice (pre @ encode_record r [] @ rest) (length pre) 8) = seq r"
proof -
  let ?data = "pre @ encode_record r [] @ rest" and ?n = "length pre"
  define re where "re = range_bytes r"
  have small: "seq r < 256 ^ 8" "length (key r) < 256 ^ 2" "length (val r) < 256 ^ 4" "length re < 256 ^ 4"
    using assms by (auto simp: wal_rec_ok_def re_def range_bytes_def split: option.splits)
  have size: "encoded_size r = 39 + length (key r) + length re + length (val r)"
    by (simp add: encoded_size_def re_def range_bytes_def CHECKSUM_LEN_def split: option.splits)
  have len: "length ?data = ?n + encoded_size r + length rest" by (simp add: length_encode_record)
  have f: "slice ?data ?n 8 = be_bytes 8 (seq r)"
    "slice ?data (?n + 9) 2 = be_bytes 2 (length (key r))"
    "slice ?data (?n + 27 + length (key r)) 4 = be_bytes 4 (length re)"
    "slice ?data (?n + 31 + length (key r) + length re) 4 = be_bytes 4 (length (val r))"
    by (simp_all add: encode_record_Nil record_body_range re_def slice_simps)
  have n: "be_val (slice ?data (?n + 9) 2) = length (key r)"
    "be_val (slice ?data (?n + 27 + length (key r)) 4) = length re"
    "be_val (slice ?data (?n + 31 + length (key r) + length re) 4) = length (val r)"
    unfolding f using small by (simp_all del: power_numeral)
  show "be_val (slice ?data ?n 8) = seq r" unfolding f using small by (simp del: power_numeral)
  show "skip_record ?data ?n = Some (encoded_size r)"
    using n unfolding skip_record_def Let_def len by (simp add: size CHECKSUM_LEN_def ac_simps)
qed

lemma max_seq_loop_encode:
  assumes "list_all wal_rec_ok rs"
  shows "max_seq_loop (pre @ fst (encode_batch rs)) (length pre) m = foldl max m (map seq rs)"
  using assms
proof (induction rs arbitrary: pre m)
  case Nil
  then show ?case by (simp add: max_seq_loop.simps)
next
  case (Cons r rs)
  let ?rest = "fst (encode_batch rs)"
  have e: "fst (encode_batch (r # rs)) = encode_record r [] @ ?rest" by (simp add: fst_encode_batch)
  have "max_seq_loop (pre @ encode_record r [] @ ?rest) (length pre) m
      = max_seq_loop (pre @ encode_record r [] @ ?rest) (length pre + encoded_size r) (max m (seq r))"
    using Cons.prems skip_record_encode [of r pre ?rest]
    by (subst max_seq_loop.simps) (simp add: length_encode_record encoded_size_def)
  also have "\<dots> = foldl max (max m (seq r)) (map seq rs)"
    using Cons.IH [of "pre @ encode_record r []" "max m (seq r)"] Cons.prems
    by (simp add: length_encode_record)
  finally show ?case by (simp add: e)
qed

lemma find_max_seq_encode:
  "list_all wal_rec_ok rs \<Longrightarrow> find_max_seq_in_segment (fst (encode_batch rs)) = foldl max 0 (map seq rs)"
  using max_seq_loop_encode [of rs "[]" 0] by (simp add: find_max_seq_in_segment_def)

lemma foldl_max_ge: "(m::nat) \<le> foldl max m xs \<and> (\<forall>x\<in>set xs. x \<le> foldl max m xs)"
proof (induction xs arbitrary: m)
  case (Cons x xs)
  from Cons.IH [of "max m x"] show ?case by simp
qed simp

lemma foldl_max_map: "foldl (\<lambda>m s. max m (f s)) a xs = foldl max a (map f xs)" for a :: nat
  by (induction xs arbitrary: a) auto

text \<open>A directory whose files hold whole records, and the log they spell.\<close>

definition dir_clean :: "wal_dir \<Rightarrow> bool" where
  "dir_clean d \<longleftrightarrow> bt_ok d \<and> (\<forall>(i, c, n)\<in>set d. \<exists>rs. list_all wal_rec_ok rs \<and> c = fst (encode_batch rs))"

definition dir_log :: "wal_dir \<Rightarrow> InternalRecord list" where
  "dir_log d = concat (map (\<lambda>(i, c, n). wal_scan c) d)"

lemma Wal_open_clean:
  assumes "dir_clean d"
  shows "wal_ok (Wal_open d mb) \<and> log_of (Wal_open d mb) = dir_log d
    \<and> (\<forall>r\<in>set (dir_log d). seq r < next_seq (Wal_open d mb))"
proof -
  let ?segs = "map (\<lambda>(i, c, _). \<lparr>seg_path = i, wbuf = [], written_bytes = 0,
                    max_seq = find_max_seq_in_segment c\<rparr>) d"
  define mx where "mx = foldl max 0 (map max_seq ?segs)"
  define mi where "mi = foldl max 0 (map seg_path ?segs)"
  define w where "w = \<lparr>dir = d, segments = ?segs, max_segment_bytes = mb * 1024 * 1024,
             next_seq = (if 0 < mx then mx + 1 else 1), next_segment_id = mi + 1\<rparr>"
  have sel: "dir w = d" "segments w = ?segs" "next_seq w = (if 0 < mx then mx + 1 else 1)"
    "next_segment_id w = mi + 1" by (simp_all add: w_def)
  have op: "Wal_open d mb = (if ?segs = [] then roll_segment w else w)"
    by (simp add: Wal_open_def load_existing_def foldl_max_map [of max_seq] foldl_max_map [of seg_path]
        mx_def mi_def w_def Let_def)
  have bt: "bt_ok d" using assms by (simp add: dir_clean_def)
  have rd: "dir_read d i = c" if "(i, c, n) \<in> set d" for i c n
    using that bt_ok_distinct [OF bt] by (simp add: dir_read_def)
  have whl: "list_all wal_rec_ok (wal_scan c) \<and> c = fst (encode_batch (wal_scan c))
      \<and> (\<forall>r\<in>set (wal_scan c). seq r \<le> find_max_seq_in_segment c)" if "(i, c, n) \<in> set d" for i c n
  proof -
    from that assms obtain rs where rs: "list_all wal_rec_ok rs" "c = fst (encode_batch rs)"
      unfolding dir_clean_def by fast
    then show ?thesis using foldl_max_ge [of 0 "map seq rs"] by (simp add: find_max_seq_encode)
  qed
  have bytes: "seg_bytes d \<lparr>seg_path = i, wbuf = [], written_bytes = 0, max_seq = m\<rparr> = c"
    if "(i, c, n) \<in> set d" for i c n m using rd [OF that] by (simp add: seg_bytes_def)
  have "seg_ok d s" if "s \<in> set ?segs" for s
  proof -
    from that obtain i c n where "(i, c, n) \<in> set d"
      "s = \<lparr>seg_path = i, wbuf = [], written_bytes = 0, max_seq = find_max_seq_in_segment c\<rparr>" by auto
    with whl bytes show ?thesis unfolding seg_ok_def
      by (intro exI [of _ "wal_scan c"]) simp
  qed
  moreover have "\<forall>i\<in>fst ` set d. i < mi + 1"
    using foldl_max_ge [of 0 "map seg_path ?segs"] by (force simp: mi_def less_Suc_eq_le)
  moreover have "map fst d = map seg_path ?segs" by (simp add: comp_def split_beta)
  ultimately have ok: "wal_ok w" using bt by (simp add: wal_ok_def sel)
  have "map (\<lambda>s. wal_scan (seg_bytes d s)) ?segs = map (\<lambda>(i, c, n). wal_scan c) d"
    using bytes by auto
  then have log: "log_of w = dir_log d" unfolding log_of_def dir_log_def by (simp only: sel)
  have "seq r < next_seq w" if "r \<in> set (dir_log d)" for r
  proof -
    from that obtain i c n where m: "(i, c, n) \<in> set d" "r \<in> set (wal_scan c)" by (auto simp: dir_log_def)
    then have "seq r \<le> find_max_seq_in_segment c" using whl by blast
    also have "\<dots> \<le> mx" using foldl_max_ge [of 0 "map max_seq ?segs"] m(1) by (force simp: mx_def)
    finally show ?thesis by (simp add: sel)
  qed
  moreover have "next_seq (roll_segment w) = next_seq w"
    by (simp add: roll_segment_def create_new_segment_def split: option.split)
  ultimately show ?thesis using ok log roll_segment_ok [OF ok] by (simp add: op)
qed

text \<open>A crash may cut every file down to any point at or after what was fsynced.\<close>

definition crash_image :: "wal_dir \<Rightarrow> wal_dir \<Rightarrow> bool" where
  "crash_image d d' \<longleftrightarrow>
     list_all2 (\<lambda>(i, c, n) (i', c', n'). i' = i \<and> (\<exists>m\<ge>n. c' = take m c)) d d'"

lemma map_segs_sync_durable:
  assumes "bt_ok d" "distinct (map seg_path ss)" "seg_path ` set ss \<subseteq> fst ` set d"
    and "map_segs seg_sync d ss = (d', ss')"
  shows "(\<forall>i. i \<in> seg_path ` set ss \<longrightarrow> (\<exists>c. map_of d' i = Some (c, length c)))
    \<and> (\<forall>i. i \<notin> seg_path ` set ss \<longrightarrow> map_of d' i = map_of d i)"
  using assms
proof (induction ss arbitrary: d d' ss')
  case Nil
  then show ?case by simp
next
  case (Cons s ss)
  obtain d1 s1 where 1: "seg_sync (d, s) = (d1, s1)" by fastforce
  obtain d2 ss2 where 2: "map_segs seg_sync d1 ss = (d2, ss2)" by fastforce
  from Cons.prems 1 2 have r: "d' = d2" by auto
  have st: "writer_step [] (d, s) (d1, s1)" using seg_sync_writer [of d s] Cons.prems 1 by auto
  then have k: "map fst d1 = map fst d" "bt_ok d1" by (auto simp: writer_step_def)
  have m1: "\<exists>c. map_of d1 (seg_path s) = Some (c, length c)"
    "\<And>i. i \<noteq> seg_path s \<Longrightarrow> map_of d1 i = map_of d i"
    using 1 by (auto simp: seg_sync_def seg_flush_def dir_sync_def dir_append_def)
  have "(\<forall>i. i \<in> seg_path ` set ss \<longrightarrow> (\<exists>c. map_of d2 i = Some (c, length c)))
    \<and> (\<forall>i. i \<notin> seg_path ` set ss \<longrightarrow> map_of d2 i = map_of d1 i)"
    using Cons.IH [OF k(2) _ _ 2] Cons.prems keys_eq_set [OF k(1)] by auto
  with m1 Cons.prems(2) show ?case by (auto simp: r)
qed

lemma wal_sync_all_durable:
  assumes "wal_ok w" "(i, c, n) \<in> set (dir (wal_sync_all w))"
  shows "n = length c"
proof -
  obtain d' ss' where m: "map_segs seg_sync (dir w) (segments w) = (d', ss')"
    and w': "wal_sync_all w = w\<lparr>dir := d', segments := ss'\<rparr>"
    and k: "map fst d' = map fst (dir w)" "bt_ok d'"
    using wal_sync_segs [OF assms(1)] by blast
  have "i \<in> seg_path ` set (segments w)"
    using assms(2) w' keys_eq_set [OF k(1)] wal_ok_paths(2) [OF assms(1)] by force
  then have "\<exists>c. map_of d' i = Some (c, length c)"
    using map_segs_sync_durable [OF _ _ _ m] assms(1) wal_ok_paths [OF assms(1)] by (simp add: wal_ok_def)
  moreover have "map_of d' i = Some (c, n)"
    using assms(2) w' bt_ok_distinct [OF k(2)] by simp
  ultimately show ?thesis by simp
qed

lemma wal_sync_all_unbuffered:
  assumes "wal_ok w" "s \<in> set (segments (wal_sync_all w))"
  shows "wbuf s = []"
proof -
  obtain d' ss' where "wal_sync_all w = w\<lparr>dir := d', segments := ss'\<rparr>"
    "list_all2 (seg_same (dir w) d') (segments w) ss'"
    using wal_sync_segs [OF assms(1)] by blast
  with assms(2) show ?thesis
    by (auto simp: list_all2_conv_all_nth in_set_conv_nth seg_same_def)
qed

lemma crash_image_synced:
  assumes "crash_image d d'" "\<forall>(i, c, n)\<in>set d. n = length c"
  shows "map (\<lambda>(i, c, n). (i, c)) d' = map (\<lambda>(i, c, n). (i, c)) d"
  using assms unfolding crash_image_def by (induction rule: list_all2_induct) auto

lemma unbuffered_dir:
  assumes "wal_ok v" "\<forall>s\<in>set (segments v). wbuf s = []"
  shows "dir_log (dir v) = log_of v" and "dir_clean (dir v)"
proof -
  have rd: "map (\<lambda>(i, c, n). c) (dir v) = map (\<lambda>s. seg_bytes (dir v) s) (segments v)"
  proof -
    have "map (\<lambda>(i, c, n). c) (dir v) = map (dir_read (dir v)) (map fst (dir v))"
      using bt_ok_distinct [of "dir v"] assms(1) unfolding wal_ok_def map_map
      by (intro map_cong refl) (auto simp: dir_read_def)
    also have "\<dots> = map (dir_read (dir v) \<circ> seg_path) (segments v)"
      using assms(1) by (simp add: wal_ok_def)
    finally show ?thesis using assms(2) by (simp add: seg_bytes_def)
  qed
  have "dir_log (dir v) = concat (map wal_scan (map (\<lambda>(i, c, n). c) (dir v)))"
    unfolding dir_log_def map_map by (auto intro!: arg_cong [where f = concat])
  also have "\<dots> = log_of v" unfolding rd by (simp add: log_of_def comp_def)
  finally show "dir_log (dir v) = log_of v" .
  have "\<exists>rs. list_all wal_rec_ok rs \<and> c = fst (encode_batch rs)" if "(i, c, n) \<in> set (dir v)" for i c n
  proof -
    have "c \<in> set (map (\<lambda>(i, c, n). c) (dir v))" using that by force
    then obtain s where "s \<in> set (segments v)" "c = seg_bytes (dir v) s" unfolding rd by auto
    then show ?thesis using assms(1) by (auto simp: wal_ok_def seg_ok_def)
  qed
  then show "dir_clean (dir v)" using assms(1) by (auto simp: dir_clean_def wal_ok_def)
qed

lemma dir_clean_content:
  assumes "map (\<lambda>(i, c, n). (i, c)) d' = map (\<lambda>(i, c, n). (i, c)) d"
  shows "dir_clean d' = dir_clean d" and "dir_log d' = dir_log d"
proof -
  have 1: "map fst d' = map fst d"
    using arg_cong [OF assms, of "map fst"] by (simp add: comp_def split_beta)
  have 2: "map (fst \<circ> snd) d' = map (fst \<circ> snd) d"
    using arg_cong [OF assms, of "map snd"] by (simp add: comp_def split_beta)
  have "(\<forall>(i, c, n)\<in>set e. P c) = (\<forall>c\<in>set (map (fst \<circ> snd) e). P c)" for e :: wal_dir and P
    by auto
  then show "dir_clean d' = dir_clean d" unfolding dir_clean_def bt_ok_def 1 2 by (simp only: 1 2)
  have "dir_log e = concat (map wal_scan (map (fst \<circ> snd) e))" for e
    unfolding dir_log_def by (induction e) auto
  then show "dir_log d' = dir_log d" by (simp only: 2)
qed

section \<open>The contract of the log\<close>

text \<open>What the engine relies on: appends are seen at the end of the log, truncation at \<open>q\<close> may only
  lose records the engine has flushed (sequence numbers up to \<open>q\<close>), a replay returns the records
  above a sequence number in order, and a crash after a sync followed by a reopen loses nothing.\<close>

locale write_log =
  fixes ok :: "'w \<Rightarrow> bool"
    and log :: "'w \<Rightarrow> InternalRecord list"
    and valid :: "InternalRecord \<Rightarrow> bool"
    and append_recs :: "InternalRecord list \<Rightarrow> 'w \<Rightarrow> 'w"
    and trunc :: "nat \<Rightarrow> 'w \<Rightarrow> 'w"
    and sync :: "'w \<Rightarrow> 'w"
    and replay :: "nat \<Rightarrow> 'w \<Rightarrow> InternalRecord list"
    and reopened :: "'w \<Rightarrow> 'w \<Rightarrow> bool"
  assumes append_law: "ok w \<Longrightarrow> list_all valid rs \<Longrightarrow>
      ok (append_recs rs w) \<and> log (append_recs rs w) = log w @ rs"
    and trunc_law: "ok w \<Longrightarrow> ok (trunc q w) \<and>
      filter (\<lambda>r. q < seq r) (log (trunc q w)) = filter (\<lambda>r. q < seq r) (log w)"
    and replay_law: "ok w \<Longrightarrow> replay n w = sort_key seq (filter (\<lambda>r. n < seq r) (log w))"
    and reopen_law: "ok w \<Longrightarrow> reopened (sync w) w' \<Longrightarrow> ok w' \<and> log w' = log w"
begin

fun run_ops :: "(InternalRecord list + nat) list \<Rightarrow> 'w \<Rightarrow> 'w" where
  "run_ops [] w = w"
| "run_ops (Inl rs # ops) w = run_ops ops (append_recs rs w)"
| "run_ops (Inr q # ops) w = run_ops ops (trunc q w)"

fun appended :: "(InternalRecord list + nat) list \<Rightarrow> InternalRecord list" where
  "appended [] = []"
| "appended (Inl rs # ops) = rs @ appended ops"
| "appended (Inr q # ops) = appended ops"

lemma filter_above:
  assumes "filter (\<lambda>r. q < seq r) xs = filter (\<lambda>r. q < seq r) ys" "q \<le> n"
  shows "filter (\<lambda>r. n < seq r) xs = filter (\<lambda>r. n < seq r) ys"
proof -
  have "filter (\<lambda>r. n < seq r) zs = filter (\<lambda>r. n < seq r) (filter (\<lambda>r. q < seq r) zs)" for zs
    using assms(2) by (auto intro: filter_cong)
  then show ?thesis using assms(1) by metis
qed

lemma run_ops_log:
  assumes "ok w" "\<forall>rs. Inl rs \<in> set ops \<longrightarrow> list_all valid rs" "\<forall>q. Inr q \<in> set ops \<longrightarrow> q \<le> n"
  shows "ok (run_ops ops w) \<and> filter (\<lambda>r. n < seq r) (log (run_ops ops w))
      = filter (\<lambda>r. n < seq r) (log w @ appended ops)"
  using assms
proof (induction ops w rule: run_ops.induct)
  case (1 w)
  then show ?case by simp
next
  case (2 rs ops w)
  then show ?case using append_law [of w rs] by simp
next
  case (3 q ops w)
  then have "q \<le> n" by simp
  from 3 have "ok (trunc q w)" using trunc_law by blast
  moreover have "filter (\<lambda>r. n < seq r) (log (trunc q w)) = filter (\<lambda>r. n < seq r) (log w)"
    using filter_above [OF _ \<open>q \<le> n\<close>] trunc_law [OF 3(2)] by blast
  ultimately show ?case using 3 by simp
qed

lemma recovery:
  assumes "ok w" "\<forall>rs. Inl rs \<in> set ops \<longrightarrow> list_all valid rs" "\<forall>q. Inr q \<in> set ops \<longrightarrow> q \<le> n"
    and "reopened (sync (run_ops ops w)) w'"
  shows "replay n w' = sort_key seq (filter (\<lambda>r. n < seq r) (log w @ appended ops))"
  using run_ops_log [OF assms(1-3)] reopen_law [OF _ assms(4)] by (simp add: replay_law)

end

text \<open>The write path passes \<open>write_encoded\<close> the greatest sequence number of the batch.\<close>

definition wal_append :: "InternalRecord list \<Rightarrow> Wal \<Rightarrow> Wal" where
  "wal_append rs w = write_encoded (fst (encode_batch rs)) (foldl max 0 (map seq rs)) w"

definition wal_reopened :: "Wal \<Rightarrow> Wal \<Rightarrow> bool" where
  "wal_reopened w w' \<longleftrightarrow> (\<exists>d' mb. crash_image (dir w) d' \<and> w' = Wal_open d' mb)"

text \<open>A log with nothing buffered and everything fsynced; \<open>sync_all\<close> leaves one.\<close>

definition wal_synced :: "Wal \<Rightarrow> bool" where
  "wal_synced w \<longleftrightarrow> (\<forall>s\<in>set (segments w). wbuf s = []) \<and> (\<forall>(i, c, n)\<in>set (dir w). n = length c)"

lemma wal_synced_sync_all: "wal_ok w \<Longrightarrow> wal_synced (wal_sync_all w)"
  using wal_sync_all_durable wal_sync_all_unbuffered unfolding wal_synced_def by blast

lemma wal_synced_reopen:
  assumes "wal_ok w" "wal_synced w" "crash_image (dir w) d'"
  shows "wal_ok (Wal_open d' mb) \<and> log_of (Wal_open d' mb) = log_of w
    \<and> (\<forall>r\<in>set (log_of w). seq r < next_seq (Wal_open d' mb))"
proof -
  have "map (\<lambda>(i, c, n). (i, c)) d' = map (\<lambda>(i, c, n). (i, c)) (dir w)"
    using crash_image_synced [OF assms(3)] assms(2) by (simp add: wal_synced_def)
  note same = dir_clean_content [OF this]
  have "dir_log (dir w) = log_of w" "dir_clean (dir w)"
    using unbuffered_dir [OF assms(1)] assms(2) by (auto simp: wal_synced_def)
  with same have "dir_clean d'" "dir_log d' = log_of w" by auto
  with Wal_open_clean [of d' mb] show ?thesis by simp
qed

lemma wal_durable_reopen:
  assumes "wal_ok w" "crash_image (dir (wal_sync_all w)) d'"
  shows "wal_ok (Wal_open d' mb) \<and> log_of (Wal_open d' mb) = log_of w
    \<and> (\<forall>r\<in>set (log_of w). seq r < next_seq (Wal_open d' mb))"
  using wal_synced_reopen [OF _ wal_synced_sync_all [OF assms(1)] assms(2)] wal_sync_all_spec [OF assms(1)] by auto

interpretation wal_log: write_log wal_ok log_of wal_rec_ok wal_append truncate_before wal_sync_all
  "\<lambda>n w. snd (replay_from n w)" wal_reopened
proof
  fix w rs assume "wal_ok w" "list_all wal_rec_ok rs"
  then show "wal_ok (wal_append rs w) \<and> log_of (wal_append rs w) = log_of w @ rs"
    unfolding wal_append_def using foldl_max_ge [of 0 "map seq rs"] by (intro write_encoded_spec) auto
qed (auto simp: truncate_before_spec replay_from_spec wal_reopened_def dest: wal_durable_reopen)

lemma wal_ok_open_empty: "wal_ok (Wal_open [] mb) \<and> log_of (Wal_open [] mb) = []"
  using Wal_open_clean [of "[]" mb] by (simp add: dir_clean_def dir_log_def)

lemma crash_image_refl: "crash_image d d"
proof -
  have "\<exists>m\<ge>n. c = take m c" for n and c :: bytes by (intro exI [of _ "max n (length c)"]) simp
  then show ?thesis unfolding crash_image_def by (intro list_all2_refl) auto
qed

text \<open>The records the appends of a run of log operations wrote, and the log they leave.\<close>

fun wal_run :: "(InternalRecord list + nat) list \<Rightarrow> Wal \<Rightarrow> Wal" where
  "wal_run [] w = w"
| "wal_run (Inl rs # ops) w = wal_run ops (wal_append rs w)"
| "wal_run (Inr q # ops) w = wal_run ops (truncate_before q w)"

lemma wal_run_run_ops: "wal_run ops w = wal_log.run_ops ops w"
  by (induction ops w rule: wal_run.induct) simp_all

fun wal_appended :: "(InternalRecord list + nat) list \<Rightarrow> InternalRecord list" where
  "wal_appended [] = []"
| "wal_appended (Inl rs # ops) = rs @ wal_appended ops"
| "wal_appended (Inr q # ops) = wal_appended ops"

lemma wal_appended_eq: "wal_appended ops = wal_log.appended ops"
  by (induction ops rule: wal_appended.induct) simp_all



text \<open>Reopening never reuses a sequence number: after a sync and a crash, \<^verbatim>\<open>open\<close> sets the next
  sequence number above every record of the log, and the reopened log is well-formed.\<close>

theorem wal_reopen_next_seq:
  assumes "wal_ok w" "crash_image (dir (wal_sync_all w)) d'"
  shows "wal_ok (Wal_open d' mb) \<and> (\<forall>r\<in>set (log_of w). seq r < next_seq (Wal_open d' mb))"
  using wal_durable_reopen [OF assms] by simp

theorem wal_reopen_next_seq_witness:
  "7 < next_seq (Wal_open (dir (wal_sync_all (wal_append [delete_rec [1] 5 7] (Wal_open [] 64)))) 64)"
proof -
  have ok: "list_all wal_rec_ok [delete_rec [1] 5 7]"
    by (simp add: wal_rec_ok_def i64_def i64_min_def i64_max_def delete_rec_def)
  have w: "wal_ok (wal_append [delete_rec [1] 5 7] (Wal_open [] 64))"
    "log_of (wal_append [delete_rec [1] 5 7] (Wal_open [] 64)) = [delete_rec [1] 5 7]"
    using wal_log.append_law [OF _ ok] wal_ok_open_empty [of 64] by simp_all
  show ?thesis using wal_reopen_next_seq [OF w(1) crash_image_refl] w(2) by simp
qed

text \<open>Truncation is safe: it keeps the log well-formed and loses no record above the sequence
  number it is given, whichever segment files it deletes.\<close>

theorem truncate_keeps_unflushed:
  assumes "wal_ok w"
  shows "wal_ok (truncate_before q w)
    \<and> filter (\<lambda>r. q < seq r) (log_of (truncate_before q w)) = filter (\<lambda>r. q < seq r) (log_of w)"
  by (rule truncate_before_spec [OF assms])

theorem truncate_keeps_unflushed_witness: "wal_ok (truncate_before 3 (Wal_open [] 64))"
  using truncate_keeps_unflushed [of "Wal_open [] 64" 3] wal_ok_open_empty by simp

section \<open>A torn tail hides later writes\<close>

text \<open>C35. A segment that ends in a torn record is reopened for appending behind the torn bytes.  Where
  those bytes and the new batch do not happen to decode, nothing that is written afterwards to that
  segment is in the log any more: a replay sees only the records before the tear.\<close>

theorem torn_tail_hides_writes:
  assumes "list_all wal_rec_ok rs" and "decode_record (t @ buf) = None"
    and "0 < mb" "length buf < BUF_CAP"
  shows "log_of (write_encoded buf m (Wal_open [(i, fst (encode_batch rs) @ t, n)] mb)) = rs"
proof -
  let ?c = "fst (encode_batch rs) @ t"
  let ?s = "\<lparr>seg_path = i, wbuf = buf, written_bytes = length buf,
             max_seq = max m (find_max_seq_in_segment ?c)\<rparr>"
  have small: "length buf < mb * 1024 * 1024" using assms(3,4) by (simp add: BUF_CAP_def)
  define w where "w = write_encoded buf m (Wal_open [(i, ?c, n)] mb)"
  have "dir w = [(i, ?c, n)] \<and> segments w = [?s]"
    using small assms(4)
    by (simp add: w_def write_encoded_def Wal_open_def load_existing_def seg_write_all_def Let_def max_def)
  then show ?thesis
    using wal_scan_batch [OF assms(1,2)] by (simp add: w_def [symmetric] log_of_def seg_bytes_def dir_read_def)
qed

theorem torn_tail_hides_writes_witness:
  "log_of (write_encoded (fst (encode_batch [delete_rec [1] 5 2])) 2 (Wal_open [(1, [0], 1)] 64)) = []"
proof -
  let ?buf = "fst (encode_batch [delete_rec [1] 5 2])"
  have len: "length ?buf = 40"
    by (simp add: fst_encode_batch length_encode_record encoded_size_def CHECKSUM_LEN_def delete_rec_def)
  have "be_bytes 8 2 = [0, 0, 0, 0, 0, 0, 0, 2]" "be_bytes 2 1 = [0, 1]"
    by (simp_all add: be_bytes_numeral)
  then obtain z where "?buf = [0, 0, 0, 0, 0, 0, 0, 2, 1, 0, 1] @ z"
    by (simp add: fst_encode_batch encode_record_Nil record_body_def delete_rec_def)
  with len have "be_val (slice ([0] @ ?buf) 9 2) = 256" "length ([0] @ ?buf) = 41"
    by (simp_all add: slice_def be_val_def)
  then have "decode_record ([0] @ ?buf) = None" unfolding decode_record_def Let_def by simp
  moreover have "length ?buf < BUF_CAP" by (simp add: len BUF_CAP_def)
  moreover note len
  ultimately show ?thesis
    using torn_tail_hides_writes [of "[]" "[0]" ?buf 64 2 1 1] by simp
qed

end
