(* ===== verification/Memtable.thy ===== *)
theory Memtable
  imports Records
begin

text \<open>
  \<^verbatim>\<open>src/memtable.rs\<close>: the in-memory tables.  A \<open>MemTable\<close> is an append-only vector with a side
  index from \<open>(key, ts)\<close> to the position of the version inserted last; \<open>MemTables\<close> is one active table
  and a queue of frozen, sorted ones.  The lemmas show when the index agrees with the linear scan it
  replaces, what each query returns, and that freezing and popping move records without losing any.
\<close>

section \<open>One table\<close>

record MemTable =
  records :: "InternalRecord list"
  point_index :: "bytes \<times> int \<rightharpoonup> nat"
  mt_bytes :: nat

definition MemTable_new :: MemTable where
  "MemTable_new = \<lparr>records = [], point_index = Map.empty, mt_bytes = 0\<rparr>"

definition mt_insert :: "InternalRecord \<Rightarrow> MemTable \<Rightarrow> MemTable" where
  "mt_insert r m =
     m\<lparr>mt_bytes := mt_bytes m + estimated_size r,
       point_index := (point_index m)((key r, ts r) \<mapsto> length (records m)),
       records := records m @ [r]\<rparr>"

definition mt_get :: "bytes \<Rightarrow> int \<Rightarrow> MemTable \<Rightarrow> InternalRecord option" where
  "mt_get k t m =
     (case point_index m (k, t) of
        Some idx \<Rightarrow> Some (records m ! idx)
      | None \<Rightarrow> max_by_key seq (filter (\<lambda>r. key r = k \<and> ts r = t) (records m)))"

definition mt_get_latest :: "bytes \<Rightarrow> int \<Rightarrow> MemTable \<Rightarrow> InternalRecord option" where
  "mt_get_latest k now_us m =
     max_by_key (\<lambda>r. (ts r, seq r))
       (filter (\<lambda>r. key r = k \<and> now_us \<le> expire_at r \<and> rop r \<noteq> Delete \<and> rop r \<noteq> DeleteRange) (records m))"

definition mt_query_prefix :: "bytes \<Rightarrow> int \<Rightarrow> MemTable \<Rightarrow> InternalRecord list" where
  "mt_query_prefix k now_us m =
     filter (\<lambda>r. prefix k (key r) \<and> now_us \<le> expire_at r) (records m)"

definition mt_query_key_range :: "bytes \<Rightarrow> bytes \<Rightarrow> int \<Rightarrow> MemTable \<Rightarrow> InternalRecord list" where
  "mt_query_key_range start_key end_key now_us m =
     filter (\<lambda>r. start_key \<le> key r \<and> key r \<le> end_key \<and> now_us \<le> expire_at r) (records m)"

definition mt_query_time_range :: "int \<Rightarrow> int \<Rightarrow> int \<Rightarrow> MemTable \<Rightarrow> InternalRecord list" where
  "mt_query_time_range t0 t1 now_us m =
     filter (\<lambda>r. t0 \<le> ts r \<and> ts r \<le> t1 \<and> now_us \<le> expire_at r) (records m)"

definition mt_query_prefix_time_range ::
    "bytes \<Rightarrow> int \<Rightarrow> int \<Rightarrow> int \<Rightarrow> MemTable \<Rightarrow> InternalRecord list" where
  "mt_query_prefix_time_range k t0 t1 now_us m =
     filter (\<lambda>r. prefix k (key r) \<and> t0 \<le> ts r \<and> ts r \<le> t1 \<and> now_us \<le> expire_at r)
       (records m)"

definition mt_query_key_time_range ::
    "bytes \<Rightarrow> bytes \<Rightarrow> int \<Rightarrow> int \<Rightarrow> int \<Rightarrow> MemTable \<Rightarrow> InternalRecord list" where
  "mt_query_key_time_range start_key end_key t0 t1 now_us m =
     filter (\<lambda>r. start_key \<le> key r \<and> key r \<le> end_key \<and> t0 \<le> ts r \<and> ts r \<le> t1
                 \<and> now_us \<le> expire_at r) (records m)"

text \<open>\<^verbatim>\<open>sort_by\<close> is a stable sort, so it is \<open>sort_key\<close> of the library at the comparator's key.\<close>

definition mt_sort :: "MemTable \<Rightarrow> MemTable" where
  "mt_sort m = m\<lparr>records := sort_key sort_ord (records m), point_index := Map.empty\<rparr>"

section \<open>The set of tables\<close>

record MemTables =
  active :: MemTable
  frozen :: "MemTable list"
  max_frozen :: nat
  memtable_size_limit :: nat

definition MemTables_new :: "nat \<Rightarrow> nat \<Rightarrow> MemTables" where
  "MemTables_new mf limit =
     \<lparr>active = MemTable_new, frozen = [], max_frozen = mf, memtable_size_limit = limit\<rparr>"

definition mts_insert :: "InternalRecord \<Rightarrow> MemTables \<Rightarrow> MemTables" where
  "mts_insert r ms = ms\<lparr>active := mt_insert r (active ms)\<rparr>"

definition should_flush :: "MemTables \<Rightarrow> bool" where
  "should_flush ms \<longleftrightarrow> memtable_size_limit ms \<le> mt_bytes (active ms)"

definition frozen_backpressure :: "MemTables \<Rightarrow> bool" where
  "frozen_backpressure ms \<longleftrightarrow> max_frozen ms \<le> length (frozen ms)"

definition freeze :: "MemTables \<Rightarrow> MemTables \<times> bool" where
  "freeze ms =
     (if records (active ms) = [] then (ms, False)
      else (ms\<lparr>active := MemTable_new, frozen := frozen ms @ [mt_sort (active ms)]\<rparr>, True))"

definition pop_frozen :: "MemTables \<Rightarrow> MemTables \<times> MemTable option" where
  "pop_frozen ms =
     (case frozen ms of [] \<Rightarrow> (ms, None) | m # rest \<Rightarrow> (ms\<lparr>frozen := rest\<rparr>, Some m))"

definition active_stats :: "MemTables \<Rightarrow> nat \<times> nat" where
  "active_stats ms = (length (records (active ms)), mt_bytes (active ms))"

definition frozen_count :: "MemTables \<Rightarrow> nat" where
  "frozen_count ms = length (frozen ms)"

definition mts_query_prefix :: "bytes \<Rightarrow> int \<Rightarrow> MemTables \<Rightarrow> InternalRecord list" where
  "mts_query_prefix k now_us ms =
     mt_query_prefix k now_us (active ms) @ concat (map (mt_query_prefix k now_us) (frozen ms))"

definition mts_query_key_range :: "bytes \<Rightarrow> bytes \<Rightarrow> int \<Rightarrow> MemTables \<Rightarrow> InternalRecord list" where
  "mts_query_key_range s e now_us ms =
     mt_query_key_range s e now_us (active ms) @ concat (map (mt_query_key_range s e now_us) (frozen ms))"

definition mts_query_time_range :: "int \<Rightarrow> int \<Rightarrow> int \<Rightarrow> MemTables \<Rightarrow> InternalRecord list" where
  "mts_query_time_range s e now_us ms =
     mt_query_time_range s e now_us (active ms) @ concat (map (mt_query_time_range s e now_us) (frozen ms))"

definition mts_query_prefix_time_range ::
    "bytes \<Rightarrow> int \<Rightarrow> int \<Rightarrow> int \<Rightarrow> MemTables \<Rightarrow> InternalRecord list" where
  "mts_query_prefix_time_range k s e now_us ms =
     mt_query_prefix_time_range k s e now_us (active ms)
     @ concat (map (mt_query_prefix_time_range k s e now_us) (frozen ms))"

definition mts_query_key_time_range ::
    "bytes \<Rightarrow> bytes \<Rightarrow> int \<Rightarrow> int \<Rightarrow> int \<Rightarrow> MemTables \<Rightarrow> InternalRecord list" where
  "mts_query_key_time_range sk ek s e now_us ms =
     mt_query_key_time_range sk ek s e now_us (active ms)
     @ concat (map (mt_query_key_time_range sk ek s e now_us) (frozen ms))"

text \<open>\<open>MemTables::get\<close> asks the active table and then the frozen ones in queue order, and takes the
  first answer that has not expired.\<close>

fun get_first :: "bytes \<Rightarrow> int \<Rightarrow> int \<Rightarrow> MemTable list \<Rightarrow> InternalRecord option" where
  "get_first k t now_us [] = None"
| "get_first k t now_us (m # ms) =
     (case mt_get k t m of
        Some r \<Rightarrow> if now_us \<le> expire_at r then Some r else get_first k t now_us ms
      | None \<Rightarrow> get_first k t now_us ms)"

definition mts_get :: "bytes \<Rightarrow> int \<Rightarrow> int \<Rightarrow> MemTables \<Rightarrow> InternalRecord option" where
  "mts_get k t now_us ms = get_first k t now_us (active ms # frozen ms)"

definition better :: "InternalRecord option \<Rightarrow> InternalRecord option \<Rightarrow> InternalRecord option" where
  "better best cand =
     (case cand of None \<Rightarrow> best
      | Some r \<Rightarrow>
          (case best of None \<Rightarrow> Some r
           | Some b \<Rightarrow> if ts b < ts r \<or> (ts r = ts b \<and> seq b < seq r) then Some r else Some b))"

definition mts_get_latest :: "bytes \<Rightarrow> int \<Rightarrow> MemTables \<Rightarrow> InternalRecord option" where
  "mts_get_latest k now_us ms =
     foldl (\<lambda>best m. better best (mt_get_latest k now_us m))
       (mt_get_latest k now_us (active ms)) (frozen ms)"

section \<open>The point index\<close>

lemma mt_new_simps [simp]:
  "records MemTable_new = []" "point_index MemTable_new = Map.empty" "mt_bytes MemTable_new = 0"
  by (simp_all add: MemTable_new_def)

lemma records_insert [simp]: "records (mt_insert r m) = records m @ [r]"
  by (simp add: mt_insert_def)

lemma point_index_insert [simp]:
  "point_index (mt_insert r m) = (point_index m)((key r, ts r) \<mapsto> length (records m))"
  by (simp add: mt_insert_def)

lemma records_sort [simp]: "records (mt_sort m) = sort_key sort_ord (records m)"
  by (simp add: mt_sort_def)

text \<open>An index entry points at the newest version of its \<open>(key, ts)\<close>, and sequence numbers do not
  repeat in a table.\<close>

definition mt_ok :: "MemTable \<Rightarrow> bool" where
  "mt_ok m \<longleftrightarrow>
     distinct (map seq (records m))
     \<and> (\<forall>k t i. point_index m (k, t) = Some i \<longrightarrow>
          i < length (records m) \<and> version (records m ! i) = (k, t)
          \<and> (\<forall>r\<in>set (records m). version r = (k, t) \<longrightarrow> seq r \<le> seq (records m ! i)))"

lemma mt_ok_new [simp]: "mt_ok MemTable_new"
  by (simp add: mt_ok_def)

lemma mt_ok_insert:
  assumes "mt_ok m" "\<forall>x\<in>set (records m). seq x < seq r"
  shows "mt_ok (mt_insert r m)"
  using assms unfolding mt_ok_def
  by (auto simp: mt_insert_def nth_append version_def less_Suc_eq dest: less_imp_le split: if_splits)

lemma mt_ok_sort [simp]: "mt_ok m \<Longrightarrow> mt_ok (mt_sort m)"
proof -
  assume m: "mt_ok m"
  have "mset (map seq (sort_key sort_ord (records m))) = mset (map seq (records m))"
    by simp
  then have "distinct (map seq (sort_key sort_ord (records m)))"
    using m unfolding mt_ok_def by (metis distinct_count_atmost_1 mset_eq_imp_distinct_iff)
  then show ?thesis by (simp add: mt_ok_def mt_sort_def)
qed

text \<open>The life of a table: inserts with growing sequence numbers, and sorts.\<close>

inductive mt_reach :: "MemTable \<Rightarrow> bool" where
  reach_new: "mt_reach MemTable_new"
| reach_insert: "mt_reach m \<Longrightarrow> \<forall>x\<in>set (records m). seq x < seq r \<Longrightarrow> mt_reach (mt_insert r m)"
| reach_sort: "mt_reach m \<Longrightarrow> mt_reach (mt_sort m)"

lemma mt_reach_ok: "mt_reach m \<Longrightarrow> mt_ok m"
  by (induction rule: mt_reach.induct) (simp_all add: mt_ok_insert)

lemma distinct_map_eq: "distinct (map f xs) \<Longrightarrow> x \<in> set xs \<Longrightarrow> y \<in> set xs \<Longrightarrow> f x = f y \<Longrightarrow> x = y"
  by (auto simp: distinct_map dest: inj_onD)

lemma mt_get_ok:
  assumes "mt_ok m"
  shows "mt_get k t m = max_by_key seq (filter (\<lambda>r. version r = (k, t)) (records m))"
proof (cases "point_index m (k, t)")
  case None
  then show ?thesis by (simp add: mt_get_def version_def)
next
  case (Some i)
  let ?r = "records m ! i"
  have i: "i < length (records m)" "version ?r = (k, t)"
    "\<forall>r\<in>set (records m). version r = (k, t) \<longrightarrow> seq r \<le> seq ?r"
    and d: "distinct (map seq (records m))"
    using assms Some unfolding mt_ok_def by blast+
  have "max_by_key seq (filter (\<lambda>r. version r = (k, t)) (records m)) = Some ?r"
  proof (rule max_by_key_eqI)
    show "?r \<in> set (filter (\<lambda>r. version r = (k, t)) (records m))" using i by simp
    fix x assume "x \<in> set (filter (\<lambda>r. version r = (k, t)) (records m))" "x \<noteq> ?r"
    then show "seq x < seq ?r"
      using i distinct_map_eq [OF d, of x ?r] by (auto simp: order_less_le)
  qed
  with Some show ?thesis by (simp add: mt_get_def)
qed

text \<open>C15. The point index is a sound replacement of the linear scan: in every table built by inserts with
  growing sequence numbers and by sorts, \<open>get\<close> returns the version of \<open>(key, ts)\<close> with the highest
  sequence number, and nothing exactly when there is no version.\<close>

theorem memtable_get_newest:
  assumes "mt_reach m"
  shows "mt_get k t m = max_by_key seq (filter (\<lambda>r. version r = (k, t)) (records m))"
  by (rule mt_get_ok [OF mt_reach_ok [OF assms]])

theorem memtable_get_newest_witness:
  "mt_get [1] 5 (mt_insert (delete_rec [1] 5 9) (mt_sort (mt_insert (delete_rec [1] 5 3) MemTable_new)))
   = Some (delete_rec [1] 5 9)"
proof -
  let ?m = "mt_insert (delete_rec [1] 5 9) (mt_sort (mt_insert (delete_rec [1] 5 3) MemTable_new))"
  have "mt_reach ?m" by (intro mt_reach.intros) simp_all
  from memtable_get_newest [OF this, of "[1]" 5] show ?thesis by (simp add: version_def)
qed

text \<open>Without the assumption on sequence numbers the index decides: after plain inserts \<open>get\<close> returns the
  version inserted last, whatever its sequence number, although its documentation promises the
  highest one.\<close>

theorem memtable_get_last_inserted:
  "mt_get k t (foldl (\<lambda>m r. mt_insert r m) MemTable_new rs)
   = (case filter (\<lambda>r. version r = (k, t)) rs of [] \<Rightarrow> None | vs \<Rightarrow> Some (last vs))"
proof -
  let ?m = "\<lambda>rs. foldl (\<lambda>m r. mt_insert r m) MemTable_new rs"
  have recs: "records (?m rs) = rs" for rs
    by (induction rs rule: rev_induct) simp_all
  have "mt_get k t (?m rs) = (let vs = filter (\<lambda>r. version r = (k, t)) rs in
      if vs = [] then None else Some (last vs))
    \<and> (filter (\<lambda>r. version r = (k, t)) rs \<noteq> [] \<longrightarrow>
        (\<exists>i<length rs. point_index (?m rs) (k, t) = Some i \<and> rs ! i = last (filter (\<lambda>r. version r = (k, t)) rs)))
    \<and> (filter (\<lambda>r. version r = (k, t)) rs = [] \<longrightarrow> point_index (?m rs) (k, t) = None)"
  proof (induction rs rule: rev_induct)
    case Nil
    then show ?case by (simp add: mt_get_def)
  next
    case (snoc r rs)
    let ?vs = "filter (\<lambda>r. version r = (k, t)) rs"
    show ?case
    proof (cases "version r = (k, t)")
      case True
      then show ?thesis by (simp add: mt_get_def version_def recs)
    next
      case False
      have idx: "point_index (?m (rs @ [r])) (k, t) = point_index (?m rs) (k, t)"
        using False by (auto simp: version_def)
      show ?thesis
      proof (cases "?vs = []")
        case True
        with False snoc idx show ?thesis
          by (auto simp: mt_get_def version_def recs filter_empty_conv)
      next
        case vs: False
        with snoc obtain i where i: "i < length rs" "point_index (?m rs) (k, t) = Some i" "rs ! i = last ?vs"
          by blast
        then have "(rs @ [r]) ! i = last ?vs" by (simp add: nth_append)
        then show ?thesis using i vs False idx recs [of "rs @ [r]"]
          by (auto simp: mt_get_def intro!: exI [of _ i])
      qed
    qed
  qed
  then show ?thesis by (auto simp: Let_def split: list.split)
qed

section \<open>Layers of tables\<close>

definition mts_all :: "MemTables \<Rightarrow> InternalRecord list" where
  "mts_all ms = records (active ms) @ concat (map records (frozen ms))"

lemma fold_insert_fields:
  "frozen (fold mts_insert rs ms) = frozen ms" "max_frozen (fold mts_insert rs ms) = max_frozen ms"
  "memtable_size_limit (fold mts_insert rs ms) = memtable_size_limit ms"
  "mt_bytes (active (fold mts_insert rs ms)) = mt_bytes (active ms) + sum_list (map estimated_size rs)"
  "records (active (fold mts_insert rs ms)) = records (active ms) @ rs"
  by (induction rs arbitrary: ms) (simp_all add: mts_insert_def mt_insert_def)

lemma mts_all_new [simp]: "mts_all (MemTables_new a b) = []"
  by (simp add: mts_all_def MemTables_new_def)

text \<open>Inserts carry fresh sequence numbers; the background flush freezes and pops.\<close>

inductive mts_reach :: "MemTables \<Rightarrow> bool" where
  mts_new: "mts_reach (MemTables_new mf limit)"
| mts_ins: "mts_reach ms \<Longrightarrow> \<forall>x\<in>set (mts_all ms). seq x < seq r \<Longrightarrow> mts_reach (mts_insert r ms)"
| mts_freeze: "mts_reach ms \<Longrightarrow> mts_reach (fst (freeze ms))"
| mts_pop: "mts_reach ms \<Longrightarrow> mts_reach (fst (pop_frozen ms))"

definition older :: "MemTable \<Rightarrow> MemTable \<Rightarrow> bool" where
  "older a b \<longleftrightarrow> (\<forall>x\<in>set (records a). \<forall>y\<in>set (records b). seq x < seq y)"

definition mts_ok :: "MemTables \<Rightarrow> bool" where
  "mts_ok ms \<longleftrightarrow>
     mt_ok (active ms)
     \<and> (\<forall>m\<in>set (frozen ms). mt_ok m \<and> sorted (map sort_ord (records m)) \<and> older m (active ms))
     \<and> sorted_wrt older (frozen ms)"

lemma older_insert:
  "older m (active ms) \<Longrightarrow> \<forall>x\<in>set (mts_all ms). seq x < seq r \<Longrightarrow> m \<in> set (frozen ms) \<Longrightarrow>
   older m (mt_insert r (active ms))"
  by (auto simp: older_def mts_all_def)

lemma mts_reach_ok: "mts_reach ms \<Longrightarrow> mts_ok ms"
proof (induction rule: mts_reach.induct)
  case (mts_new mf limit)
  then show ?case by (simp add: mts_ok_def MemTables_new_def)
next
  case (mts_ins ms r)
  then have "mt_ok (mt_insert r (active ms))"
    by (intro mt_ok_insert) (auto simp: mts_ok_def mts_all_def)
  with mts_ins show ?case
    by (auto simp: mts_ok_def mts_insert_def intro: older_insert)
next
  case (mts_freeze ms)
  then show ?case
    by (auto simp: mts_ok_def freeze_def sorted_wrt_append older_def)
next
  case (mts_pop ms)
  then show ?case by (auto simp: mts_ok_def pop_frozen_def split: list.split)
qed

lemma max_by_key_append:
  "max_by_key f (xs @ ys) = (case max_by_key f ys of None \<Rightarrow> max_by_key f xs
     | Some y \<Rightarrow> (case max_by_key f xs of None \<Rightarrow> Some y | Some x \<Rightarrow> if f x \<le> f y then Some y else Some x))"
  by (induction xs) (auto split: option.splits)

text \<open>With at most one frozen table and nothing expired, the layered lookup of \<open>MemTables::get\<close>
  returns the newest version that any table in memory holds.\<close>

theorem memtables_get_newest:
  assumes "mts_reach ms" and "length (frozen ms) \<le> 1" and "\<forall>r\<in>set (mts_all ms). now_us \<le> expire_at r"
  shows "mts_get k t now_us ms = max_by_key seq (filter (\<lambda>r. version r = (k, t)) (mts_all ms))"
proof -
  let ?f = "filter (\<lambda>r. version r = (k, t))"
  have ok: "mts_ok ms" using mts_reach_ok [OF assms(1)] .
  have a: "mt_get k t (active ms) = max_by_key seq (?f (records (active ms)))"
    using ok by (simp add: mts_ok_def mt_get_ok)
  have live: "now_us \<le> expire_at r" if "max_by_key seq (?f xs) = Some r" "set xs \<subseteq> set (mts_all ms)" for r xs
    using that assms(3) max_by_key_in [OF that(1)] by auto
  consider "frozen ms = []" | m where "frozen ms = [m]"
    using assms(2) by (cases "frozen ms") (auto simp: le_Suc_eq)
  then show ?thesis
  proof cases
    case 1
    with a live [of "records (active ms)"] show ?thesis
      by (auto simp: mts_get_def mts_all_def split: option.split)
  next
    case 2
    have b: "mt_get k t m = max_by_key seq (?f (records m))" and old: "older m (active ms)"
      using ok 2 by (simp_all add: mts_ok_def mt_get_ok)
    have "\<not> seq x \<le> seq y" if "max_by_key seq (?f (records (active ms))) = Some x"
      "max_by_key seq (?f (records m)) = Some y" for x y
      using max_by_key_in [OF that(1)] max_by_key_in [OF that(2)] old by (force simp: older_def)
    with a b 2 live [of "records (active ms)"] live [of "records m"] show ?thesis
      by (auto simp: mts_get_def mts_all_def max_by_key_append split: option.split)
  qed
qed

theorem memtables_get_newest_witness:
  "mts_get [1] 5 0 (mts_insert (delete_rec [1] 5 9)
     (fst (freeze (mts_insert (delete_rec [1] 5 3) (MemTables_new 2 100))))) = Some (delete_rec [1] 5 9)"
proof -
  let ?a = "mts_insert (delete_rec [1] 5 3) (MemTables_new 2 100)"
  let ?ms = "mts_insert (delete_rec [1] 5 9) (fst (freeze ?a))"
  have all: "mts_all (fst (freeze ?a)) = [delete_rec [1] 5 3]"
    by (simp add: mts_all_def freeze_def mts_insert_def MemTables_new_def)
  then have m: "mts_all ?ms = [delete_rec [1] 5 9, delete_rec [1] 5 3]"
    by (simp add: mts_all_def freeze_def mts_insert_def MemTables_new_def)
  have "mts_reach ?ms" by (intro mts_reach.intros) (simp_all add: all)
  moreover have "length (frozen ?ms) \<le> 1" by (simp add: freeze_def mts_insert_def MemTables_new_def)
  ultimately show ?thesis
    using memtables_get_newest [of ?ms 0 "[1]" 5] m by (simp add: version_def i64_max_def)
qed

text \<open>With two frozen tables the same lookup is stale: the tables are asked oldest first, so the older of
  two versions is returned until its table has been flushed.\<close>

theorem memtables_get_stale:
  fixes mf limit :: nat
  assumes "version r1 = (k, t)" "version r2 = (k, t)" "seq r1 < seq r2" "now_us \<le> expire_at r1"
  defines "ms \<equiv> fst (freeze (mts_insert r2 (fst (freeze (mts_insert r1 (MemTables_new mf limit))))))"
  shows "mts_reach ms \<and> mts_get k t now_us ms = Some r1
    \<and> max_by_key seq (filter (\<lambda>r. version r = (k, t)) (mts_all ms)) = Some r2"
proof -
  let ?a = "fst (freeze (mts_insert r1 (MemTables_new mf limit)))"
  have a: "mts_all ?a = [r1]" "?a = \<lparr>active = MemTable_new, frozen = [mt_sort (mt_insert r1 MemTable_new)],
      max_frozen = mf, memtable_size_limit = limit\<rparr>"
    by (simp_all add: freeze_def mts_insert_def MemTables_new_def mts_all_def)
  have "mts_reach ?a" by (intro mts_reach.intros) simp
  then have "mts_reach ms" unfolding ms_def using assms(3) a(1) by (intro mts_reach.intros) simp_all
  moreover have "ms = \<lparr>active = MemTable_new, frozen = [mt_sort (mt_insert r1 MemTable_new),
      mt_sort (mt_insert r2 MemTable_new)], max_frozen = mf, memtable_size_limit = limit\<rparr>"
    by (simp add: ms_def freeze_def mts_insert_def MemTables_new_def)
  ultimately show ?thesis
    using assms(1-4) by (auto simp: mts_get_def mts_all_def mt_get_def mt_sort_def version_def)
qed

theorem memtables_get_stale_witness:
  "mts_get [1] 5 0 (fst (freeze (mts_insert (delete_rec [1] 5 9)
     (fst (freeze (mts_insert (from_record (Record_new [1] 5 [7]) 3) (MemTables_new 2 100))))))) =
   Some (from_record (Record_new [1] 5 [7]) 3)"
  using memtables_get_stale [of "from_record (Record_new [1] 5 [7]) 3" "[1]" 5 "delete_rec [1] 5 9" 0 2 100]
  by (simp add: version_def Record_new_def i64_max_def)

text \<open>The flush queue is first in, first out and loses nothing: freezing moves the active records to the
  queue; a popped table is sorted for the SST writer, holds exactly the records that leave memory,
  and all of them are older than everything that stays.\<close>

theorem memtables_freeze_pop:
  assumes "mts_reach ms" and "pop_frozen (fst (freeze ms)) = (ms', Some m)"
  shows "mset (mts_all ms) = mset (records m) + mset (mts_all ms')
    \<and> sorted (map sort_ord (records m))
    \<and> (\<forall>x\<in>set (records m). \<forall>y\<in>set (mts_all ms'). seq x < seq y)"
proof -
  let ?f = "fst (freeze ms)"
  have ok: "mts_ok ?f" using assms(1) by (intro mts_reach_ok mts_reach.intros)
  have fr: "mset (mts_all ?f) = mset (mts_all ms)"
    by (simp add: freeze_def mts_all_def)
  from assms(2) have q: "frozen ?f = m # frozen ms'" "active ms' = active ?f"
    by (auto simp: pop_frozen_def split: list.splits)
  have "sorted (map sort_ord (records m))" "older m (active ?f)" "\<forall>b\<in>set (frozen ms'). older m b"
    using ok q(1) by (auto simp: mts_ok_def)
  then show ?thesis
    using fr q by (auto simp: mts_all_def older_def ac_simps)
qed

theorem memtables_freeze_pop_witness:
  "snd (pop_frozen (fst (freeze (mts_insert (delete_rec [1] 5 3) (MemTables_new 2 100))))) \<noteq> None
   \<and> mset (mts_all (mts_insert (delete_rec [1] 5 3) (MemTables_new 2 100))) = {#delete_rec [1] 5 3#}"
proof -
  let ?ms = "mts_insert (delete_rec [1] 5 3) (MemTables_new 2 100)"
  have "mts_reach ?ms" by (intro mts_reach.intros) simp
  then show ?thesis
    using memtables_freeze_pop [of ?ms]
    by (simp add: pop_frozen_def freeze_def mts_insert_def MemTables_new_def mts_all_def)
qed

section \<open>Latest version of a key\<close>

definition live_put :: "bytes \<Rightarrow> int \<Rightarrow> InternalRecord \<Rightarrow> bool" where
  "live_put k now_us r \<longleftrightarrow> key r = k \<and> now_us \<le> expire_at r \<and> rop r = Put"

text \<open>\<open>is_latest P S b\<close>: \<open>b\<close> is a greatest \<open>(ts, seq)\<close> among the elements of \<open>S\<close> with \<open>P\<close>, or none exists.\<close>

definition is_latest :: "(InternalRecord \<Rightarrow> bool) \<Rightarrow> InternalRecord set \<Rightarrow> InternalRecord option \<Rightarrow> bool" where
  "is_latest P S b \<longleftrightarrow>
     (case b of None \<Rightarrow> \<forall>r\<in>S. \<not> P r
      | Some r \<Rightarrow> r \<in> S \<and> P r \<and> (\<forall>x\<in>S. P x \<longrightarrow> (ts x, seq x) \<le> (ts r, seq r)))"

lemma is_latest_one: "is_latest (live_put k now_us) (set (records m)) (mt_get_latest k now_us m)"
proof -
  have eq: "(key r = k \<and> now_us \<le> expire_at r \<and> rop r \<noteq> Delete \<and> rop r \<noteq> DeleteRange) = live_put k now_us r" for r
    by (cases "rop r") (auto simp: live_put_def)
  show ?thesis
    unfolding mt_get_latest_def eq is_latest_def
    by (auto simp: filter_empty_conv split: option.split dest: max_by_key_in max_by_key_max)
qed

lemma is_latest_better:
  "is_latest P S a \<Longrightarrow> is_latest P T b \<Longrightarrow> is_latest P (S \<union> T) (better a b)"
  by (fastforce simp: is_latest_def better_def split: option.splits if_splits)

text \<open>\<open>MemTables::get_latest\<close> returns, over all tables in memory, the live \<open>Put\<close> of the key with the
  greatest \<open>(ts, seq)\<close>, and \<open>None\<close> exactly when there is none.  (A delete of that very version does not
  count against it: only \<open>Put\<close> records are compared.)\<close>

theorem memtables_get_latest:
  "is_latest (live_put k now_us) (set (mts_all ms)) (mts_get_latest k now_us ms)"
proof -
  have "is_latest (live_put k now_us) (S \<union> set (concat (map records fs)))
      (foldl (\<lambda>best m. better best (mt_get_latest k now_us m)) b fs)"
    if "is_latest (live_put k now_us) S b" for S b fs
    using that
  proof (induction fs arbitrary: S b)
    case Nil
    then show ?case by simp
  next
    case (Cons m fs)
    have "is_latest (live_put k now_us) (S \<union> set (records m)) (better b (mt_get_latest k now_us m))"
      by (rule is_latest_better [OF Cons.prems is_latest_one])
    from Cons.IH [OF this] show ?case by (simp add: Un_assoc)
  qed
  from this [OF is_latest_one, of "active ms" "frozen ms"] show ?thesis
    by (simp add: mts_get_latest_def mts_all_def)
qed

text \<open>Every query of \<open>MemTables\<close> is the corresponding filter over all records in memory: no table is
  skipped and none is read twice.\<close>

theorem memtables_queries:
  "mts_query_prefix k now_us ms
     = filter (\<lambda>r. prefix k (key r) \<and> now_us \<le> expire_at r) (mts_all ms)
   \<and> mts_query_key_range a b now_us ms
     = filter (\<lambda>r. a \<le> key r \<and> key r \<le> b \<and> now_us \<le> expire_at r) (mts_all ms)
   \<and> mts_query_time_range s e now_us ms
     = filter (\<lambda>r. s \<le> ts r \<and> ts r \<le> e \<and> now_us \<le> expire_at r) (mts_all ms)
   \<and> mts_query_prefix_time_range k s e now_us ms
     = filter (\<lambda>r. s \<le> ts r \<and> ts r \<le> e) (mts_query_prefix k now_us ms)
   \<and> mts_query_key_time_range a b s e now_us ms
     = filter (\<lambda>r. s \<le> ts r \<and> ts r \<le> e) (mts_query_key_range a b now_us ms)"
  by (auto simp: mts_all_def mts_query_prefix_def mts_query_key_range_def mts_query_time_range_def
      mts_query_prefix_time_range_def mts_query_key_time_range_def mt_query_prefix_def
      mt_query_key_range_def mt_query_time_range_def mt_query_prefix_time_range_def
      mt_query_key_time_range_def filter_concat comp_def conj_ac
      intro!: arg_cong2 [where f = append] arg_cong [where f = concat] map_cong filter_cong)

end
