(* ===== verification/Manifest.thy ===== *)
theory Manifest
  imports Bloom "HOL-Library.Countable"
begin

text \<open>
  \<^verbatim>\<open>src/manifest.rs\<close>: the manifest, a log of JSON lines that says which SSTables are live.  The file is
  its text; \<^verbatim>\<open>serde_json\<close> is not part of the repository, so the printer and the parser of an entry are
  the parameters \<open>ser\<close> and \<open>de\<close>, and the predicate \<open>json_ok\<close> names what the code relies on.
  A \<^verbatim>\<open>HashMap\<close> is an association list with distinct keys; where the code iterates over one, the
  iteration order is a parameter.  The main result: at any time, reading the file back gives the
  state in memory, across any mix of appends and snapshots.
\<close>

section \<open>Data\<close>

record SstInfo =
  sst_id :: nat
  sst_records :: nat
  sst_bytes :: nat
  sst_min_ts :: int
  sst_max_ts :: int
  sst_min_expire :: int
  sst_max_expire :: int
  sst_bloom :: "BloomFilter option"

record BlockInfo =
  block_idx :: nat
  min_key :: bytes
  max_key :: bytes
  blk_min_ts :: int
  blk_max_ts :: int
  blk_min_expire :: int
  blk_max_expire :: int

datatype ManifestEntry =
    Flush nat SstInfo "BlockInfo list"
  | DeleteSst nat
  | Compaction "nat list" "SstInfo list" "(nat \<times> BlockInfo list) list"
  | Checkpoint nat
  | GcDeleteSst nat
  | UpdateBloom nat BloomFilter

record ManifestState =
  last_flushed_seq :: nat
  sstables :: "(nat \<times> SstInfo) list"
  block_infos :: "(nat \<times> BlockInfo list) list"
  active_sst_ids :: "nat list"

definition ManifestState_default :: ManifestState where
  "ManifestState_default =
     \<lparr>last_flushed_seq = 0, sstables = [], block_infos = [], active_sst_ids = []\<rparr>"

section \<open>Applying an entry\<close>

definition activate :: "nat \<Rightarrow> nat list \<Rightarrow> nat list" where
  "activate i ids = (if i \<in> set ids then ids else ids @ [i])"

definition remove_sst :: "nat \<Rightarrow> ManifestState \<Rightarrow> ManifestState" where
  "remove_sst i st =
     st\<lparr>sstables := AList.delete i (sstables st), block_infos := AList.delete i (block_infos st),
        active_sst_ids := filter (\<lambda>j. j \<noteq> i) (active_sst_ids st)\<rparr>"

definition add_sst :: "SstInfo \<Rightarrow> ManifestState \<Rightarrow> ManifestState" where
  "add_sst info st =
     st\<lparr>sstables := AList.update (sst_id info) info (sstables st),
        active_sst_ids := activate (sst_id info) (active_sst_ids st)\<rparr>"

definition set_blocks :: "nat \<times> BlockInfo list \<Rightarrow> ManifestState \<Rightarrow> ManifestState" where
  "set_blocks p st = st\<lparr>block_infos := AList.update (fst p) (snd p) (block_infos st)\<rparr>"

fun apply_entry :: "ManifestEntry \<Rightarrow> ManifestState \<Rightarrow> ManifestState" where
  "apply_entry (Flush s sst blocks) st =
     set_blocks (sst_id sst, blocks)
       (add_sst sst (st\<lparr>last_flushed_seq := max (last_flushed_seq st) s\<rparr>))"
| "apply_entry (DeleteSst i) st = remove_sst i st"
| "apply_entry (GcDeleteSst i) st = remove_sst i st"
| "apply_entry (Compaction removed added blocks) st =
     fold set_blocks blocks (fold add_sst added (fold remove_sst removed st))"
| "apply_entry (Checkpoint s) st = st\<lparr>last_flushed_seq := max (last_flushed_seq st) s\<rparr>"
| "apply_entry (UpdateBloom i b) st =
     (case map_of (sstables st) i of
        Some info \<Rightarrow> st\<lparr>sstables := AList.update i (info\<lparr>sst_bloom := Some b\<rparr>) (sstables st)\<rparr>
      | None \<Rightarrow> st)"

section \<open>The file\<close>

text \<open>\<^verbatim>\<open>str::lines\<close> and \<^verbatim>\<open>str::trim\<close> on ASCII text.\<close>

definition NL :: char where
  "NL = CHR 0x0A"

definition strip_cr :: "string \<Rightarrow> string" where
  "strip_cr s = (if s \<noteq> [] \<and> last s = CHR 0x0D then butlast s else s)"

function text_lines :: "string \<Rightarrow> string list" where
  "text_lines s =
     (if s = [] then []
      else let rest = dropWhile (\<lambda>c. c \<noteq> NL) s
           in if rest = [] then [s]
              else strip_cr (takeWhile (\<lambda>c. c \<noteq> NL) s) # text_lines (tl rest))"
  by pat_completeness auto
termination
  by (relation "measure length") (auto simp: length_dropWhile_le le_less_trans less_le_trans
      intro: le_less_trans [OF diff_le_mono [OF length_dropWhile_le]])

declare text_lines.simps [simp del]

definition is_ws :: "char \<Rightarrow> bool" where
  "is_ws c \<longleftrightarrow> of_char c \<in> {9, 10, 11, 12, 13, 32 :: nat}"

definition trim :: "string \<Rightarrow> string" where
  "trim s = rev (dropWhile is_ws (rev (dropWhile is_ws s)))"

record Manifest =
  mfile :: "string option"
  mstate :: ManifestState
  entry_count :: nat

definition SNAPSHOT_THRESHOLD :: nat where
  "SNAPSHOT_THRESHOLD = 500"

definition replay_line :: "(string \<Rightarrow> ManifestEntry option) \<Rightarrow> string \<Rightarrow> ManifestState \<Rightarrow> ManifestState" where
  "replay_line de line st =
     (let line = trim line
      in if line = [] then st
         else case de line of Some e \<Rightarrow> apply_entry e st | None \<Rightarrow> st)"

definition Manifest_open :: "(string \<Rightarrow> ManifestEntry option) \<Rightarrow> string option \<Rightarrow> Manifest" where
  "Manifest_open de content =
     \<lparr>mfile = content,
      mstate = (case content of None \<Rightarrow> ManifestState_default
                | Some c \<Rightarrow> fold (replay_line de) (text_lines c) ManifestState_default),
      entry_count = 0\<rparr>"

definition manifest_append :: "(ManifestEntry \<Rightarrow> string) \<Rightarrow> ManifestEntry \<Rightarrow> Manifest \<Rightarrow> Manifest" where
  "manifest_append ser e m =
     m\<lparr>mfile := Some ((case mfile m of None \<Rightarrow> [] | Some c \<Rightarrow> c) @ ser e @ [NL]),
       mstate := apply_entry e (mstate m),
       entry_count := entry_count m + 1\<rparr>"

text \<open>The entries of a snapshot; \<open>order\<close> is the order in which the hash map of tables is iterated.\<close>

definition snapshot_entries :: "nat list \<Rightarrow> ManifestState \<Rightarrow> ManifestEntry list" where
  "snapshot_entries order st =
     List.map_filter (\<lambda>i. map_option (\<lambda>info. Flush (last_flushed_seq st) info
         (case map_of (block_infos st) i of Some b \<Rightarrow> b | None \<Rightarrow> [])) (map_of (sstables st) i)) order
     @ [Checkpoint (last_flushed_seq st)]"

definition snapshot :: "(ManifestEntry \<Rightarrow> string) \<Rightarrow> nat list \<Rightarrow> Manifest \<Rightarrow> Manifest" where
  "snapshot ser order m =
     m\<lparr>mfile := Some (concat (map (\<lambda>e. ser e @ [NL]) (snapshot_entries order (mstate m)))),
       entry_count := length (sstables (mstate m)) + 1\<rparr>"

definition maybe_snapshot :: "(ManifestEntry \<Rightarrow> string) \<Rightarrow> nat list \<Rightarrow> Manifest \<Rightarrow> Manifest" where
  "maybe_snapshot ser order m =
     (if entry_count m \<le> SNAPSHOT_THRESHOLD then m else snapshot ser order m)"

definition next_sst_id :: "Manifest \<Rightarrow> nat" where
  "next_sst_id m = foldr max (map fst (sstables (mstate m))) 0 + 1"

section \<open>State invariant\<close>

text \<open>What the state means, independently of list and hash-map order.\<close>

definition st_eq :: "ManifestState \<Rightarrow> ManifestState \<Rightarrow> bool" where
  "st_eq a b \<longleftrightarrow>
     last_flushed_seq a = last_flushed_seq b \<and> map_of (sstables a) = map_of (sstables b)
     \<and> map_of (block_infos a) = map_of (block_infos b) \<and> set (active_sst_ids a) = set (active_sst_ids b)"

definition st_ok :: "ManifestState \<Rightarrow> bool" where
  "st_ok st \<longleftrightarrow>
     dom (map_of (block_infos st)) = dom (map_of (sstables st))
     \<and> set (active_sst_ids st) = dom (map_of (sstables st))
     \<and> (\<forall>i info. map_of (sstables st) i = Some info \<longrightarrow> sst_id info = i)"

text \<open>A compaction brings the blocks of exactly the tables it adds.\<close>

fun entry_ok :: "ManifestEntry \<Rightarrow> bool" where
  "entry_ok (Compaction removed added blocks) \<longleftrightarrow> fst ` set blocks = sst_id ` set added"
| "entry_ok _ \<longleftrightarrow> True"

lemma set_activate [simp]: "set (activate i ids) = insert i (set ids)"
  by (auto simp: activate_def)

lemma add_sst_simps [simp]:
  "map_of (sstables (add_sst info st)) = (map_of (sstables st))(sst_id info \<mapsto> info)"
  "block_infos (add_sst info st) = block_infos st"
  "set (active_sst_ids (add_sst info st)) = insert (sst_id info) (set (active_sst_ids st))"
  "last_flushed_seq (add_sst info st) = last_flushed_seq st"
  by (simp_all add: add_sst_def update_conv')

lemma set_blocks_simps [simp]:
  "sstables (set_blocks p st) = sstables st" "active_sst_ids (set_blocks p st) = active_sst_ids st"
  "map_of (block_infos (set_blocks p st)) = (map_of (block_infos st))(fst p \<mapsto> snd p)"
  "last_flushed_seq (set_blocks p st) = last_flushed_seq st"
  by (simp_all add: set_blocks_def update_conv')

lemma remove_sst_simps [simp]:
  "map_of (sstables (remove_sst i st)) = (map_of (sstables st))(i := None)"
  "map_of (block_infos (remove_sst i st)) = (map_of (block_infos st))(i := None)"
  "set (active_sst_ids (remove_sst i st)) = set (active_sst_ids st) - {i}"
  "last_flushed_seq (remove_sst i st) = last_flushed_seq st"
  by (auto simp: remove_sst_def delete_conv')

lemma fold_st_eq:
  "(\<And>x a b. st_eq a b \<Longrightarrow> st_eq (f x a) (f x b)) \<Longrightarrow> st_eq a b \<Longrightarrow> st_eq (fold f xs a) (fold f xs b)"
  by (induction xs arbitrary: a b) auto

lemma apply_entry_cong: "st_eq a b \<Longrightarrow> st_eq (apply_entry e a) (apply_entry e b)"
proof (induction e a rule: apply_entry.induct)
  case (4 removed added blocks a)
  have 1: "st_eq (fold remove_sst removed a) (fold remove_sst removed b)"
    by (rule fold_st_eq [OF _ 4]) (simp add: st_eq_def)
  have 2: "st_eq (fold add_sst added (fold remove_sst removed a)) (fold add_sst added (fold remove_sst removed b))"
    by (rule fold_st_eq [OF _ 1]) (simp add: st_eq_def)
  show ?case
    unfolding apply_entry.simps by (rule fold_st_eq [OF _ 2]) (simp add: st_eq_def)
qed (auto simp: st_eq_def update_conv' split: option.split)

lemma fold_apply_cong: "st_eq a b \<Longrightarrow> st_eq (fold apply_entry es a) (fold apply_entry es b)"
  by (rule fold_st_eq [OF apply_entry_cong])

text \<open>The middle states of a compaction, where added tables still wait for their blocks.\<close>

lemma compaction_maps:
  "st_ok st \<Longrightarrow> st_ok (fold remove_sst removed st)"
  "dom (map_of (sstables (fold add_sst added st))) = dom (map_of (sstables st)) \<union> sst_id ` set added"
  "block_infos (fold add_sst added st) = block_infos st"
  "set (active_sst_ids (fold add_sst added st)) = set (active_sst_ids st) \<union> sst_id ` set added"
  "(\<forall>i info. map_of (sstables st) i = Some info \<longrightarrow> sst_id info = i) \<Longrightarrow>
   (\<forall>i info. map_of (sstables (fold add_sst added st)) i = Some info \<longrightarrow> sst_id info = i)"
  "sstables (fold set_blocks blocks st) = sstables st"
  "active_sst_ids (fold set_blocks blocks st) = active_sst_ids st"
  "dom (map_of (block_infos (fold set_blocks blocks st))) = dom (map_of (block_infos st)) \<union> fst ` set blocks"
proof -
  show "st_ok st \<Longrightarrow> st_ok (fold remove_sst removed st)"
  proof (induction removed arbitrary: st)
    case (Cons i js)
    have "st_ok (remove_sst i st)" using Cons.prems by (auto simp: st_ok_def)
    then show ?case using Cons.IH by simp
  qed simp
  show "dom (map_of (sstables (fold add_sst added st))) = dom (map_of (sstables st)) \<union> sst_id ` set added"
    by (induction added arbitrary: st) auto
  show "block_infos (fold add_sst added st) = block_infos st"
    by (induction added arbitrary: st) auto
  show "set (active_sst_ids (fold add_sst added st)) = set (active_sst_ids st) \<union> sst_id ` set added"
    by (induction added arbitrary: st) auto
  show "(\<forall>i info. map_of (sstables st) i = Some info \<longrightarrow> sst_id info = i) \<Longrightarrow>
   (\<forall>i info. map_of (sstables (fold add_sst added st)) i = Some info \<longrightarrow> sst_id info = i)"
  proof (induction added arbitrary: st)
    case (Cons a as)
    have "\<forall>i info. map_of (sstables (add_sst a st)) i = Some info \<longrightarrow> sst_id info = i"
      using Cons.prems by simp
    from Cons.IH [OF this] show ?case by simp
  qed simp
  show "sstables (fold set_blocks blocks st) = sstables st"
    by (induction blocks arbitrary: st) auto
  show "active_sst_ids (fold set_blocks blocks st) = active_sst_ids st"
    by (induction blocks arbitrary: st) auto
  show "dom (map_of (block_infos (fold set_blocks blocks st))) = dom (map_of (block_infos st)) \<union> fst ` set blocks"
    by (induction blocks arbitrary: st) auto
qed

lemma apply_entry_ok: "entry_ok e \<Longrightarrow> st_ok st \<Longrightarrow> st_ok (apply_entry e st)"
proof (induction e st rule: apply_entry.induct)
  case (4 removed added blocks st)
  have r: "st_ok (fold remove_sst removed st)" using 4 by (intro compaction_maps(1))
  note m = compaction_maps(2-4) [of added "fold remove_sst removed st"]
    compaction_maps(6-8) [of blocks "fold add_sst added (fold remove_sst removed st)"]
  have "\<forall>i info. map_of (sstables (fold add_sst added (fold remove_sst removed st))) i = Some info \<longrightarrow> sst_id info = i"
    using r by (intro compaction_maps(5)) (simp add: st_ok_def)
  then show ?case using 4(1) r unfolding apply_entry.simps st_ok_def m by simp
next
  case (6 i b st)
  then show ?case
    by (auto simp: st_ok_def update_conv' split: option.split)
next
  case (1 s sst blocks st)
  then show ?case by (simp add: st_ok_def)
next
  case (2 i st)
  then show ?case by (simp add: st_ok_def)
next
  case (3 i st)
  then show ?case by (simp add: st_ok_def)
next
  case (5 s st)
  then show ?case by (simp add: st_ok_def)
qed

lemma st_ok_default [simp]: "st_ok ManifestState_default"
  by (simp add: st_ok_def ManifestState_default_def)

section \<open>Lines\<close>

definition json_ok :: "(ManifestEntry \<Rightarrow> string) \<Rightarrow> (string \<Rightarrow> ManifestEntry option) \<Rightarrow> bool" where
  "json_ok ser de \<longleftrightarrow>
     (\<forall>e. de (ser e) = Some e \<and> NL \<notin> set (ser e)
          \<and> (\<exists>s. ser e = CHR 0x7B # s @ [CHR 0x7D]))"

definition complete :: "string \<Rightarrow> bool" where
  "complete c \<longleftrightarrow> c = [] \<or> last c = NL"

lemma takeWhile_not_NL: "NL \<notin> set l \<Longrightarrow> takeWhile (\<lambda>c. c \<noteq> NL) (l @ NL # s) = l"
  by (induction l) auto

lemma dropWhile_not_NL: "NL \<notin> set l \<Longrightarrow> dropWhile (\<lambda>c. c \<noteq> NL) (l @ NL # s) = NL # s"
  by (induction l) auto

lemma text_lines_line: "NL \<notin> set l \<Longrightarrow> text_lines (l @ NL # s) = strip_cr l # text_lines s"
  by (subst text_lines.simps) (simp add: takeWhile_not_NL dropWhile_not_NL)

lemma text_lines_Nil [simp]: "text_lines [] = []"
  by (simp add: text_lines.simps)

lemma text_lines_last: "NL \<notin> set l \<Longrightarrow> l \<noteq> [] \<Longrightarrow> text_lines l = [l]"
  by (subst text_lines.simps) (auto simp: dropWhile_eq_Nil_conv)

lemma text_lines_append: "complete c \<Longrightarrow> text_lines (c @ d) = text_lines c @ text_lines d"
proof (induction c rule: text_lines.induct)
  case (1 c)
  show ?case
  proof (cases "c = []")
    case False
    with 1(2) have "NL \<in> set c" by (metis complete_def last_in_set)
    then obtain l r where c: "c = l @ NL # r" "NL \<notin> set l" using split_list_first by metis
    then have d: "dropWhile (\<lambda>c. c \<noteq> NL) c = NL # r" by (simp add: dropWhile_not_NL)
    have "complete r" using 1(2) c by (auto simp: complete_def split: if_splits)
    then have "text_lines (r @ d) = text_lines r @ text_lines d"
      using 1(1) [OF False refl] d by simp
    then show ?thesis using c by (simp add: text_lines_line)
  qed simp
qed

lemma trim_ser: "json_ok ser de \<Longrightarrow> trim (ser e) = ser e"
proof -
  assume "json_ok ser de"
  then obtain s where "ser e = CHR 0x7B # s @ [CHR 0x7D]" unfolding json_ok_def by blast
  then show ?thesis by (simp add: trim_def is_ws_def)
qed

lemma ser_line:
  assumes "json_ok ser de"
  shows "text_lines (ser e @ NL # s) = ser e # text_lines s"
    and "replay_line de (ser e) st = apply_entry e st"
proof -
  obtain s' where s': "ser e = CHR 0x7B # s' @ [CHR 0x7D]" and nl: "NL \<notin> set (ser e)" and de: "de (ser e) = Some e"
    using assms unfolding json_ok_def by blast
  have "strip_cr (ser e) = ser e" by (simp add: strip_cr_def s')
  with nl show "text_lines (ser e @ NL # s) = ser e # text_lines s" by (simp add: text_lines_line)
  show "replay_line de (ser e) st = apply_entry e st"
    using de by (simp add: replay_line_def trim_ser [OF assms] Let_def) (simp add: s')
qed

lemma replay_entries:
  assumes "json_ok ser de"
  shows "fold (replay_line de) (text_lines (concat (map (\<lambda>e. ser e @ [NL]) es))) st = fold apply_entry es st"
  by (induction es arbitrary: st) (simp_all add: ser_line [OF assms])

lemma complete_entries: "complete (concat (map (\<lambda>e. ser e @ [NL]) es))"
  by (induction es) (auto simp: complete_def)

section \<open>Snapshots\<close>

lemma snapshot_flushes:
  assumes "st_ok st" "distinct order" "set order \<subseteq> dom (map_of (sstables st))"
  defines "es \<equiv> List.map_filter (\<lambda>i. map_option (\<lambda>info. Flush (last_flushed_seq st) info
         (case map_of (block_infos st) i of Some b \<Rightarrow> b | None \<Rightarrow> [])) (map_of (sstables st) i))"
  defines "s \<equiv> \<lambda>order. fold apply_entry (es order) ManifestState_default"
  shows "map_of (sstables (s order)) = map_of (sstables st) |` set order
    \<and> map_of (block_infos (s order)) = map_of (block_infos st) |` set order
    \<and> set (active_sst_ids (s order)) = set order \<and> last_flushed_seq (s order) \<le> last_flushed_seq st"
  using assms(2,3)
proof (induction order rule: rev_induct)
  case Nil
  then show ?case by (simp add: s_def es_def ManifestState_default_def map_filter_simps)
next
  case (snoc i order)
  then obtain info where info: "map_of (sstables st) i = Some info" by auto
  then have id: "sst_id info = i" and "i \<in> dom (map_of (block_infos st))"
    using assms(1) by (auto simp: st_ok_def)
  then obtain b where b: "map_of (block_infos st) i = Some b" by auto
  have step: "s (order @ [i]) = apply_entry (Flush (last_flushed_seq st) info b) (s order)"
    by (simp add: s_def es_def map_filter_def info b)
  have upd: "(m |` set order)(i \<mapsto> y) = m |` insert i (set order)" if "m i = Some y" for m :: "nat \<rightharpoonup> 'x" and y
    using that by (auto simp: fun_eq_iff restrict_map_def)
  show ?case
    using snoc upd [of "map_of (sstables st)", OF info] upd [of "map_of (block_infos st)", OF b]
    by (simp add: step id)
qed

lemma snapshot_replay:
  assumes "st_ok st" "distinct order" "set order = dom (map_of (sstables st))"
  shows "st_eq (fold apply_entry (snapshot_entries order st) ManifestState_default) st"
proof -
  have d: "m |` dom m = m" for m :: "nat \<rightharpoonup> 'x" by (auto simp: fun_eq_iff restrict_map_def domIff)
  have "dom (map_of (block_infos st)) = set order" using assms by (simp add: st_ok_def)
  then show ?thesis
    using snapshot_flushes [OF assms(1,2)] assms d [of "map_of (sstables st)"] d [of "map_of (block_infos st)"]
    by (simp add: snapshot_entries_def st_eq_def st_ok_def max_absorb2)
qed

section \<open>Recovery\<close>

text \<open>A manifest of a running engine: opened on an empty directory, then entries appended, snapshots taken
  in whatever order the hash map yields its keys, and restarts.\<close>

inductive m_reach :: "(ManifestEntry \<Rightarrow> string) \<Rightarrow> (string \<Rightarrow> ManifestEntry option) \<Rightarrow> Manifest \<Rightarrow> bool"
  for ser de where
  m_new: "m_reach ser de (Manifest_open de None)"
| m_append: "m_reach ser de m \<Longrightarrow> entry_ok e \<Longrightarrow> m_reach ser de (manifest_append ser e m)"
| m_snapshot: "m_reach ser de m \<Longrightarrow> distinct order \<Longrightarrow> set order = dom (map_of (sstables (mstate m))) \<Longrightarrow>
    m_reach ser de (maybe_snapshot ser order m)"
| m_reopen: "m_reach ser de m \<Longrightarrow> m_reach ser de (Manifest_open de (mfile m))"

definition m_inv :: "(string \<Rightarrow> ManifestEntry option) \<Rightarrow> Manifest \<Rightarrow> bool" where
  "m_inv de m \<longleftrightarrow>
     (case mfile m of None \<Rightarrow> True | Some c \<Rightarrow> complete c)
     \<and> st_eq (mstate (Manifest_open de (mfile m))) (mstate m) \<and> st_ok (mstate m)"

lemma st_eq_refl [simp]: "st_eq a a"
  by (simp add: st_eq_def)

lemma st_eq_trans: "st_eq a b \<Longrightarrow> st_eq b c \<Longrightarrow> st_eq a c"
  by (simp add: st_eq_def)

lemma st_ok_cong: "st_eq a b \<Longrightarrow> st_ok b \<Longrightarrow> st_ok a"
  by (simp add: st_eq_def st_ok_def)

lemma manifest_reopen_append:
  assumes "json_ok ser de" "case mfile m of None \<Rightarrow> True | Some c \<Rightarrow> complete c"
  shows "mstate (Manifest_open de (mfile (manifest_append ser e m))) = apply_entry e (mstate (Manifest_open de (mfile m)))"
proof -
  define c where "c = (case mfile m of None \<Rightarrow> [] | Some c \<Rightarrow> c)"
  have c: "complete c" using assms(2) by (auto simp: c_def complete_def split: option.splits)
  have o: "mstate (Manifest_open de (mfile m)) = fold (replay_line de) (text_lines c) ManifestState_default"
    by (simp add: Manifest_open_def c_def split: option.split)
  show ?thesis
    unfolding o using text_lines_append [OF c] ser_line [OF assms(1)]
    by (simp add: manifest_append_def Manifest_open_def c_def [symmetric])
qed

lemma m_inv_append:
  assumes "json_ok ser de" "m_inv de m" "entry_ok e"
  shows "m_inv de (manifest_append ser e m)"
  using assms manifest_reopen_append [OF assms(1), of m e] apply_entry_cong apply_entry_ok
  by (auto simp: m_inv_def manifest_append_def complete_def)

lemma m_inv_snapshot:
  assumes "json_ok ser de" "m_inv de m" "distinct order" "set order = dom (map_of (sstables (mstate m)))"
  shows "m_inv de (snapshot ser order m)"
  using assms snapshot_replay [OF _ assms(3,4)]
  by (simp add: m_inv_def snapshot_def Manifest_open_def replay_entries [OF assms(1)] complete_entries)

lemma m_reach_inv:
  assumes "json_ok ser de" "m_reach ser de m"
  shows "m_inv de m"
  using assms(2)
proof (induction rule: m_reach.induct)
  case m_new
  then show ?case by (simp add: m_inv_def Manifest_open_def)
next
  case (m_append m e)
  then show ?case by (intro m_inv_append [OF assms(1)])
next
  case (m_snapshot m order)
  then show ?case using m_inv_snapshot [OF assms(1)] by (simp add: maybe_snapshot_def)
next
  case (m_reopen m)
  have "mfile (Manifest_open de (mfile m)) = mfile m" by (simp add: Manifest_open_def)
  with m_reopen show ?case
    using st_ok_cong [of "mstate (Manifest_open de (mfile m))" "mstate m"] by (simp add: m_inv_def)
qed

text \<open>A printer and parser that satisfy \<open>json_ok\<close>, to show that the hypothesis can hold: an entry is printed
  as a brace-enclosed numeral in unary.\<close>

instance word :: (len) countable
  by (rule countable_classI [of unat]) (rule unsigned_word_eqI)

instance BloomFilter_ext :: (countable) countable
  by (rule countable_classI [of "\<lambda>r. to_nat (bits r, num_hashes r, hash_version r, BloomFilter.more r)"])
    (simp add: BloomFilter.equality)

instance SstInfo_ext :: (countable) countable
  by (rule countable_classI [of "\<lambda>r. to_nat (sst_id r, sst_records r, sst_bytes r, sst_min_ts r, sst_max_ts r,
      sst_min_expire r, sst_max_expire r, sst_bloom r, SstInfo.more r)"])
    (simp add: SstInfo.equality)

instance BlockInfo_ext :: (countable) countable
  by (rule countable_classI [of "\<lambda>r. to_nat (block_idx r, min_key r, max_key r, blk_min_ts r, blk_max_ts r,
      blk_min_expire r, blk_max_expire r, BlockInfo.more r)"])
    (simp add: BlockInfo.equality)

instance ManifestEntry :: countable
  by countable_datatype

definition unary_ser :: "ManifestEntry \<Rightarrow> string" where
  "unary_ser e = CHR 0x7B # replicate (to_nat e) CHR 0x31 @ [CHR 0x7D]"

definition unary_de :: "string \<Rightarrow> ManifestEntry option" where
  "unary_de s = (let e = from_nat (length s - 2) in if unary_ser e = s then Some e else None)"

lemma json_ok_unary: "json_ok unary_ser unary_de"
  by (auto simp: json_ok_def unary_ser_def unary_de_def NL_def Let_def)

text \<open>C10. The manifest survives restarts: in any history of appends, snapshots (in any hash-map order) and
  reopenings, reading the file back yields the state in memory: the same tables, blocks, live set
  and flushed sequence number.\<close>

theorem manifest_recovery:
  assumes "json_ok ser de" and "m_reach ser de m"
  shows "st_eq (mstate (Manifest_open de (mfile m))) (mstate m)"
  using m_reach_inv [OF assms] by (simp add: m_inv_def)

theorem manifest_recovery_witness:
  "st_eq (mstate (Manifest_open unary_de (mfile (manifest_append unary_ser (Checkpoint 7) (Manifest_open unary_de None)))))
     (ManifestState_default\<lparr>last_flushed_seq := 7\<rparr>)"
proof -
  let ?m = "manifest_append unary_ser (Checkpoint 7) (Manifest_open unary_de None)"
  have "m_reach unary_ser unary_de ?m" by (intro m_reach.intros) simp
  from manifest_recovery [OF json_ok_unary this] show ?thesis
    by (simp add: manifest_append_def Manifest_open_def ManifestState_default_def)
qed

text \<open>The manifest's invariant: the live ids are exactly the tables it knows, every table has its block
  list and is filed under its own id, and the id handed out for the next table is not in use.\<close>

theorem manifest_invariant:
  assumes "json_ok ser de" and "m_reach ser de m"
  shows "set (active_sst_ids (mstate m)) = fst ` set (sstables (mstate m))
    \<and> fst ` set (block_infos (mstate m)) = fst ` set (sstables (mstate m))
    \<and> (\<forall>i info. map_of (sstables (mstate m)) i = Some info \<longrightarrow> sst_id info = i)
    \<and> (\<forall>i\<in>fst ` set (sstables (mstate m)). i < next_sst_id m)"
proof -
  have "st_ok (mstate m)" using m_reach_inv [OF assms] by (simp add: m_inv_def)
  moreover have "x \<in> set xs \<Longrightarrow> x \<le> foldr max xs (0 :: nat)" for x xs
    by (induction xs) auto
  then have "\<forall>i\<in>fst ` set (sstables (mstate m)). i < next_sst_id m"
    by (auto simp: next_sst_id_def less_Suc_eq_le)
  ultimately show ?thesis by (simp add: st_ok_def dom_map_of_conv_image_fst)
qed

theorem manifest_invariant_witness:
  "next_sst_id (manifest_append unary_ser (DeleteSst 3) (Manifest_open unary_de None)) = 1
   \<and> active_sst_ids (mstate (manifest_append unary_ser (DeleteSst 3) (Manifest_open unary_de None))) = []"
proof -
  let ?m = "manifest_append unary_ser (DeleteSst 3) (Manifest_open unary_de None)"
  have "m_reach unary_ser unary_de ?m" by (intro m_reach.intros) simp
  from manifest_invariant [OF json_ok_unary this] show ?thesis
    by (simp add: manifest_append_def Manifest_open_def ManifestState_default_def remove_sst_def next_sst_id_def)
qed

text \<open>A torn last line swallows the next entry: if a crash leaves a partial line, the entry appended after
  the restart lands on the same line, and where the glued line does not parse, the entry is gone at the
  following restart although the append succeeded.\<close>

theorem manifest_torn_line:
  assumes "json_ok ser de" and "complete c" and "NL \<notin> set t"
    and "de (trim (t @ ser e)) = None"
  shows "mstate (Manifest_open de (mfile (manifest_append ser e (Manifest_open de (Some (c @ t))))))
    = mstate (Manifest_open de (Some c))"
proof -
  obtain s' where s': "ser e = CHR 0x7B # s' @ [CHR 0x7D]" and nl: "NL \<notin> set (ser e)"
    using assms(1) unfolding json_ok_def by blast
  have "strip_cr (t @ ser e) = t @ ser e" by (simp add: strip_cr_def s')
  then have "text_lines (c @ t @ ser e @ [NL]) = text_lines c @ [t @ ser e]"
    using text_lines_append [OF assms(2), of "t @ ser e @ [NL]"] text_lines_line [of "t @ ser e" "[]"] nl assms(3)
    by simp
  moreover have "replay_line de (t @ ser e) st = st" for st
    using assms(4) by (simp add: replay_line_def Let_def)
  ultimately show ?thesis
    by (simp add: manifest_append_def Manifest_open_def)
qed

theorem manifest_torn_line_witness:
  "mstate (Manifest_open unary_de (mfile (manifest_append unary_ser (Checkpoint 7)
     (Manifest_open unary_de (Some [CHR 0x7B]))))) = ManifestState_default"
proof -
  have ws: "trim s = s" if "s = CHR 0x7B # x @ [CHR 0x7D]" for s x
    using that by (simp add: trim_def is_ws_def)
  have "trim ([CHR 0x7B] @ unary_ser (Checkpoint 7)) = [CHR 0x7B] @ unary_ser (Checkpoint 7)"
    by (rule ws [where x = "CHR 0x7B # replicate (to_nat (Checkpoint 7)) CHR 0x31"]) (simp add: unary_ser_def)
  moreover have "unary_ser e \<noteq> CHR 0x7B # CHR 0x7B # s" for e s
    by (cases "to_nat e") (auto simp: unary_ser_def)
  ultimately have "unary_de (trim ([CHR 0x7B] @ unary_ser (Checkpoint 7))) = None"
    by (auto simp: unary_de_def Let_def unary_ser_def [of "Checkpoint 7"] split: if_splits)
  then show ?thesis
    using manifest_torn_line [OF json_ok_unary, of "[]" "[CHR 0x7B]" "Checkpoint 7"]
    by (simp add: complete_def NL_def Manifest_open_def)
qed

end
