(* ===== verification/Sstable.thy ===== *)
theory Sstable
  imports Codec Manifest
begin

text \<open>
  \<^verbatim>\<open>src/sstable.rs\<close>: sorted tables on disk.  A file is a sequence of blocks, each a 48-byte header
  and an LZ4-compressed run of records.  \<^verbatim>\<open>lz4_flex\<close> is not part of the repository: the
  compressor and decompressor are parameters, and \<open>lz4_ok\<close> is the round trip the code relies on.
  Shown: what the writer writes the reader reads back, block by block, with the sequence numbers
  dropped; the streaming writer produces the same file as the batch writer; and the metadata handed
  to the manifest is sound for every record of its block.
\<close>

section \<open>Block header\<close>

definition BLOCK_MAGIC_LZ4 :: nat where
  "BLOCK_MAGIC_LZ4 = 0x54534E42"

definition HEADER_SIZE :: nat where
  "HEADER_SIZE = 48"

record BlockHeader =
  num_records :: nat
  hdr_min_ts :: int
  hdr_max_ts :: int
  hdr_min_expire :: int
  hdr_max_expire :: int
  data_len :: nat
  compressed_len :: nat

definition header_to_bytes :: "BlockHeader \<Rightarrow> bytes" where
  "header_to_bytes h =
     be_bytes 4 BLOCK_MAGIC_LZ4 @ be_bytes 4 (num_records h) @ be_i64 (hdr_min_ts h) @ be_i64 (hdr_max_ts h)
     @ be_i64 (hdr_min_expire h) @ be_i64 (hdr_max_expire h)
     @ be_bytes 4 (data_len h) @ be_bytes 4 (compressed_len h)"

definition header_from_bytes :: "bytes \<Rightarrow> BlockHeader result" where
  "header_from_bytes data =
     (if length data < HEADER_SIZE then Inl (Corruption ''sst'' ''block header too short'')
      else let magic = be_val (slice data 0 4)
      in if magic \<noteq> BLOCK_MAGIC_LZ4 then Inl (InvalidMagic BLOCK_MAGIC_LZ4 magic)
      else Inr \<lparr>num_records = be_val (slice data 4 4), hdr_min_ts = val_i64 (slice data 8 8),
                hdr_max_ts = val_i64 (slice data 16 8), hdr_min_expire = val_i64 (slice data 24 8),
                hdr_max_expire = val_i64 (slice data 32 8), data_len = be_val (slice data 40 4),
                compressed_len = be_val (slice data 44 4)\<rparr>)"

section \<open>Record format\<close>

text \<open>The body of the loop of \<^verbatim>\<open>encode_records\<close>.\<close>

definition encode_sst_record :: "InternalRecord \<Rightarrow> bytes" where
  "encode_sst_record r =
     be_bytes 2 (length (key r)) @ key r @ be_i64 (ts r) @ be_i64 (expire_at r) @ [to_u8 (rop r)]
     @ (case range_end r of Some re \<Rightarrow> be_bytes 2 (length re) @ re | None \<Rightarrow> be_bytes 2 0)
     @ be_bytes 4 (length (val r)) @ val r"

definition encode_records :: "InternalRecord list \<Rightarrow> bytes" where
  "encode_records rs = concat (map encode_sst_record rs)"

text \<open>The body of the loop of \<^verbatim>\<open>decode_records\<close>; \<open>None\<close> is its \<^verbatim>\<open>break\<close>.\<close>

definition decode_sst_record :: "bytes \<Rightarrow> (InternalRecord \<times> nat) option" where
  "decode_sst_record data =
     (if 2 > length data then None
      else let key_len = be_val (slice data 0 2); pos = 2
      in if pos + key_len > length data then None
      else let k = slice data pos key_len; pos = pos + key_len
      in if pos + 17 > length data then None
      else let t = val_i64 (slice data pos 8);
               e = val_i64 (slice data (pos + 8) 8);
               p = from_u8 (data ! (pos + 16));
               pos = pos + 17
      in if pos + 2 > length data then None
      else let re_len = be_val (slice data pos 2); pos = pos + 2
      in if 0 < re_len \<and> pos + re_len > length data then None
      else let re = (if 0 < re_len then Some (slice data pos re_len) else None); pos = pos + re_len
      in if pos + 4 > length data then None
      else let val_len = be_val (slice data pos 4); pos = pos + 4
      in if pos + val_len > length data then None
      else let v = slice data pos val_len; pos = pos + val_len
      in Some (\<lparr>seq = 0, rop = p, key = k, ts = t, expire_at = e, val = v, range_end = re\<rparr>, pos))"

definition decode_records :: "bytes \<Rightarrow> nat \<Rightarrow> InternalRecord list" where
  "decode_records data cnt = decode_loop decode_sst_record cnt data"

section \<open>Writers\<close>

definition min_or0 :: "int list \<Rightarrow> int" where
  "min_or0 xs = (case xs of [] \<Rightarrow> 0 | y # ys \<Rightarrow> foldl min y ys)"

definition max_or0 :: "int list \<Rightarrow> int" where
  "max_or0 xs = (case xs of [] \<Rightarrow> 0 | y # ys \<Rightarrow> foldl max y ys)"

text \<open>The header and metadata of one block; both writers compute them with the same statements.\<close>

definition block_header :: "(bytes \<Rightarrow> bytes) \<Rightarrow> InternalRecord list \<Rightarrow> BlockHeader" where
  "block_header compress chunk =
     \<lparr>num_records = length chunk, hdr_min_ts = min_or0 (map ts chunk), hdr_max_ts = max_or0 (map ts chunk),
      hdr_min_expire = min_or0 (map expire_at chunk), hdr_max_expire = max_or0 (map expire_at chunk),
      data_len = length (encode_records chunk),
      compressed_len = length (compress (encode_records chunk))\<rparr>"

definition block_bytes :: "(bytes \<Rightarrow> bytes) \<Rightarrow> InternalRecord list \<Rightarrow> bytes" where
  "block_bytes compress chunk =
     header_to_bytes (block_header compress chunk) @ compress (encode_records chunk)"

definition block_info :: "nat \<Rightarrow> InternalRecord list \<Rightarrow> BlockInfo" where
  "block_info idx chunk =
     \<lparr>block_idx = idx,
      min_key = (case chunk of [] \<Rightarrow> [] | r # _ \<Rightarrow> key r),
      max_key = (if chunk = [] then [] else key (last chunk)),
      blk_min_ts = min_or0 (map ts chunk), blk_max_ts = max_or0 (map ts chunk),
      blk_min_expire = min_or0 (map expire_at chunk), blk_max_expire = max_or0 (map expire_at chunk)\<rparr>"

fun unique_keys :: "bytes option \<Rightarrow> InternalRecord list \<Rightarrow> bytes list" where
  "unique_keys last_key [] = []"
| "unique_keys last_key (r # rs) =
     (if last_key \<noteq> Some (key r) then key r # unique_keys (Some (key r)) rs
      else unique_keys last_key rs)"

fun write_blocks :: "(bytes \<Rightarrow> bytes) \<Rightarrow> InternalRecord list list \<Rightarrow> bytes \<times> nat \<times> BlockInfo list
    \<Rightarrow> bytes \<times> nat \<times> BlockInfo list" where
  "write_blocks compress [] acc = acc"
| "write_blocks compress (chunk # cs) (file, tot, infos) =
     write_blocks compress cs
       (file @ block_bytes compress chunk,
        tot + (HEADER_SIZE + length (compress (encode_records chunk))),
        infos @ [block_info (length infos) chunk])"

definition sst_write :: "(bytes \<Rightarrow> bytes) \<Rightarrow> InternalRecord list \<Rightarrow> nat \<Rightarrow> nat
    \<Rightarrow> bytes \<times> nat \<times> BlockInfo list \<times> BloomFilter" where
  "sst_write compress rs blk_size bits_per_key =
     (let bloom = from_keys_with_bits (unique_keys None rs) bits_per_key;
          (file, tot, infos) = write_blocks compress (chunks (max blk_size 1) rs) ([], 0, [])
      in (file, tot, infos, bloom))"

record SstStreamWriter =
  sw_file :: bytes
  sw_block_size :: nat
  sw_bloom :: BloomFilter
  current_block :: "InternalRecord list"
  sw_block_infos :: "BlockInfo list"
  total_bytes :: nat

definition StreamWriter_new :: "nat \<Rightarrow> nat \<Rightarrow> nat \<Rightarrow> SstStreamWriter" where
  "StreamWriter_new blk_size estimated_keys bits_per_key =
     \<lparr>sw_file = [], sw_block_size = blk_size, sw_bloom = with_bits_per_key (max estimated_keys 1) bits_per_key,
      current_block = [], sw_block_infos = [], total_bytes = 0\<rparr>"

definition flush_block :: "(bytes \<Rightarrow> bytes) \<Rightarrow> SstStreamWriter \<Rightarrow> SstStreamWriter" where
  "flush_block compress w =
     (if current_block w = [] then w
      else w\<lparr>sw_file := sw_file w @ block_bytes compress (current_block w),
             total_bytes := total_bytes w + (HEADER_SIZE + length (compress (encode_records (current_block w)))),
             sw_block_infos := sw_block_infos w @ [block_info (length (sw_block_infos w)) (current_block w)],
             current_block := []\<rparr>)"

definition write_record :: "(bytes \<Rightarrow> bytes) \<Rightarrow> InternalRecord \<Rightarrow> SstStreamWriter \<Rightarrow> SstStreamWriter" where
  "write_record compress r w =
     (let w = w\<lparr>sw_bloom := insert_bloom (sw_bloom w) (key r), current_block := current_block w @ [r]\<rparr>
      in if sw_block_size w \<le> length (current_block w) then flush_block compress w else w)"

definition finish :: "(bytes \<Rightarrow> bytes) \<Rightarrow> SstStreamWriter \<Rightarrow> bytes \<times> nat \<times> BlockInfo list \<times> BloomFilter" where
  "finish compress w =
     (let w = (if current_block w \<noteq> [] then flush_block compress w else w)
      in (sw_file w, total_bytes w, sw_block_infos w, sw_bloom w))"

section \<open>Reader\<close>

record SstReader =
  mmap :: bytes
  rd_sst_id :: nat
  block_offsets :: "nat list"

text \<open>The loop of \<^verbatim>\<open>SstReader::open\<close> over the block headers.\<close>

function scan_headers :: "bytes \<Rightarrow> nat \<Rightarrow> nat list \<Rightarrow> nat list result" where
  "scan_headers data pos offsets =
     (if pos + HEADER_SIZE \<le> length data
      then case header_from_bytes (slice data pos HEADER_SIZE) of
             Inl e \<Rightarrow> Inl e
           | Inr h \<Rightarrow> scan_headers data (pos + (HEADER_SIZE + compressed_len h)) (offsets @ [pos])
      else Inr offsets)"
  by pat_completeness auto
termination
  by (relation "measure (\<lambda>(data, pos, offsets). length data - pos)") (auto simp: HEADER_SIZE_def)

declare scan_headers.simps [simp del]

definition SstReader_open :: "bytes \<Rightarrow> nat \<Rightarrow> SstReader result" where
  "SstReader_open file sid =
     (case scan_headers file 0 [] of
        Inl e \<Rightarrow> Inl e
      | Inr offsets \<Rightarrow> Inr \<lparr>mmap = file, rd_sst_id = sid, block_offsets = offsets\<rparr>)"

definition decompress_block :: "(bytes \<Rightarrow> nat \<Rightarrow> string + bytes) \<Rightarrow> bytes \<Rightarrow> BlockHeader \<Rightarrow> bytes result" where
  "decompress_block decompress data h =
     (case decompress data (data_len h) of
        Inl e \<Rightarrow> Inl (Other (''lz4 decompress: '' @ e))
      | Inr raw \<Rightarrow> Inr raw)"

definition read_block_decompress :: "(bytes \<Rightarrow> nat \<Rightarrow> string + bytes) \<Rightarrow> SstReader \<Rightarrow> nat
    \<Rightarrow> (BlockHeader \<times> InternalRecord list) result" where
  "read_block_decompress decompress rd idx =
     (if length (block_offsets rd) \<le> idx then Inl (BlockNotFound (rd_sst_id rd) idx)
      else let data = mmap rd; pos = block_offsets rd ! idx
      in if pos + HEADER_SIZE > length data then
           Inl (Corruption (''sst_'' @ show_nat (rd_sst_id rd)) (''block '' @ show_nat idx @ '' out of bounds''))
      else case header_from_bytes (slice data pos HEADER_SIZE) of
        Inl e \<Rightarrow> Inl e
      | Inr h \<Rightarrow>
          let compressed_start = pos + HEADER_SIZE; compressed_end = compressed_start + compressed_len h
          in if compressed_end > length data then
               Inl (Corruption (''sst_'' @ show_nat (rd_sst_id rd))
                 (''block '' @ show_nat idx @ '' compressed data truncated''))
             else case decompress_block decompress (slice data compressed_start (compressed_len h)) h of
               Inl e \<Rightarrow> Inl e
             | Inr raw \<Rightarrow> Inr (h, decode_records raw (num_records h)))"

text \<open>\<^verbatim>\<open>read_block_inner\<close> has the same statements and returns the records only.\<close>

definition read_block_inner :: "(bytes \<Rightarrow> nat \<Rightarrow> string + bytes) \<Rightarrow> SstReader \<Rightarrow> nat
    \<Rightarrow> InternalRecord list result" where
  "read_block_inner decompress rd idx =
     (case read_block_decompress decompress rd idx of Inl e \<Rightarrow> Inl e | Inr (_, rs) \<Rightarrow> Inr rs)"

definition block_count :: "SstReader \<Rightarrow> nat" where
  "block_count rd = length (block_offsets rd)"

section \<open>Record round trip\<close>

definition sst_rec_ok :: "InternalRecord \<Rightarrow> bool" where
  "sst_rec_ok r \<longleftrightarrow>
     length (key r) < 2 ^ 16 \<and> i64 (ts r) \<and> i64 (expire_at r) \<and> length (val r) < 2 ^ 32
     \<and> (case range_end r of None \<Rightarrow> True | Some re \<Rightarrow> re \<noteq> [] \<and> length re < 2 ^ 16)"

definition forget_seq :: "InternalRecord \<Rightarrow> InternalRecord" where
  "forget_seq r = r\<lparr>seq := 0\<rparr>"

lemma encode_sst_record_range:
  "encode_sst_record r = be_bytes 2 (length (key r)) @ key r @ be_i64 (ts r) @ be_i64 (expire_at r)
     @ to_u8 (rop r) # be_bytes 2 (length (range_bytes r)) @ range_bytes r
     @ be_bytes 4 (length (val r)) @ val r"
  by (simp add: encode_sst_record_def range_bytes_def split: option.splits)

lemma decode_sst_closed:
  assumes "be_val (slice data 0 2) = kl" "be_val (slice data (19 + kl) 2) = rl"
    "be_val (slice data (21 + kl + rl) 4) = vl"
  shows "decode_sst_record data =
    (if 2 \<le> length data \<and> 21 + kl \<le> length data \<and> 25 + kl + rl \<le> length data
        \<and> 25 + kl + rl + vl \<le> length data
     then Some (\<lparr>seq = 0, rop = from_u8 (data ! (18 + kl)), key = slice data 2 kl,
                 ts = val_i64 (slice data (2 + kl) 8), expire_at = val_i64 (slice data (10 + kl) 8),
                 val = slice data (25 + kl + rl) vl,
                 range_end = (if 0 < rl then Some (slice data (21 + kl) rl) else None)\<rparr>,
                25 + kl + rl + vl)
     else None)"
  using assms by (cases "rl = 0") (simp_all add: decode_sst_record_def Let_def add.assoc not_less)

lemma decode_sst_bound: "decode_sst_record data = Some (r, used) \<Longrightarrow> 0 < used \<and> used \<le> length data"
  by (auto simp: decode_sst_closed [OF refl refl refl] split: if_split_asm)

lemma decode_sst_extend:
  assumes "decode_sst_record data = Some (r, used)"
  shows "decode_sst_record (data @ x) = Some (r, used)"
proof -
  define kl where "kl = be_val (slice data 0 2)"
  define rl where "rl = be_val (slice data (19 + kl) 2)"
  define vl where "vl = be_val (slice data (21 + kl + rl) 4)"
  note d = decode_sst_closed [OF kl_def [symmetric] rl_def [symmetric] vl_def [symmetric]]
  have c: "2 \<le> length data" "21 + kl \<le> length data" "25 + kl + rl \<le> length data"
    "25 + kl + rl + vl \<le> length data"
    using assms unfolding d by (simp_all split: if_split_asm)
  have k: "be_val (slice (data @ x) 0 2) = kl" "be_val (slice (data @ x) (19 + kl) 2) = rl"
    "be_val (slice (data @ x) (21 + kl + rl) 4) = vl"
    using c by (simp_all add: slice_append1 kl_def rl_def vl_def)
  show ?thesis
    using assms c unfolding d decode_sst_closed [OF k] by (auto simp: slice_append1 nth_append)
qed

lemma decode_encode_sst:
  assumes "sst_rec_ok r"
  shows "decode_sst_record (encode_sst_record r @ rest) = Some (forget_seq r, length (encode_sst_record r))"
proof -
  define re where "re = range_bytes r"
  let ?kl = "length (key r)" and ?rl = "length re" and ?vl = "length (val r)"
  define data where "data = encode_sst_record r @ rest"
  have small: "?kl < 256 ^ 2" "?vl < 256 ^ 4" "?rl < 256 ^ 2" and i: "i64 (ts r)" "i64 (expire_at r)"
    using assms by (auto simp: sst_rec_ok_def re_def range_bytes_def split: option.splits)
  have re: "(if 0 < ?rl then Some re else None) = range_end r"
    using assms by (auto simp: sst_rec_ok_def re_def range_bytes_def split: option.splits)
  have fields: "slice data 0 2 = be_bytes 2 ?kl" "slice data 2 ?kl = key r"
    "slice data (2 + ?kl) 8 = be_i64 (ts r)" "slice data (10 + ?kl) 8 = be_i64 (expire_at r)"
    "data ! (18 + ?kl) = to_u8 (rop r)" "slice data (19 + ?kl) 2 = be_bytes 2 ?rl"
    "slice data (21 + ?kl) ?rl = re" "slice data (21 + ?kl + ?rl) 4 = be_bytes 4 ?vl"
    "slice data (25 + ?kl + ?rl) ?vl = val r"
    by (simp_all add: data_def encode_sst_record_range re_def slice_simps)
  have len: "length (encode_sst_record r) = 25 + ?kl + ?rl + ?vl"
    by (simp add: encode_sst_record_range re_def)
  have k: "be_val (slice data 0 2) = ?kl" "be_val (slice data (19 + ?kl) 2) = ?rl"
    "be_val (slice data (21 + ?kl + ?rl) 4) = ?vl"
    unfolding fields using small by (simp_all del: power_numeral)
  show ?thesis
    unfolding data_def [symmetric] decode_sst_closed [OF k] fields re
    using i by (simp add: len data_def forget_seq_def)
qed

interpretation sst_codec: record_codec encode_sst_record decode_sst_record forget_seq sst_rec_ok
proof
  show "decode_sst_record (encode_sst_record r @ rest) = Some (forget_seq r, length (encode_sst_record r))"
    if "sst_rec_ok r" for r rest using that by (rule decode_encode_sst)
qed (auto dest: decode_sst_bound decode_sst_extend)

lemma decode_encode_records:
  "list_all sst_rec_ok rs \<Longrightarrow> decode_records (encode_records rs) (length rs) = map forget_seq rs"
  using sst_codec.decode_loop_exact [of rs "[]"] by (simp add: decode_records_def encode_records_def)

section \<open>Block metadata\<close>

lemma foldl_min_le: "foldl min y ys \<le> (y :: int) \<and> (\<forall>x\<in>set ys. foldl min y ys \<le> x) \<and> foldl min y ys \<in> insert y (set ys)"
proof (induction ys arbitrary: y)
  case (Cons x xs)
  from Cons.IH [of "min y x"] show ?case by (auto simp: min_def split: if_splits)
qed simp

lemma foldl_max_le: "(y :: int) \<le> foldl max y ys \<and> (\<forall>x\<in>set ys. x \<le> foldl max y ys) \<and> foldl max y ys \<in> insert y (set ys)"
proof (induction ys arbitrary: y)
  case (Cons x xs)
  from Cons.IH [of "max y x"] show ?case by (auto simp: max_def split: if_splits)
qed simp

lemma min_or0_le: "x \<in> set xs \<Longrightarrow> min_or0 xs \<le> x"
  using foldl_min_le by (cases xs) (auto simp: min_or0_def)

lemma max_or0_ge: "x \<in> set xs \<Longrightarrow> x \<le> max_or0 xs"
  using foldl_max_le by (cases xs) (auto simp: max_or0_def)

lemma min_max_or0_i64: "\<forall>x\<in>set xs. i64 x \<Longrightarrow> i64 (min_or0 xs) \<and> i64 (max_or0 xs)"
proof (cases xs)
  case Nil
  then show ?thesis by (simp add: min_or0_def max_or0_def i64_def i64_min_def i64_max_def)
next
  case (Cons y ys)
  assume "\<forall>x\<in>set xs. i64 x"
  then show ?thesis using Cons foldl_min_le [of y ys] foldl_max_le [of y ys] by (auto simp: min_or0_def max_or0_def)
qed

lemma set_unique_keys: "set (unique_keys lk rs) \<union> set_option lk = key ` set rs \<union> set_option lk"
proof (induction lk rs rule: unique_keys.induct)
  case (2 lk r rs)
  then show ?case by (cases "lk = Some (key r)") auto
qed simp

lemma unique_keys_set [simp]: "set (unique_keys None rs) = key ` set rs"
  using set_unique_keys [of None rs] by simp

text \<open>What the manifest records about a block bounds every record of the block.\<close>

definition info_covers :: "BlockInfo \<Rightarrow> InternalRecord \<Rightarrow> bool" where
  "info_covers b r \<longleftrightarrow>
     min_key b \<le> key r \<and> key r \<le> max_key b \<and> blk_min_ts b \<le> ts r \<and> ts r \<le> blk_max_ts b
     \<and> blk_min_expire b \<le> expire_at r \<and> expire_at r \<le> blk_max_expire b"

lemma sorted_first_last:
  fixes f :: "'a \<Rightarrow> 'b::linorder"
  assumes "sorted (map f c)" "r \<in> set c"
  shows "f (hd c) \<le> f r" "f r \<le> f (last c)"
proof -
  from assms(2) obtain a b where c: "c = a @ r # b" using split_list by metis
  with assms(1) show "f (hd c) \<le> f r" by (cases a) (auto simp: sorted_append)
  from c assms(1) show "f r \<le> f (last c)" by (cases b rule: rev_cases) (auto simp: sorted_append)
qed

lemma block_info_covers: "sorted (map key c) \<Longrightarrow> r \<in> set c \<Longrightarrow> info_covers (block_info i c) r"
  using sorted_first_last [of key c r]
  by (cases c) (auto simp: info_covers_def block_info_def intro: min_or0_le max_or0_ge)

lemma write_blocks_eq:
  "write_blocks compress cs (f, n, infos) =
     (f @ concat (map (block_bytes compress) cs),
      n + sum_list (map (\<lambda>c. HEADER_SIZE + length (compress (encode_records c))) cs),
      infos @ map (\<lambda>(i, c). block_info i c) (enumerate (length infos) cs))"
  by (induction cs arbitrary: f n infos) (simp_all add: ac_simps)

section \<open>File round trip\<close>

definition lz4_ok :: "(bytes \<Rightarrow> bytes) \<Rightarrow> (bytes \<Rightarrow> nat \<Rightarrow> string + bytes) \<Rightarrow> bool" where
  "lz4_ok compress decompress \<longleftrightarrow> (\<forall>d. decompress (compress d) (length d) = Inr d)"

definition chunk_ok :: "(bytes \<Rightarrow> bytes) \<Rightarrow> InternalRecord list \<Rightarrow> bool" where
  "chunk_ok compress c \<longleftrightarrow>
     list_all sst_rec_ok c \<and> length c < 2 ^ 32 \<and> length (encode_records c) < 2 ^ 32
     \<and> length (compress (encode_records c)) < 2 ^ 32"

lemma length_header [simp]: "length (header_to_bytes h) = 48"
  by (simp add: header_to_bytes_def)

lemma header_round_trip:
  assumes "num_records h < 2 ^ 32" "data_len h < 2 ^ 32" "compressed_len h < 2 ^ 32"
    and "i64 (hdr_min_ts h)" "i64 (hdr_max_ts h)" "i64 (hdr_min_expire h)" "i64 (hdr_max_expire h)"
  shows "header_from_bytes (header_to_bytes h) = Inr h"
proof -
  let ?d = "header_to_bytes h"
  have s: "slice ?d 0 4 = be_bytes 4 BLOCK_MAGIC_LZ4" "slice ?d 4 4 = be_bytes 4 (num_records h)"
    "slice ?d 8 8 = be_i64 (hdr_min_ts h)" "slice ?d 16 8 = be_i64 (hdr_max_ts h)"
    "slice ?d 24 8 = be_i64 (hdr_min_expire h)" "slice ?d 32 8 = be_i64 (hdr_max_expire h)"
    "slice ?d 40 4 = be_bytes 4 (data_len h)" "slice ?d 44 4 = be_bytes 4 (compressed_len h)"
    by (simp_all add: header_to_bytes_def slice_simps slice_here [where b = "[]", simplified])
  show ?thesis
    unfolding header_from_bytes_def s using assms
    by (simp add: HEADER_SIZE_def BLOCK_MAGIC_LZ4_def Let_def)
qed

lemma block_header_round_trip:
  assumes "chunk_ok compress c"
  shows "header_from_bytes (header_to_bytes (block_header compress c)) = Inr (block_header compress c)"
proof -
  have "\<forall>x\<in>set (map ts c). i64 x" "\<forall>x\<in>set (map expire_at c). i64 x"
    using assms by (auto simp: chunk_ok_def list_all_iff sst_rec_ok_def)
  then show ?thesis
    using assms min_max_or0_i64 by (intro header_round_trip) (auto simp: block_header_def chunk_ok_def)
qed

lemma length_block_bytes:
  "length (block_bytes compress c) = HEADER_SIZE + compressed_len (block_header compress c)"
  by (simp add: block_bytes_def block_header_def HEADER_SIZE_def)

lemma slice_block_header:
  "slice (pre @ block_bytes compress c @ post) (length pre) HEADER_SIZE = header_to_bytes (block_header compress c)"
  by (simp add: block_bytes_def slice_simps HEADER_SIZE_def)

fun offs :: "(bytes \<Rightarrow> bytes) \<Rightarrow> nat \<Rightarrow> InternalRecord list list \<Rightarrow> nat list" where
  "offs compress p [] = []"
| "offs compress p (c # cs) = p # offs compress (p + length (block_bytes compress c)) cs"

lemma length_offs [simp]: "length (offs compress p cs) = length cs"
  by (induction cs arbitrary: p) auto

lemma nth_offs:
  "i < length cs \<Longrightarrow> offs compress p cs ! i = p + length (concat (map (block_bytes compress) (take i cs)))"
proof (induction cs arbitrary: p i)
  case (Cons c cs)
  then show ?case by (cases i) auto
qed simp

lemma scan_headers_blocks:
  assumes "\<forall>c\<in>set cs. chunk_ok compress c"
  shows "scan_headers (pre @ concat (map (block_bytes compress) cs)) (length pre) os = Inr (os @ offs compress (length pre) cs)"
  using assms
proof (induction cs arbitrary: pre os)
  case Nil
  then show ?case by (simp add: scan_headers.simps HEADER_SIZE_def)
next
  case (Cons c cs)
  let ?data = "pre @ block_bytes compress c @ concat (map (block_bytes compress) cs)"
  have h: "header_from_bytes (slice ?data (length pre) HEADER_SIZE) = Inr (block_header compress c)"
    using Cons.prems by (simp add: slice_block_header block_header_round_trip)
  have "scan_headers ?data (length pre) os
      = scan_headers ?data (length pre + length (block_bytes compress c)) (os @ [length pre])"
    using h by (subst scan_headers.simps) (simp add: length_block_bytes)
  also have "\<dots> = Inr ((os @ [length pre]) @ offs compress (length pre + length (block_bytes compress c)) cs)"
    using Cons.IH [of "pre @ block_bytes compress c" "os @ [length pre]"] Cons.prems by simp
  finally show ?case by simp
qed

lemma read_block_at:
  assumes "lz4_ok compress decompress" "chunk_ok compress c"
    and "mmap rd = pre @ block_bytes compress c @ post" "idx < length (block_offsets rd)"
      "block_offsets rd ! idx = length pre"
  shows "read_block_decompress decompress rd idx = Inr (block_header compress c, map forget_seq c)"
proof -
  let ?h = "block_header compress c" and ?z = "compress (encode_records c)"
  have hd: "header_from_bytes (slice (mmap rd) (length pre) HEADER_SIZE) = Inr ?h"
    using assms(2) by (simp add: assms(3) slice_block_header block_header_round_trip)
  have z: "slice (mmap rd) (length pre + HEADER_SIZE) (compressed_len ?h) = ?z"
    by (simp add: assms(3) block_bytes_def slice_simps HEADER_SIZE_def) (simp add: block_header_def slice_simps)
  have len: "length (mmap rd) = length pre + HEADER_SIZE + compressed_len ?h + length post"
    by (simp add: assms(3) length_block_bytes)
  have dec: "decompress_block decompress ?z ?h = Inr (encode_records c)"
    using assms(1) by (simp add: decompress_block_def lz4_ok_def block_header_def)
  have "decode_records (encode_records c) (num_records ?h) = map forget_seq c"
    using assms(2) by (simp add: block_header_def decode_encode_records chunk_ok_def)
  with hd z len dec assms(4,5) show ?thesis
    by (simp add: read_block_decompress_def Let_def)
qed

lemma sst_file_blocks:
  assumes "lz4_ok compress decompress" "\<forall>c\<in>set cs. chunk_ok compress c"
  shows "\<exists>rd. SstReader_open (concat (map (block_bytes compress) cs)) sid = Inr rd
    \<and> rd_sst_id rd = sid \<and> block_count rd = length cs
    \<and> (\<forall>i<length cs. read_block_inner decompress rd i = Inr (map forget_seq (cs ! i)))"
proof -
  let ?file = "concat (map (block_bytes compress) cs)"
  let ?rd = "\<lparr>mmap = ?file, rd_sst_id = sid, block_offsets = offs compress 0 cs\<rparr>"
  have op: "SstReader_open ?file sid = Inr ?rd"
    using scan_headers_blocks [OF assms(2), of "[]" "[]"] by (simp add: SstReader_open_def)
  have "read_block_inner decompress ?rd i = Inr (map forget_seq (cs ! i))" if i: "i < length cs" for i
  proof -
    let ?pre = "concat (map (block_bytes compress) (take i cs))"
    let ?post = "concat (map (block_bytes compress) (drop (Suc i) cs))"
    have "concat (map (block_bytes compress) cs)
        = concat (map (block_bytes compress) (take i cs @ cs ! i # drop (Suc i) cs))"
      using id_take_nth_drop [OF i] by simp
    then have "mmap ?rd = ?pre @ block_bytes compress (cs ! i) @ ?post" by simp
    then have "read_block_decompress decompress ?rd i = Inr (block_header compress (cs ! i), map forget_seq (cs ! i))"
      using assms i by (intro read_block_at) (auto simp: nth_offs)
    then show ?thesis by (simp add: read_block_inner_def)
  qed
  then show ?thesis using op by (simp add: block_count_def)
qed

lemma sst_write_eq:
  "sst_write compress rs bs bpk =
     (concat (map (block_bytes compress) (chunks (max bs 1) rs)),
      sum_list (map (\<lambda>c. HEADER_SIZE + length (compress (encode_records c))) (chunks (max bs 1) rs)),
      map (\<lambda>(i, c). block_info i c) (enumerate 0 (chunks (max bs 1) rs)),
      from_keys_with_bits (unique_keys None rs) bpk)"
  by (simp add: sst_write_def write_blocks_eq Let_def)



text \<open>The metadata of a flushed table is sound: for sorted input, every record of block \<open>i\<close> lies within the
  key, time and expiry bounds that entry \<open>i\<close> of the block list states, and the Bloom filter admits its
  key, so pruning by either never hides it.\<close>

theorem sst_metadata_sound:
  assumes "sorted (map key rs)" and "sst_write compress rs bs bpk = (file, n, infos, bloom)"
    and "i < length (chunks (max bs 1) rs)" and "r \<in> set (chunks (max bs 1) rs ! i)"
  shows "length infos = length (chunks (max bs 1) rs) \<and> block_idx (infos ! i) = i
    \<and> info_covers (infos ! i) r \<and> may_contain bloom (key r)"
proof -
  let ?cs = "chunks (max bs 1) rs"
  have infos: "infos = map (\<lambda>(i, c). block_info i c) (enumerate 0 ?cs)"
    and bl: "bloom = from_keys_with_bits (unique_keys None rs) bpk"
    using assms(2) by (simp_all add: sst_write_eq)
  have nth: "infos ! i = block_info i (?cs ! i)" using assms(3) by (simp add: infos nth_enumerate_eq)
  have "sorted (map key (concat (take i ?cs) @ ?cs ! i @ concat (drop (Suc i) ?cs)))"
    using assms(1) id_take_nth_drop [OF assms(3)] by (metis concat.simps(2) concat_append concat_chunks)
  then have "sorted (map key (?cs ! i))" by (simp add: sorted_append)
  then have "info_covers (infos ! i) r" unfolding nth using assms(4) by (rule block_info_covers)
  moreover have "r \<in> set rs"
    using assms(3,4) by (metis concat_chunks nth_mem set_concat UN_I)
  then have "may_contain bloom (key r)"
    unfolding bl from_keys_with_bits_def by (intro bloom.query_foldl) auto
  ultimately show ?thesis using nth by (simp add: infos block_info_def)
qed

theorem sst_metadata_sound_witness:
  "info_covers (block_info 0 [delete_rec [1] 5 2]) (delete_rec [1] 5 2)"
proof -
  let ?rs = "[delete_rec [1] 5 2]"
  have c: "chunks (max 4 1) ?rs = [?rs]" by (simp add: chunks.simps)
  obtain fl n infos bl where w: "sst_write (\<lambda>d. d) ?rs 4 10 = (fl, n, infos, bl)" by (metis prod_cases4)
  then have "infos = [block_info 0 ?rs]" using c by (simp add: sst_write_eq)
  with sst_metadata_sound [OF _ w, of 0 "delete_rec [1] 5 2"] c show ?thesis by simp
qed

section \<open>Streaming writer\<close>

lemma chunks_full:
  assumes "\<forall>b\<in>set bs. length b = n" "0 < n" "length c < n"
  shows "chunks n (concat bs @ c) = bs @ (if c = [] then [] else [c])"
  using assms(1)
proof (induction bs)
  case Nil
  then show ?case using assms(2,3) by (simp add: chunks_step max_absorb2 Suc_leI)
next
  case (Cons b bs)
  then have b: "length b = n" by simp
  then have "concat (b # bs) @ c \<noteq> []" using assms(2) by auto
  then show ?case using Cons b assms(2) by (simp add: chunks_step max_absorb2 Suc_leI)
qed

text \<open>The state of the streaming writer after \<open>rs\<close>: the full blocks are in the file, the rest is buffered.\<close>

definition sw_inv :: "(bytes \<Rightarrow> bytes) \<Rightarrow> nat \<Rightarrow> InternalRecord list \<Rightarrow> SstStreamWriter \<Rightarrow> bool" where
  "sw_inv compress bs rs w \<longleftrightarrow>
     sw_block_size w = bs
     \<and> (\<exists>full. rs = concat full @ current_block w \<and> (\<forall>b\<in>set full. length b = max bs 1)
          \<and> length (current_block w) < max bs 1
          \<and> (sw_file w, total_bytes w, sw_block_infos w) = write_blocks compress full ([], 0, []))"

lemma write_blocks_snoc:
  "write_blocks compress (cs @ [c]) acc =
     (let (f, n, js) = write_blocks compress cs acc
      in (f @ block_bytes compress c, n + (HEADER_SIZE + length (compress (encode_records c))),
          js @ [block_info (length js) c]))"
  by (induction compress cs acc rule: write_blocks.induct) (auto simp: Let_def)

lemma sw_inv_write:
  assumes "sw_inv compress bs rs w"
  shows "sw_inv compress bs (rs @ [r]) (write_record compress r w)"
proof -
  let ?cur = "current_block w @ [r]"
  obtain full where rs: "rs = concat full @ current_block w" and full: "\<forall>b\<in>set full. length b = max bs 1"
    and cur: "length (current_block w) < max bs 1" and bsz: "sw_block_size w = bs"
    and st: "(sw_file w, total_bytes w, sw_block_infos w) = write_blocks compress full ([], 0, [])"
    using assms unfolding sw_inv_def by blast
  show ?thesis
  proof (cases "bs \<le> length ?cur")
    case True
    with cur have "length ?cur = max bs 1" by auto
    moreover have "write_blocks compress (full @ [?cur]) ([], 0, []) =
        (sw_file w @ block_bytes compress ?cur,
         total_bytes w + (HEADER_SIZE + length (compress (encode_records ?cur))),
         sw_block_infos w @ [block_info (length (sw_block_infos w)) ?cur])"
      by (simp add: write_blocks_snoc st [symmetric])
    ultimately show ?thesis
      unfolding sw_inv_def using True rs full bsz
      by (simp add: write_record_def flush_block_def Let_def) (intro exI [of _ "full @ [?cur]"], simp)
  next
    case False
    then show ?thesis
      unfolding sw_inv_def using rs full bsz st
      by (simp add: write_record_def Let_def) (intro exI [of _ full], auto)
  qed
qed

lemma sw_inv_run:
  "sw_inv compress bs (rs0 @ rs) (fold (write_record compress) rs w)" if "sw_inv compress bs rs0 w"
  using that
proof (induction rs arbitrary: rs0 w)
  case (Cons r rs)
  from Cons.IH [OF sw_inv_write [OF Cons.prems]] show ?case by simp
qed simp

lemma bloom_run:
  "sw_bloom (fold (write_record compress) rs w) = foldl insert_bloom (sw_bloom w) (map key rs)"
  by (induction rs arbitrary: w) (simp_all add: write_record_def flush_block_def Let_def)

lemma stream_writer_eq:
  obtains bloom where "finish compress (fold (write_record compress) rs (StreamWriter_new bs est bpk)) =
      (fst (sst_write compress rs bs bpk'), fst (snd (sst_write compress rs bs bpk')),
       fst (snd (snd (sst_write compress rs bs bpk'))), bloom)"
    "\<And>r. r \<in> set rs \<Longrightarrow> may_contain bloom (key r)"
proof -
  let ?w0 = "StreamWriter_new bs est bpk"
  define w where "w = fold (write_record compress) rs ?w0"
  have "sw_inv compress bs [] ?w0"
    unfolding sw_inv_def by (auto simp: StreamWriter_new_def intro: exI [of _ "[]"])
  from sw_inv_run [OF this, of rs] have "sw_inv compress bs rs w" by (simp add: w_def)
  then obtain full where rs: "rs = concat full @ current_block w" and full: "\<forall>b\<in>set full. length b = max bs 1"
    and cur: "length (current_block w) < max bs 1"
    and st: "(sw_file w, total_bytes w, sw_block_infos w) = write_blocks compress full ([], 0, [])"
    unfolding sw_inv_def by blast
  have cs: "chunks (max bs 1) rs = full @ (if current_block w = [] then [] else [current_block w])"
    unfolding rs by (rule chunks_full) (use full cur in auto)
  have fin: "finish compress w =
      (let (f, n, js) = write_blocks compress (chunks (max bs 1) rs) ([], 0, []) in (f, n, js, sw_bloom w))"
    unfolding cs by (simp add: finish_def flush_block_def write_blocks_snoc st [symmetric] Let_def)
  have "may_contain (sw_bloom w) (key r)" if "r \<in> set rs" for r
    unfolding w_def bloom_run
    by (rule bloom.query_foldl) (use that in \<open>auto simp: StreamWriter_new_def\<close>)
  then show thesis
    by (intro that [of "sw_bloom w"]) (simp_all add: w_def [symmetric] fin write_blocks_eq sst_write_eq Let_def)
qed

text \<open>C25. The streaming writer is equivalent to the batch writer: feeding the records one by one and finishing
  produces the same file bytes, byte count and block list as writing them at once with the same block
  size, and its Bloom filter (of whatever estimated size) admits every key written.\<close>

theorem stream_writer_equiv:
  "let (file, n, infos, bloom) =
         finish compress (fold (write_record compress) rs (StreamWriter_new bs est bpk))
   in (file, n, infos) = (fst (sst_write compress rs bs bpk'), fst (snd (sst_write compress rs bs bpk')),
                          fst (snd (snd (sst_write compress rs bs bpk'))))
      \<and> list_all (\<lambda>r. may_contain bloom (key r)) rs"
  by (rule stream_writer_eq [of compress rs bs est bpk bpk']) (simp add: list_all_iff)

end
