(* ===== verification/Block_Index.thy ===== *)
theory Block_Index
  imports Sstable
begin

text \<open>
  \<^verbatim>\<open>src/block_meta_index.rs\<close>: the in-memory index over the blocks of all SSTables, by smallest key, by
  time bucket and by table.  Shown: the three maps describe the same blocks in every reachable state;
  key queries return every block that can hold a matching record; the time filter is characterised
  exactly (and misses long blocks); the binary search over a table's blocks finds a covering block
  whenever one exists.
\<close>

section \<open>Blocks\<close>

record BlockMeta =
  bm_sst_id :: nat
  bm_block_idx :: nat
  bm_min_key :: bytes
  bm_max_key :: bytes
  bm_min_ts :: int
  bm_max_ts :: int
  bm_max_expire :: int

definition from_block_info :: "nat \<Rightarrow> BlockInfo \<Rightarrow> BlockMeta" where
  "from_block_info sid bi =
     \<lparr>bm_sst_id = sid, bm_block_idx = block_idx bi, bm_min_key = min_key bi, bm_max_key = max_key bi,
      bm_min_ts = blk_min_ts bi, bm_max_ts = blk_max_ts bi, bm_max_expire = blk_max_expire bi\<rparr>"

text \<open>The index's own increment: for an empty or all-\<open>0xFF\<close> prefix it returns the sentinel bytes
  \<open>EF BF BF\<close>, unlike \<open>increment_prefix_bytes\<close> of \<^verbatim>\<open>record.rs\<close>.\<close>

definition increment_prefix :: "bytes \<Rightarrow> bytes" where
  "increment_prefix s =
     (case inc_last (rev s) of Some r \<Rightarrow> rev r | None \<Rightarrow> [0xEF, 0xBF, 0xBF])"

definition overlaps_key_prefix :: "bytes \<Rightarrow> BlockMeta \<Rightarrow> bool" where
  "overlaps_key_prefix p m \<longleftrightarrow> bm_min_key m < increment_prefix p \<and> p \<le> bm_max_key m"

definition overlaps_key_range :: "bytes \<Rightarrow> bytes \<Rightarrow> BlockMeta \<Rightarrow> bool" where
  "overlaps_key_range s e m \<longleftrightarrow> bm_min_key m \<le> e \<and> s \<le> bm_max_key m"

definition overlaps_time :: "int \<Rightarrow> int \<Rightarrow> BlockMeta \<Rightarrow> bool" where
  "overlaps_time s e m \<longleftrightarrow> bm_min_ts m \<le> e \<and> s \<le> bm_max_ts m"

definition is_expired :: "int \<Rightarrow> BlockMeta \<Rightarrow> bool" where
  "is_expired now_us m \<longleftrightarrow> bm_max_expire m < now_us"

section \<open>The index\<close>

record BlockMetaIndex =
  by_key :: "(bytes, BlockMeta list) btree"
  by_time :: "(int, BlockMeta list) btree"
  time_bucket_us :: int
  blooms :: "nat \<rightharpoonup> BloomFilter"
  sst_blocks :: "(nat, BlockMeta list) btree"

definition Index_new :: "nat \<Rightarrow> BlockMetaIndex" where
  "Index_new secs =
     \<lparr>by_key = [], by_time = [], time_bucket_us = u64_as_i64 secs * 1000000, blooms = Map.empty,
      sst_blocks = []\<rparr>"

definition bucket_of :: "BlockMetaIndex \<Rightarrow> int \<Rightarrow> int" where
  "bucket_of ix t = i64_div t (time_bucket_us ix)"

definition add_meta :: "BlockMeta \<Rightarrow> BlockMetaIndex \<Rightarrow> BlockMetaIndex" where
  "add_meta m ix =
     ix\<lparr>by_key := bt_push (bm_min_key m) m (by_key ix),
        by_time := bt_push (bucket_of ix (bm_min_ts m)) m (by_time ix)\<rparr>"

definition ix_add_sst :: "nat \<Rightarrow> BlockInfo list \<Rightarrow> BlockMetaIndex \<Rightarrow> BlockMetaIndex" where
  "ix_add_sst sid blocks ix =
     (let ix = fold add_meta (map (from_block_info sid) blocks) ix
      in ix\<lparr>sst_blocks := bt_insert sid (map (from_block_info sid) blocks) (sst_blocks ix)\<rparr>)"

definition set_bloom :: "nat \<Rightarrow> BloomFilter \<Rightarrow> BlockMetaIndex \<Rightarrow> BlockMetaIndex" where
  "set_bloom sid b ix = ix\<lparr>blooms := (blooms ix)(sid \<mapsto> b)\<rparr>"

definition remove_bloom :: "nat \<Rightarrow> BlockMetaIndex \<Rightarrow> BlockMetaIndex" where
  "remove_bloom sid ix = ix\<lparr>blooms := (blooms ix)(sid := None)\<rparr>"

text \<open>\<^verbatim>\<open>retain\<close> on every bucket, then dropping the buckets left empty.\<close>

definition bt_retain :: "('v \<Rightarrow> bool) \<Rightarrow> ('k, 'v list) btree \<Rightarrow> ('k, 'v list) btree" where
  "bt_retain P m = filter (\<lambda>(_, vs). vs \<noteq> []) (map (\<lambda>(k, vs). (k, filter P vs)) m)"

definition ix_remove_sst :: "nat \<Rightarrow> BlockMetaIndex \<Rightarrow> BlockMetaIndex" where
  "ix_remove_sst sid ix =
     ix\<lparr>by_key := bt_retain (\<lambda>m. bm_sst_id m \<noteq> sid) (by_key ix),
        by_time := bt_retain (\<lambda>m. bm_sst_id m \<noteq> sid) (by_time ix),
        blooms := (blooms ix)(sid := None),
        sst_blocks := bt_remove sid (sst_blocks ix)\<rparr>"

definition bloom_may_contain :: "BlockMetaIndex \<Rightarrow> nat \<Rightarrow> bytes \<Rightarrow> bool" where
  "bloom_may_contain ix sid k = (case blooms ix sid of Some b \<Rightarrow> may_contain b k | None \<Rightarrow> True)"

section \<open>Point lookup\<close>

text \<open>The loop of \<^verbatim>\<open>binary_search_block\<close>: \<open>Inr\<close> a block that covers the key, or \<open>Inl\<close> the final \<open>lo\<close>.\<close>

function bsb_loop :: "BlockMeta list \<Rightarrow> bytes \<Rightarrow> nat \<Rightarrow> nat \<Rightarrow> nat + BlockMeta" where
  "bsb_loop blocks k lo hi =
     (if lo < hi
      then let mid = lo + (hi - lo) div 2; b = blocks ! mid
           in if bm_max_key b < k then bsb_loop blocks k (mid + 1) hi
              else if k < bm_min_key b then bsb_loop blocks k lo mid
              else Inr b
      else Inl lo)"
  by pat_completeness auto
termination
  by (relation "measure (\<lambda>(blocks, k, lo, hi). hi - lo)") auto

declare bsb_loop.simps [simp del]

definition binary_search_block :: "BlockMeta list \<Rightarrow> bytes \<Rightarrow> BlockMeta option" where
  "binary_search_block blocks k =
     (case bsb_loop blocks k 0 (length blocks) of
        Inr b \<Rightarrow> Some b
      | Inl lo \<Rightarrow>
          if lo < length blocks \<and> bm_min_key (blocks ! lo) \<le> k \<and> k \<le> bm_max_key (blocks ! lo)
          then Some (blocks ! lo) else None)"

fun point_loop :: "BlockMetaIndex \<Rightarrow> bytes \<Rightarrow> int \<Rightarrow> (BlockMeta \<Rightarrow> 'a option) \<Rightarrow> (nat \<times> BlockMeta list) list
    \<Rightarrow> 'a option" where
  "point_loop ix k now_us f [] = None"
| "point_loop ix k now_us f ((sid, blocks) # rest) =
     (if \<not> bloom_may_contain ix sid k then point_loop ix k now_us f rest
      else case binary_search_block blocks k of
             None \<Rightarrow> point_loop ix k now_us f rest
           | Some m \<Rightarrow>
               if is_expired now_us m then point_loop ix k now_us f rest
               else case f m of Some r \<Rightarrow> Some r | None \<Rightarrow> point_loop ix k now_us f rest)"

definition query_point_inline :: "BlockMetaIndex \<Rightarrow> bytes \<Rightarrow> int \<Rightarrow> (BlockMeta \<Rightarrow> 'a option) \<Rightarrow> 'a option" where
  "query_point_inline ix k now_us f = point_loop ix k now_us f (sst_blocks ix)"

definition single_sst_point :: "BlockMetaIndex \<Rightarrow> bytes \<Rightarrow> int \<Rightarrow> (nat \<times> nat) option" where
  "single_sst_point ix k now_us =
     (if length (sst_blocks ix) \<noteq> 1 then None
      else case binary_search_block (snd (hd (sst_blocks ix))) k of
             Some m \<Rightarrow> if is_expired now_us m then None else Some (bm_sst_id m, bm_block_idx m)
           | None \<Rightarrow> None)"

section \<open>Range queries\<close>

definition metas_of :: "('k, BlockMeta list) btree \<Rightarrow> BlockMeta list" where
  "metas_of m = concat (map snd m)"

fun collect_by_key :: "BlockMetaIndex \<Rightarrow> KeyFilter \<Rightarrow> int \<Rightarrow> BlockMeta list" where
  "collect_by_key ix (Prefix k) now_us =
     filter (\<lambda>m. \<not> is_expired now_us m \<and> overlaps_key_prefix k m)
       (metas_of (filter (\<lambda>(k', _). k' < increment_prefix k) (by_key ix)))"
| "collect_by_key ix (Range s e) now_us =
     filter (\<lambda>m. \<not> is_expired now_us m \<and> overlaps_key_range s e m)
       (metas_of (filter (\<lambda>(k', _). k' < increment_prefix e) (by_key ix)))"
| "collect_by_key ix All now_us = filter (\<lambda>m. \<not> is_expired now_us m) (metas_of (by_key ix))"

text \<open>\<^verbatim>\<open>BTreeMap::range\<close> panics when the start of the range is above its end; \<open>None\<close> is that panic.\<close>

definition collect_time_set :: "BlockMetaIndex \<Rightarrow> int \<Rightarrow> int \<Rightarrow> int \<Rightarrow> (nat \<times> nat) set option" where
  "collect_time_set ix s e now_us =
     (let bucket_start = bucket_of ix s; bucket_end = bucket_of ix e
      in if bucket_end < bucket_start then None
         else Some ((\<lambda>m. (bm_sst_id m, bm_block_idx m)) `
           set (filter (\<lambda>m. \<not> is_expired now_us m \<and> overlaps_time s e m)
             (metas_of (filter (\<lambda>(b, _). bucket_start \<le> b \<and> b \<le> bucket_end) (by_time ix))))))"

definition ix_query :: "BlockMetaIndex \<Rightarrow> KeyFilter \<Rightarrow> (int \<times> int) option \<Rightarrow> int \<Rightarrow> BlockMeta list option" where
  "ix_query ix kf tr now_us =
     (let key_candidates = collect_by_key ix kf now_us
      in case tr of
           Some (s, e) \<Rightarrow>
             map_option (\<lambda>time_set. filter (\<lambda>m. (bm_sst_id m, bm_block_idx m) \<in> time_set) key_candidates)
               (collect_time_set ix s e now_us)
         | None \<Rightarrow> Some key_candidates)"

definition total_entries :: "BlockMetaIndex \<Rightarrow> nat" where
  "total_entries ix = sum_list (map (\<lambda>(_, v). length v) (by_key ix))"

definition bucket_count :: "BlockMetaIndex \<Rightarrow> nat" where
  "bucket_count ix = length (by_time ix)"

section \<open>The three maps agree\<close>

definition bt_mem :: "('k::linorder, 'v list) btree \<Rightarrow> 'k \<Rightarrow> 'v \<Rightarrow> bool" where
  "bt_mem m k x \<longleftrightarrow> (\<exists>vs. map_of m k = Some vs \<and> x \<in> set vs)"

lemma bt_mem_Nil [simp]: "\<not> bt_mem [] k x"
  by (simp add: bt_mem_def)

lemma bt_mem_push: "bt_mem (bt_push k v m) k' x \<longleftrightarrow> bt_mem m k' x \<or> k' = k \<and> x = v"
  by (cases "map_of m k") (auto simp: bt_mem_def bt_push_def)

lemma bt_mem_insert: "bt_mem (bt_insert k vs m) k' x \<longleftrightarrow> (if k' = k then x \<in> set vs else bt_mem m k' x)"
  by (auto simp: bt_mem_def)

lemma bt_mem_remove: "bt_mem (bt_remove k m) k' x \<longleftrightarrow> k' \<noteq> k \<and> bt_mem m k' x"
  by (auto simp: bt_mem_def)

lemma bt_mem_set: "bt_ok m \<Longrightarrow> bt_mem m k x \<longleftrightarrow> (\<exists>vs. (k, vs) \<in> set m \<and> x \<in> set vs)"
  using bt_ok_distinct [of m] by (auto simp: bt_mem_def)

lemma bt_ok_retain: "bt_ok m \<Longrightarrow> bt_ok (bt_retain P m)"
proof -
  assume m: "bt_ok m"
  have "map fst (map (\<lambda>(k, vs). (k, filter P vs)) m) = map fst m" by auto
  with m have "bt_ok (map (\<lambda>(k, vs). (k, filter P vs)) m)" by (simp only: bt_ok_def)
  then show ?thesis unfolding bt_retain_def bt_ok_def by (simp add: sorted_wrt_map sorted_wrt_filter)
qed

lemma bt_mem_retain: "bt_ok m \<Longrightarrow> bt_mem (bt_retain P m) k x \<longleftrightarrow> bt_mem m k x \<and> P x"
proof -
  assume m: "bt_ok m"
  have "(k, vs) \<in> set (bt_retain P m) \<longleftrightarrow> vs \<noteq> [] \<and> (\<exists>ws. (k, ws) \<in> set m \<and> vs = filter P ws)" for vs
    by (auto simp: bt_retain_def)
  note r = this
  have "(\<exists>vs. (k, vs) \<in> set (bt_retain P m) \<and> x \<in> set vs) \<longleftrightarrow> (\<exists>ws. (k, ws) \<in> set m \<and> x \<in> set (filter P ws))"
  proof
    assume "\<exists>ws. (k, ws) \<in> set m \<and> x \<in> set (filter P ws)"
    then obtain ws where "(k, ws) \<in> set m" "x \<in> set (filter P ws)" by blast
    then show "\<exists>vs. (k, vs) \<in> set (bt_retain P m) \<and> x \<in> set vs"
      unfolding r by (intro exI [of _ "filter P ws"]) (auto simp: filter_empty_conv)
  next
    assume "\<exists>vs. (k, vs) \<in> set (bt_retain P m) \<and> x \<in> set vs"
    then obtain vs where "(k, vs) \<in> set (bt_retain P m)" "x \<in> set vs" by blast
    then show "\<exists>ws. (k, ws) \<in> set m \<and> x \<in> set (filter P ws)" unfolding r by metis
  qed
  then show ?thesis
    unfolding bt_mem_set [OF m] bt_mem_set [OF bt_ok_retain [OF m]] by auto
qed

lemma set_metas_of: "bt_ok m \<Longrightarrow> x \<in> set (metas_of m) \<longleftrightarrow> (\<exists>k. bt_mem m k x)"
  by (auto simp: metas_of_def bt_mem_set) force+

definition ix_metas :: "BlockMetaIndex \<Rightarrow> BlockMeta set" where
  "ix_metas ix = {x. \<exists>s. bt_mem (sst_blocks ix) s x}"

definition ix_ok :: "BlockMetaIndex \<Rightarrow> bool" where
  "ix_ok ix \<longleftrightarrow>
     bt_ok (by_key ix) \<and> bt_ok (by_time ix) \<and> bt_ok (sst_blocks ix)
     \<and> (\<forall>k x. bt_mem (by_key ix) k x \<longleftrightarrow> k = bm_min_key x \<and> x \<in> ix_metas ix)
     \<and> (\<forall>b x. bt_mem (by_time ix) b x \<longleftrightarrow> b = bucket_of ix (bm_min_ts x) \<and> x \<in> ix_metas ix)
     \<and> (\<forall>s x. bt_mem (sst_blocks ix) s x \<longrightarrow> bm_sst_id x = s)
     \<and> (\<forall>x\<in>ix_metas ix. \<forall>y\<in>ix_metas ix.
          bm_sst_id x = bm_sst_id y \<and> bm_block_idx x = bm_block_idx y \<longrightarrow> x = y)"

inductive ix_reach :: "BlockMetaIndex \<Rightarrow> bool" where
  ix_new: "ix_reach (Index_new secs)"
| ix_add: "ix_reach ix \<Longrightarrow> map_of (sst_blocks ix) sid = None \<Longrightarrow> distinct (map block_idx blocks) \<Longrightarrow>
    ix_reach (ix_add_sst sid blocks ix)"
| ix_remove: "ix_reach ix \<Longrightarrow> ix_reach (ix_remove_sst sid ix)"
| ix_set_bloom: "ix_reach ix \<Longrightarrow> ix_reach (set_bloom sid b ix)"
| ix_remove_bloom: "ix_reach ix \<Longrightarrow> ix_reach (remove_bloom sid ix)"

lemma fold_add_meta:
  "sst_blocks (fold add_meta ms ix) = sst_blocks ix"
  "time_bucket_us (fold add_meta ms ix) = time_bucket_us ix"
  "blooms (fold add_meta ms ix) = blooms ix"
  "bt_ok (by_key ix) \<Longrightarrow> bt_ok (by_key (fold add_meta ms ix))"
  "bt_ok (by_time ix) \<Longrightarrow> bt_ok (by_time (fold add_meta ms ix))"
  "bt_mem (by_key (fold add_meta ms ix)) k x \<longleftrightarrow> bt_mem (by_key ix) k x \<or> x \<in> set ms \<and> k = bm_min_key x"
  "bt_mem (by_time (fold add_meta ms ix)) b x \<longleftrightarrow>
     bt_mem (by_time ix) b x \<or> x \<in> set ms \<and> b = bucket_of ix (bm_min_ts x)"
  by (induction ms arbitrary: ix) (auto simp: add_meta_def bt_mem_push bucket_of_def)

lemma from_block_info_simps [simp]:
  "bm_sst_id (from_block_info s b) = s" "bm_block_idx (from_block_info s b) = block_idx b"
  by (simp_all add: from_block_info_def)

lemma ix_metas_add:
  assumes "map_of (sst_blocks ix) sid = None"
  shows "ix_metas (ix_add_sst sid blocks ix) = ix_metas ix \<union> set (map (from_block_info sid) blocks)"
proof -
  have "bt_mem (sst_blocks (ix_add_sst sid blocks ix)) s x \<longleftrightarrow>
      s = sid \<and> x \<in> set (map (from_block_info sid) blocks) \<or> bt_mem (sst_blocks ix) s x" for s x
    using assms by (auto simp: ix_add_sst_def fold_add_meta bt_mem_insert Let_def) (auto simp: bt_mem_def)
  then show ?thesis unfolding ix_metas_def by blast
qed

lemma distinct_map_inj: "distinct (map f xs) \<Longrightarrow> x \<in> set xs \<Longrightarrow> y \<in> set xs \<Longrightarrow> f x = f y \<Longrightarrow> x = y"
  by (auto simp: distinct_map dest: inj_onD)

lemma ix_ok_add:
  assumes ok: "ix_ok ix" and fresh: "map_of (sst_blocks ix) sid = None" and d: "distinct (map block_idx blocks)"
  shows "ix_ok (ix_add_sst sid blocks ix)"
proof -
  let ?ms = "map (from_block_info sid) blocks" and ?ix = "ix_add_sst sid blocks ix"
  have old: "bm_sst_id x \<noteq> sid" if "x \<in> ix_metas ix" for x
  proof -
    from that obtain s where s: "bt_mem (sst_blocks ix) s x" by (auto simp: ix_metas_def)
    then have "bm_sst_id x = s" using ok by (simp add: ix_ok_def)
    with s fresh show ?thesis by (auto simp: bt_mem_def)
  qed
  have uniq: "x = y" if "x \<in> ix_metas ?ix" "y \<in> ix_metas ?ix" "bm_sst_id x = bm_sst_id y"
    "bm_block_idx x = bm_block_idx y" for x y
  proof (cases "bm_sst_id x = sid")
    case True
    then have "x \<in> set ?ms" "y \<in> set ?ms" using that old unfolding ix_metas_add [OF fresh] by auto
    then obtain a b where "a \<in> set blocks" "b \<in> set blocks" "x = from_block_info sid a" "y = from_block_info sid b"
      by auto
    then show ?thesis using that(4) distinct_map_inj [OF d, of a b] by simp
  next
    case False
    then have "x \<in> ix_metas ix" "y \<in> ix_metas ix" using that unfolding ix_metas_add [OF fresh] by auto
    then show ?thesis using that ok by (auto simp: ix_ok_def)
  qed
  have m: "bt_mem (by_key ?ix) k x \<longleftrightarrow> bt_mem (by_key ix) k x \<or> x \<in> set ?ms \<and> k = bm_min_key x"
    "bt_mem (by_time ?ix) b x \<longleftrightarrow> bt_mem (by_time ix) b x \<or> x \<in> set ?ms \<and> b = bucket_of ix (bm_min_ts x)"
    "bt_mem (sst_blocks ?ix) s x \<longleftrightarrow> (if s = sid then x \<in> set ?ms else bt_mem (sst_blocks ix) s x)"
    "bucket_of ?ix t = bucket_of ix t" for k x b s t
    using ok by (simp_all add: ix_add_sst_def fold_add_meta bt_mem_insert bucket_of_def ix_ok_def Let_def)
  have o: "bt_ok (by_key ?ix)" "bt_ok (by_time ?ix)" "bt_ok (sst_blocks ?ix)"
    using ok by (simp_all add: ix_add_sst_def fold_add_meta ix_ok_def Let_def)
  have k: "\<forall>k x. bt_mem (by_key ix) k x \<longleftrightarrow> k = bm_min_key x \<and> x \<in> ix_metas ix"
    and b: "\<forall>b x. bt_mem (by_time ix) b x \<longleftrightarrow> b = bucket_of ix (bm_min_ts x) \<and> x \<in> ix_metas ix"
    and s: "\<forall>s x. bt_mem (sst_blocks ix) s x \<longrightarrow> bm_sst_id x = s"
    using ok by (simp_all add: ix_ok_def)
  have "\<forall>k x. bt_mem (by_key ?ix) k x \<longleftrightarrow> k = bm_min_key x \<and> x \<in> ix_metas ?ix"
    unfolding m ix_metas_add [OF fresh] using k by auto
  moreover have "\<forall>b x. bt_mem (by_time ?ix) b x \<longleftrightarrow> b = bucket_of ?ix (bm_min_ts x) \<and> x \<in> ix_metas ?ix"
    unfolding m ix_metas_add [OF fresh] using b by auto
  moreover have "\<forall>s x. bt_mem (sst_blocks ?ix) s x \<longrightarrow> bm_sst_id x = s"
    unfolding m using s by auto
  moreover have "\<forall>x\<in>ix_metas ?ix. \<forall>y\<in>ix_metas ?ix.
      bm_sst_id x = bm_sst_id y \<and> bm_block_idx x = bm_block_idx y \<longrightarrow> x = y"
    using uniq by blast
  ultimately show ?thesis unfolding ix_ok_def using o by (intro conjI)
qed

lemma ix_ok_remove:
  assumes "ix_ok ix"
  shows "ix_ok (ix_remove_sst sid ix)" and "ix_metas (ix_remove_sst sid ix) = {x \<in> ix_metas ix. bm_sst_id x \<noteq> sid}"
proof -
  let ?ix = "ix_remove_sst sid ix"
  have s: "bm_sst_id x = s" if "bt_mem (sst_blocks ix) s x" for s x using that assms by (simp add: ix_ok_def)
  show mt: "ix_metas ?ix = {x \<in> ix_metas ix. bm_sst_id x \<noteq> sid}"
    using s by (auto simp: ix_metas_def ix_remove_sst_def bt_mem_remove)
  have m: "bt_mem (by_key ?ix) k x \<longleftrightarrow> bt_mem (by_key ix) k x \<and> bm_sst_id x \<noteq> sid"
    "bt_mem (by_time ?ix) b x \<longleftrightarrow> bt_mem (by_time ix) b x \<and> bm_sst_id x \<noteq> sid"
    "bt_mem (sst_blocks ?ix) t x \<longleftrightarrow> t \<noteq> sid \<and> bt_mem (sst_blocks ix) t x"
    "bucket_of ?ix u = bucket_of ix u" for k x b t u
    using assms by (simp_all add: ix_remove_sst_def bt_mem_retain bt_mem_remove bt_ok_retain bucket_of_def ix_ok_def)
  have o: "bt_ok (by_key ?ix)" "bt_ok (by_time ?ix)" "bt_ok (sst_blocks ?ix)"
    using assms by (simp_all add: ix_remove_sst_def bt_ok_retain ix_ok_def)
  show "ix_ok ?ix" unfolding ix_ok_def m mt using assms o by (auto simp: ix_ok_def)
qed

lemma ix_ok_blooms: "ix_ok (ix\<lparr>blooms := b\<rparr>) = ix_ok ix"
  by (simp add: ix_ok_def ix_metas_def bucket_of_def)

lemma ix_reach_ok: "ix_reach ix \<Longrightarrow> ix_ok ix"
  by (induction rule: ix_reach.induct)
    (simp_all add: ix_ok_add ix_ok_remove set_bloom_def remove_bloom_def ix_ok_blooms,
     simp add: ix_ok_def Index_new_def ix_metas_def)

text \<open>The three maps of the index describe the same blocks in every state the engine can reach (tables
  added under fresh ids with their blocks numbered apart, removed, filters set or dropped), and
  removing a table removes exactly its blocks.\<close>

theorem index_maps_agree:
  assumes "ix_reach ix"
  shows "set (metas_of (by_key ix)) = set (metas_of (sst_blocks ix))
    \<and> set (metas_of (by_time ix)) = set (metas_of (sst_blocks ix))
    \<and> set (metas_of (sst_blocks (ix_remove_sst sid ix))) = {m \<in> set (metas_of (sst_blocks ix)). bm_sst_id m \<noteq> sid}"
proof -
  have ok: "ix_ok ix" by (rule ix_reach_ok [OF assms])
  have m: "set (metas_of (sst_blocks ix)) = ix_metas ix" if "ix_ok ix" for ix
    using that set_metas_of [of "sst_blocks ix"] by (auto simp: ix_metas_def ix_ok_def)
  have "set (metas_of (by_key ix)) = ix_metas ix" "set (metas_of (by_time ix)) = ix_metas ix"
    using ok set_metas_of [of "by_key ix"] set_metas_of [of "by_time ix"] by (auto simp: ix_ok_def)
  then show ?thesis using m [OF ok] m [OF ix_ok_remove(1) [OF ok]] ix_ok_remove(2) [OF ok] by simp
qed

theorem index_maps_agree_witness:
  "set (metas_of (by_time (ix_add_sst 3 [block_info 0 [delete_rec [1] 5 2]] (Index_new 3600))))
   = {from_block_info 3 (block_info 0 [delete_rec [1] 5 2])}"
proof -
  let ?ix = "ix_add_sst 3 [block_info 0 [delete_rec [1] 5 2]] (Index_new 3600)"
  have "ix_reach ?ix" by (intro ix_reach.intros) (simp_all add: Index_new_def)
  from index_maps_agree [OF this] show ?thesis
    by (simp add: ix_add_sst_def Index_new_def add_meta_def metas_of_def Let_def)
qed

section \<open>Key queries\<close>

definition key_matches :: "KeyFilter \<Rightarrow> bytes \<Rightarrow> bool" where
  "key_matches kf k =
     (case kf of Prefix p \<Rightarrow> prefix p k | Range s e \<Rightarrow> s \<le> k \<and> k \<le> e | All \<Rightarrow> True)"

text \<open>The bound of the range scan is a real upper bound when the filter's key has a byte below \<open>0xFF\<close>.\<close>

definition bounded_filter :: "KeyFilter \<Rightarrow> bool" where
  "bounded_filter kf =
     (case kf of Prefix p \<Rightarrow> \<exists>b\<in>set p. b \<noteq> 255 | Range s e \<Rightarrow> \<exists>b\<in>set e. b \<noteq> 255 | All \<Rightarrow> True)"

lemma increment_prefix_eq: "\<exists>b\<in>set p. b \<noteq> 255 \<Longrightarrow> increment_prefix p = increment_prefix_bytes p"
  using inc_last_None [of "rev p"] by (auto simp: increment_prefix_def increment_prefix_bytes_def split: option.split)

lemma set_metas_below:
  assumes "ix_ok ix"
  shows "m \<in> set (metas_of (filter (\<lambda>(k', _). P k') (by_key ix))) \<longleftrightarrow> m \<in> ix_metas ix \<and> P (bm_min_key m)"
proof -
  have "m \<in> set (metas_of (filter (\<lambda>(k', _). P k') (by_key ix))) \<longleftrightarrow> (\<exists>k. bt_mem (by_key ix) k m \<and> P k)"
    using assms bt_mem_set [of "by_key ix"] by (auto simp: metas_of_def ix_ok_def)
  then show ?thesis using assms by (auto simp: ix_ok_def)
qed

lemma covered_key_range:
  assumes "info_covers bi r" "key_matches kf (key r)" "bounded_filter kf"
  shows "case kf of Prefix p \<Rightarrow> min_key bi < increment_prefix p \<and> p \<le> max_key bi
    | Range s e \<Rightarrow> min_key bi < increment_prefix e \<and> min_key bi \<le> e \<and> s \<le> max_key bi | All \<Rightarrow> True"
proof (cases kf)
  case (Prefix p)
  with assms(2,3) have b: "\<exists>b\<in>set p. b \<noteq> 255" "prefix p (key r)"
    by (simp_all add: key_matches_def bounded_filter_def)
  then have "p \<le> key r" "key r < increment_prefix p"
    using prefix_range_iff [OF b(1)] by (simp_all add: increment_prefix_eq)
  with assms(1) Prefix show ?thesis by (auto simp: info_covers_def)
next
  case (Range s e)
  with assms(2,3) have b: "\<exists>b\<in>set e. b \<noteq> 255" "s \<le> key r" "key r \<le> e"
    by (simp_all add: key_matches_def bounded_filter_def)
  then have "e < increment_prefix e"
    using prefix_range_iff [OF b(1), of e] by (simp add: increment_prefix_eq)
  with assms(1) Range b show ?thesis by (auto simp: info_covers_def)
qed simp

text \<open>C14. Key pruning never hides data: for every record that matches the key filter and has not expired, if
  the index holds a block whose metadata covers it, the query returns that block.  (The filter's upper
  key must have a byte below \<open>0xFF\<close>; otherwise the sentinel bound of the source applies.)\<close>

theorem index_key_query_complete:
  assumes "ix_reach ix" and "from_block_info sid bi \<in> set (metas_of (sst_blocks ix))"
    and "info_covers bi r" and "now_us \<le> expire_at r" and "key_matches kf (key r)" and "bounded_filter kf"
  shows "\<exists>ms. ix_query ix kf None now_us = Some ms \<and> from_block_info sid bi \<in> set ms"
proof -
  let ?m = "from_block_info sid bi"
  have ok: "ix_ok ix" by (rule ix_reach_ok [OF assms(1)])
  have mem: "?m \<in> ix_metas ix"
    using assms(2) ok set_metas_of [of "sst_blocks ix"] by (auto simp: ix_metas_def ix_ok_def)
  have live: "\<not> is_expired now_us ?m"
    using assms(3,4) by (simp add: is_expired_def from_block_info_def info_covers_def)
  have "?m \<in> set (collect_by_key ix kf now_us)"
  proof (cases kf)
    case (Prefix p)
    with covered_key_range [OF assms(3,5,6)] show ?thesis
      using mem live set_metas_below [OF ok, of ?m "\<lambda>k. k < increment_prefix p"]
      by (auto simp: overlaps_key_prefix_def from_block_info_def)
  next
    case (Range s e)
    with covered_key_range [OF assms(3,5,6)] show ?thesis
      using mem live set_metas_below [OF ok, of ?m "\<lambda>k. k < increment_prefix e"]
      by (auto simp: overlaps_key_range_def from_block_info_def)
  next
    case All
    have "?m \<in> set (metas_of (by_key ix))"
      using mem ok set_metas_of [of "by_key ix" ?m] by (auto simp: ix_ok_def)
    with All live show ?thesis by simp
  qed
  then show ?thesis by (simp add: ix_query_def)
qed

theorem index_key_query_complete_witness:
  "\<exists>ms. ix_query (ix_add_sst 3 [block_info 0 [delete_rec [1, 7] 5 2]] (Index_new 3600)) (Prefix [1]) None 9 = Some ms
     \<and> from_block_info 3 (block_info 0 [delete_rec [1, 7] 5 2]) \<in> set ms"
proof -
  let ?b = "block_info 0 [delete_rec [1, 7] 5 2]"
  let ?ix = "ix_add_sst 3 [?b] (Index_new 3600)"
  have "ix_reach ?ix" by (intro ix_reach.intros) (simp_all add: Index_new_def)
  moreover have "from_block_info 3 ?b \<in> set (metas_of (sst_blocks ?ix))"
    by (simp add: ix_add_sst_def Index_new_def add_meta_def metas_of_def Let_def)
  moreover have "info_covers ?b (delete_rec [1, 7] 5 2)"
    by (simp add: info_covers_def block_info_def min_or0_def max_or0_def)
  ultimately show ?thesis
    by (rule index_key_query_complete) (simp_all add: key_matches_def bounded_filter_def i64_max_def)
qed

section \<open>Time queries\<close>

text \<open>The time filter, exactly: for a range that is not inverted, a query with a time range returns the key
  candidates that overlap it \<open>and\<close> whose first timestamp is not in an earlier bucket than the start of
  the range.  A block that starts in an earlier bucket and reaches into the range is therefore left out.\<close>

theorem index_time_query_exact:
  assumes "ix_reach ix" and "0 < time_bucket_us ix" and "s \<le> e"
  shows "ix_query ix kf (Some (s, e)) now_us =
    Some (filter (\<lambda>m. overlaps_time s e m \<and> bucket_of ix s \<le> bucket_of ix (bm_min_ts m))
            (collect_by_key ix kf now_us))"
proof -
  have ok: "ix_ok ix" by (rule ix_reach_ok [OF assms(1)])
  let ?T = "\<lambda>m. \<not> is_expired now_us m \<and> overlaps_time s e m \<and> bucket_of ix s \<le> bucket_of ix (bm_min_ts m)"
  have be: "bucket_of ix s \<le> bucket_of ix e" using assms(2,3) by (simp add: bucket_of_def i64_div_mono)
  have sel: "m \<in> set (metas_of (filter (\<lambda>(b, _). bucket_of ix s \<le> b \<and> b \<le> bucket_of ix e) (by_time ix)))
      \<longleftrightarrow> m \<in> ix_metas ix \<and> bucket_of ix s \<le> bucket_of ix (bm_min_ts m) \<and> bucket_of ix (bm_min_ts m) \<le> bucket_of ix e" for m
  proof -
    have "m \<in> set (metas_of (filter (\<lambda>(b, _). bucket_of ix s \<le> b \<and> b \<le> bucket_of ix e) (by_time ix)))
        \<longleftrightarrow> (\<exists>b. bt_mem (by_time ix) b m \<and> bucket_of ix s \<le> b \<and> b \<le> bucket_of ix e)"
      using ok bt_mem_set [of "by_time ix"] by (auto simp: metas_of_def ix_ok_def)
    then show ?thesis using ok by (auto simp: ix_ok_def)
  qed
  have hi: "bucket_of ix (bm_min_ts m) \<le> bucket_of ix e" if "overlaps_time s e m" for m
    using that assms(2) by (simp add: bucket_of_def overlaps_time_def i64_div_mono)
  have ts: "collect_time_set ix s e now_us = Some ((\<lambda>m. (bm_sst_id m, bm_block_idx m)) ` {m \<in> ix_metas ix. ?T m})"
    using be sel hi by (auto simp: collect_time_set_def Let_def)
  have cand: "m \<in> ix_metas ix \<and> \<not> is_expired now_us m" if "m \<in> set (collect_by_key ix kf now_us)" for m
  proof -
    have "m \<in> set (metas_of (by_key ix)) \<and> \<not> is_expired now_us m"
      using that by (cases kf) (force simp: metas_of_def)+
    then have "m \<in> set (metas_of (by_key ix))" "\<not> is_expired now_us m" by simp_all
    moreover have "bt_ok (by_key ix)" using ok by (simp add: ix_ok_def)
    ultimately obtain k where "bt_mem (by_key ix) k m" using set_metas_of [of "by_key ix" m] by blast
    moreover have "\<forall>k x. bt_mem (by_key ix) k x \<longleftrightarrow> k = bm_min_key x \<and> x \<in> ix_metas ix"
      using ok by (simp add: ix_ok_def)
    ultimately show ?thesis using \<open>\<not> is_expired now_us m\<close> by blast
  qed
  have u: "x = y" if "x \<in> ix_metas ix" "y \<in> ix_metas ix" "bm_sst_id x = bm_sst_id y"
    "bm_block_idx x = bm_block_idx y" for x y using that ok by (simp add: ix_ok_def)
  have "(bm_sst_id m, bm_block_idx m) \<in> (\<lambda>m. (bm_sst_id m, bm_block_idx m)) ` {m \<in> ix_metas ix. ?T m} \<longleftrightarrow> ?T m"
    if "m \<in> ix_metas ix" for m using that u by blast
  then have "filter (\<lambda>m. (bm_sst_id m, bm_block_idx m) \<in> (\<lambda>m. (bm_sst_id m, bm_block_idx m)) ` {m \<in> ix_metas ix. ?T m})
      (collect_by_key ix kf now_us)
    = filter (\<lambda>m. overlaps_time s e m \<and> bucket_of ix s \<le> bucket_of ix (bm_min_ts m)) (collect_by_key ix kf now_us)"
    using cand by (intro filter_cong) auto
  then show ?thesis by (simp add: ix_query_def ts)
qed

theorem index_time_query_exact_witness:
  "let ix = ix_add_sst 3 [block_info 0 [delete_rec [1] 5 2, delete_rec [1] 2000000 3]] (Index_new 1)
   in ix_query ix All (Some (2000000, 3000000)) 9 = Some []
      \<and> length (collect_by_key ix All 9) = 1"
proof -
  let ?ix = "ix_add_sst 3 [block_info 0 [delete_rec [1] 5 2, delete_rec [1] 2000000 3]] (Index_new 1)"
  have "ix_reach ?ix" by (intro ix_reach.intros) (simp_all add: Index_new_def)
  from index_time_query_exact [OF this, of 2000000 3000000 All 9] show ?thesis
    by (simp add: ix_add_sst_def Index_new_def add_meta_def metas_of_def Let_def bucket_of_def u64_as_i64_def
        i64_div_def is_expired_def from_block_info_def block_info_def min_or0_def max_or0_def i64_max_def bt_push_def)
qed

text \<open>A time range whose start lies in a later bucket than its end makes the query panic (the range of the
  \<^verbatim>\<open>BTreeMap\<close> is inverted), and no other input does.\<close>

theorem index_query_panics_iff:
  "ix_query ix kf tr now_us = None \<longleftrightarrow>
   (\<exists>s e. tr = Some (s, e) \<and> bucket_of ix e < bucket_of ix s)"
  by (auto simp: ix_query_def collect_time_set_def Let_def split: option.split)

section \<open>Binary search over the blocks of a table\<close>

definition covers_key :: "bytes \<Rightarrow> BlockMeta \<Rightarrow> bool" where
  "covers_key k b \<longleftrightarrow> bm_min_key b \<le> k \<and> k \<le> bm_max_key b"

definition blocks_sorted :: "BlockMeta list \<Rightarrow> bool" where
  "blocks_sorted bs \<longleftrightarrow>
     (\<forall>b\<in>set bs. bm_min_key b \<le> bm_max_key b) \<and> sorted_wrt (\<lambda>a b. bm_max_key a \<le> bm_min_key b) bs"

lemma blocks_sorted_nth:
  "blocks_sorted bs \<Longrightarrow> i < j \<Longrightarrow> j < length bs \<Longrightarrow> bm_max_key (bs ! i) \<le> bm_min_key (bs ! j)"
  by (auto simp: blocks_sorted_def sorted_wrt_iff_nth_less)

lemma blocks_sorted_bounds:
  assumes "blocks_sorted bs" "i \<le> j" "j < length bs"
  shows "bm_max_key (bs ! i) \<le> bm_max_key (bs ! j)" "bm_min_key (bs ! i) \<le> bm_min_key (bs ! j)"
proof -
  have b: "bm_min_key (bs ! i) \<le> bm_max_key (bs ! i)" "bm_min_key (bs ! j) \<le> bm_max_key (bs ! j)"
    using assms by (auto simp: blocks_sorted_def)
  show "bm_max_key (bs ! i) \<le> bm_max_key (bs ! j)" "bm_min_key (bs ! i) \<le> bm_min_key (bs ! j)"
    using b blocks_sorted_nth [OF assms(1), of i j] assms by (cases "i = j"; force)+
qed

lemma bsb_loop_spec:
  assumes "blocks_sorted bs" "hi \<le> length bs"
    and "\<forall>i<lo. i < length bs \<longrightarrow> bm_max_key (bs ! i) < k"
    and "\<forall>i. hi \<le> i \<longrightarrow> i < length bs \<longrightarrow> k < bm_min_key (bs ! i)"
  shows "case bsb_loop bs k lo hi of Inr b \<Rightarrow> b \<in> set bs \<and> covers_key k b
    | Inl l \<Rightarrow> \<forall>b\<in>set bs. \<not> covers_key k b"
  using assms(2-)
proof (induction "hi - lo" arbitrary: lo hi rule: less_induct)
  case less
  show ?case
  proof (cases "lo < hi")
    case True
    define mid where "mid = lo + (hi - lo) div 2"
    have mid: "lo \<le> mid" "mid < hi" "mid < length bs" using True less.prems by (auto simp: mid_def)
    have step: "bsb_loop bs k lo hi =
        (if bm_max_key (bs ! mid) < k then bsb_loop bs k (mid + 1) hi
         else if k < bm_min_key (bs ! mid) then bsb_loop bs k lo mid else Inr (bs ! mid))"
      using True by (subst bsb_loop.simps) (simp add: Let_def mid_def)
    consider (right) "bm_max_key (bs ! mid) < k" | (left) "\<not> bm_max_key (bs ! mid) < k" "k < bm_min_key (bs ! mid)"
      | (hit) "\<not> bm_max_key (bs ! mid) < k" "\<not> k < bm_min_key (bs ! mid)" by blast
    then show ?thesis
    proof cases
      case right
      have "bm_max_key (bs ! i) < k" if "i < mid + 1" "i < length bs" for i
        using blocks_sorted_bounds(1) [OF assms(1), of i mid] that mid right by force
      then show ?thesis using less.hyps [of hi "mid + 1"] less.prems mid right by (simp add: step)
    next
      case left
      have "k < bm_min_key (bs ! i)" if "mid \<le> i" "i < length bs" for i
        using blocks_sorted_bounds(2) [OF assms(1), of mid i] that left by force
      then show ?thesis using less.hyps [of mid lo] less.prems mid left by (simp add: step)
    next
      case hit
      then have "covers_key k (bs ! mid)" by (simp add: covers_key_def not_less)
      with hit mid show ?thesis by (simp add: step)
    qed
  next
    case False
    have "\<not> covers_key k (bs ! i)" if "i < length bs" for i
    proof (cases "i < lo")
      case True
      then show ?thesis using that less.prems by (auto simp: covers_key_def)
    next
      case F: False
      then have "k < bm_min_key (bs ! i)" using that less.prems(3) False by simp
      then show ?thesis by (auto simp: covers_key_def)
    qed
    then have "\<forall>b\<in>set bs. \<not> covers_key k b" by (auto simp: in_set_conv_nth)
    then show ?thesis using False by (subst bsb_loop.simps) simp
  qed
qed

lemma binary_search_block_cases:
  assumes "blocks_sorted bs"
  shows "case binary_search_block bs k of Some b \<Rightarrow> b \<in> set bs \<and> covers_key k b
    | None \<Rightarrow> \<forall>b\<in>set bs. \<not> covers_key k b"
proof -
  have "case bsb_loop bs k 0 (length bs) of Inr b \<Rightarrow> b \<in> set bs \<and> covers_key k b
    | Inl l \<Rightarrow> \<forall>b\<in>set bs. \<not> covers_key k b"
    by (rule bsb_loop_spec [OF assms]) simp_all
  then show ?thesis
    by (cases "bsb_loop bs k 0 (length bs)") (auto simp: binary_search_block_def covers_key_def)
qed

text \<open>The binary search over a table's blocks is correct: with blocks in key order it returns a block whose
  key range contains the key exactly when there is one.\<close>

theorem binary_search_block_correct:
  assumes "blocks_sorted bs"
  shows "(\<forall>b. binary_search_block bs k = Some b \<longrightarrow> b \<in> set bs \<and> covers_key k b)
    \<and> (binary_search_block bs k = None \<longleftrightarrow> (\<forall>b\<in>set bs. \<not> covers_key k b))"
  using binary_search_block_cases [OF assms, of k] by (auto split: option.splits)

theorem binary_search_block_correct_witness:
  "binary_search_block (map (from_block_info 3) [block_info 0 [delete_rec [1] 5 2], block_info 1 [delete_rec [4] 5 2]]) [4]
   \<noteq> None"
proof -
  let ?bs = "map (from_block_info 3) [block_info 0 [delete_rec [1] 5 2], block_info 1 [delete_rec [4] 5 2]]"
  have "blocks_sorted ?bs" by (simp add: blocks_sorted_def from_block_info_def block_info_def)
  from binary_search_block_correct [OF this, of "[4]"] show ?thesis
    by (auto simp: covers_key_def from_block_info_def block_info_def)
qed

section \<open>Point lookups\<close>

text \<open>What one table contributes to a point lookup.\<close>

definition table_answer :: "BlockMetaIndex \<Rightarrow> bytes \<Rightarrow> int \<Rightarrow> (BlockMeta \<Rightarrow> 'a option) \<Rightarrow> nat \<Rightarrow> 'a option" where
  "table_answer ix k now_us f sid =
     (case map_of (sst_blocks ix) sid of None \<Rightarrow> None
      | Some blocks \<Rightarrow>
          if bloom_may_contain ix sid k
          then case binary_search_block blocks k of None \<Rightarrow> None
               | Some m \<Rightarrow> if is_expired now_us m then None else f m
          else None)"

lemma point_loop_first:
  assumes "bt_ok (sst_blocks ix)" "sst_blocks ix = done' @ todo"
    and "\<forall>sid\<in>fst ` set done'. table_answer ix k now_us f sid = None"
  shows "case point_loop ix k now_us f todo of
      None \<Rightarrow> \<forall>sid. table_answer ix k now_us f sid = None
    | Some r \<Rightarrow> \<exists>sid. table_answer ix k now_us f sid = Some r
        \<and> (\<forall>sid'. table_answer ix k now_us f sid' \<noteq> None \<longrightarrow> sid \<le> sid')"
  using assms(2,3)
proof (induction todo arbitrary: done')
  case Nil
  have "table_answer ix k now_us f sid = None" for sid
  proof (cases "map_of (sst_blocks ix) sid")
    case (Some bs)
    then have "sid \<in> fst ` set done'" using Nil by (force dest: map_of_SomeD)
    then show ?thesis by (rule bspec [OF Nil(2)])
  qed (simp add: table_answer_def)
  then show ?case by simp
next
  case (Cons p rest)
  obtain sid bs where p: "p = (sid, bs)" by (cases p)
  have m: "map_of (sst_blocks ix) sid = Some bs"
    using Cons.prems(1) p by (subst map_of_eq_Some_iff [OF bt_ok_distinct [OF assms(1)]]) simp
  show ?case
  proof (cases "table_answer ix k now_us f sid")
    case None
    then have "point_loop ix k now_us f (p # rest) = point_loop ix k now_us f rest"
      using m by (auto simp: p table_answer_def split: option.splits if_splits)
    moreover have "\<forall>s\<in>fst ` set (done' @ [p]). table_answer ix k now_us f s = None"
      using Cons.prems(2) None p by auto
    ultimately show ?thesis using Cons.IH [of "done' @ [p]"] Cons.prems(1) by simp
  next
    case (Some r)
    then have "point_loop ix k now_us f (p # rest) = Some r"
      using m by (auto simp: p table_answer_def split: option.splits if_splits)
    moreover have "sid \<le> sid'" if "table_answer ix k now_us f sid' \<noteq> None" for sid'
    proof -
      from that have "sid' \<in> fst ` set (sst_blocks ix)"
        by (force simp: table_answer_def split: option.splits dest: map_of_SomeD)
      moreover have "sid' \<notin> fst ` set done'"
      proof
        assume "sid' \<in> fst ` set done'"
        from bspec [OF Cons.prems(2) this] that show False by simp
      qed
      ultimately have "sid' \<in> fst ` set (p # rest)" using Cons.prems(1) by auto
      then show ?thesis using assms(1) Cons.prems(1) p by (auto simp: bt_ok_def sorted_wrt_append)
    qed
    ultimately show ?thesis using Some by auto
  qed
qed

text \<open>A point lookup over the tables returns the answer of the table with the \<open>lowest\<close> id that has one, and
  \<open>None\<close> exactly when no table answers.  Ids grow with time, so of several tables that hold a version of
  the key the oldest is returned.\<close>

theorem point_lookup_lowest_table:
  assumes "ix_reach ix"
  shows "(query_point_inline ix k now_us f = None \<longleftrightarrow> (\<forall>sid. table_answer ix k now_us f sid = None))
    \<and> (\<forall>r. query_point_inline ix k now_us f = Some r \<longrightarrow>
         (\<exists>sid. table_answer ix k now_us f sid = Some r
            \<and> (\<forall>sid'. table_answer ix k now_us f sid' \<noteq> None \<longrightarrow> sid \<le> sid')))"
proof -
  have "bt_ok (sst_blocks ix)" using ix_reach_ok [OF assms] by (simp add: ix_ok_def)
  from point_loop_first [OF this, of "[]" "sst_blocks ix" k now_us f] show ?thesis
    by (cases "query_point_inline ix k now_us f") (simp_all add: query_point_inline_def, blast)
qed

theorem point_lookup_lowest_table_witness:
  "query_point_inline (ix_add_sst 7 [block_info 0 [delete_rec [1] 5 9]]
      (ix_add_sst 3 [block_info 0 [delete_rec [1] 5 2]] (Index_new 1))) [1] 0 (\<lambda>m. Some (bm_sst_id m)) = Some 3"
proof -
  define ix where "ix = ix_add_sst 7 [block_info 0 [delete_rec [1] 5 9]]
      (ix_add_sst 3 [block_info 0 [delete_rec [1] 5 2]] (Index_new 1))"
  let ?f = "\<lambda>m. Some (bm_sst_id m)"
  have sb: "sst_blocks ix = [(3, [from_block_info 3 (block_info 0 [delete_rec [1] 5 2])]),
      (7, [from_block_info 7 (block_info 0 [delete_rec [1] 5 9])])]"
    by (simp add: ix_def ix_add_sst_def Index_new_def fold_add_meta add_meta_def Let_def)
  have bl: "blooms ix = Map.empty" by (simp add: ix_def ix_add_sst_def Index_new_def add_meta_def Let_def)
  have r: "ix_reach ix" unfolding ix_def
    by (intro ix_reach.intros) (simp_all add: Index_new_def ix_add_sst_def add_meta_def Let_def)
  have a: "table_answer ix [1] 0 ?f 3 = Some 3"
    by (simp add: table_answer_def sb bl bloom_may_contain_def binary_search_block_def bsb_loop.simps from_block_info_def
        block_info_def is_expired_def max_or0_def i64_max_def)
  from point_lookup_lowest_table [OF r, of "[1]" 0 ?f] obtain sid x
    where x: "query_point_inline ix [1] 0 ?f = Some x" "table_answer ix [1] 0 ?f sid = Some x" "sid \<le> 3"
    using a by (metis not_None_eq)
  then have "sid = 3" by (auto simp: table_answer_def sb split: option.splits if_splits)
  with x a have "query_point_inline ix [1] 0 ?f = Some 3" by simp
  then show ?thesis unfolding ix_def .
qed

end
