(* ===== verification/Write_Worker.thy ===== *)
theory Write_Worker
  imports Wal_Log Memtable Block_Index
begin

text \<open>
  \<^verbatim>\<open>src/write_worker.rs\<close>, first half: the worker that owns the log, the memtables, the manifest and the
  index, and its two operations, committing a group of batches and flushing a memtable to an SSTable.
  The counters of \<^verbatim>\<open>stats.rs\<close> are left out (nothing reads them); the clock is a parameter.
  The result: as long as batches commit in sequence order, every record of an acknowledged batch is,
  at any later time, in the log above the flushed sequence number or in an SSTable of the manifest
  (unless it expired before a flush).
\<close>

section \<open>State\<close>

record WriteWorker =
  ww_config :: Config
  ww_wal :: Wal
  ww_memtables :: MemTables
  ww_manifest :: Manifest
  ww_index :: BlockMetaIndex
  ww_ssts :: "nat \<rightharpoonup> bytes"

text \<open>The field \<open>ww_ssts\<close> is the directory \<^verbatim>\<open>SST/\<close>: file content by table id.\<close>

record Submission =
  sub_records :: "InternalRecord list"
  sub_wal_buf :: bytes
  sub_batch_max_seq :: nat
  sub_sync_mode :: SyncMode

section \<open>Flush\<close>

definition max_seq_of :: "InternalRecord list \<Rightarrow> nat" where
  "max_seq_of rs = foldl max 0 (map seq rs)"

definition flush_info :: "nat \<Rightarrow> InternalRecord list \<Rightarrow> nat \<Rightarrow> BloomFilter \<Rightarrow> SstInfo" where
  "flush_info sid rs n bl =
     \<lparr>sst_id = sid, sst_records = length rs, sst_bytes = n,
      sst_min_ts = min_or0 (map ts rs), sst_max_ts = max_or0 (map ts rs),
      sst_min_expire = min_or0 (map expire_at rs), sst_max_expire = max_or0 (map expire_at rs),
      sst_bloom = Some bl\<rparr>"

definition do_flush :: "(bytes \<Rightarrow> bytes) \<Rightarrow> (ManifestEntry \<Rightarrow> string) \<Rightarrow> int \<Rightarrow> WriteWorker \<Rightarrow> WriteWorker" where
  "do_flush compress ser now_us w =
     (let (ms, fr) = pop_frozen (fst (freeze (ww_memtables w)));
          w = w\<lparr>ww_memtables := ms\<rparr>
      in case fr of
           None \<Rightarrow> w
         | Some f \<Rightarrow>
             let all_records = filter (\<lambda>r. now_us < expire_at r) (records f)
             in if all_records = [] then w
                else let sid = next_sst_id (ww_manifest w);
                         (file, n, infos, bl) = sst_write compress all_records (block_size (ww_config w))
                                                  (bloom_bits_per_key (ww_config w));
                         last_seq = max_seq_of all_records;
                         mf = manifest_append ser (Flush last_seq (flush_info sid all_records n bl) infos)
                                (ww_manifest w);
                         mf = manifest_append ser (Checkpoint last_seq) mf
                     in w\<lparr>ww_ssts := (ww_ssts w)(sid \<mapsto> file),
                          ww_manifest := mf,
                          ww_index := set_bloom sid bl (ix_add_sst sid infos (ww_index w)),
                          ww_wal := wal_sync_all (truncate_before last_seq (ww_wal w))\<rparr>)"

section \<open>Group commit of batches\<close>

definition process_batch_inner :: "Submission \<Rightarrow> WriteWorker \<Rightarrow> WriteWorker" where
  "process_batch_inner s w =
     w\<lparr>ww_wal := write_encoded (sub_wal_buf s) (sub_batch_max_seq s) (ww_wal w),
       ww_memtables := fold mts_insert (sub_records s) (ww_memtables w)\<rparr>"

text \<open>The backpressure loop; it does not end when \<open>max_frozen\<close> is 0, so not returning is \<open>None\<close>.\<close>

partial_function (option) flush_while ::
    "(bytes \<Rightarrow> bytes) \<Rightarrow> (ManifestEntry \<Rightarrow> string) \<Rightarrow> int \<Rightarrow> WriteWorker \<Rightarrow> WriteWorker option" where
  "flush_while compress ser now_us w =
     (if frozen_backpressure (ww_memtables w)
      then flush_while compress ser now_us (do_flush compress ser now_us w)
      else Some w)"

definition process_batch_group :: "(bytes \<Rightarrow> bytes) \<Rightarrow> (ManifestEntry \<Rightarrow> string) \<Rightarrow> int \<Rightarrow> Submission list
    \<Rightarrow> WriteWorker \<Rightarrow> WriteWorker option" where
  "process_batch_group compress ser now_us subs w =
     map_option (\<lambda>w.
       let w = fold process_batch_inner subs w;
           w = (if \<exists>s\<in>set subs. sub_sync_mode s = Always then w\<lparr>ww_wal := wal_sync_all (ww_wal w)\<rparr> else w)
       in if should_flush (ww_memtables w) then do_flush compress ser now_us w else w)
     (flush_while compress ser now_us w)"

section \<open>Termination of the backpressure loop\<close>

lemma do_flush_memtables:
  "ww_memtables (do_flush compress ser now_us w) = fst (pop_frozen (fst (freeze (ww_memtables w))))"
  by (auto simp: do_flush_def Let_def split: prod.split option.split)

lemma do_flush_config [simp]: "ww_config (do_flush compress ser now_us w) = ww_config w"
  by (auto simp: do_flush_def Let_def split: prod.split option.split)

lemma freeze_pop_fields:
  "max_frozen (fst (pop_frozen (fst (freeze ms)))) = max_frozen ms"
  "memtable_size_limit (fst (pop_frozen (fst (freeze ms)))) = memtable_size_limit ms"
  "records (active (fst (pop_frozen (fst (freeze ms))))) = []"
  "length (frozen (fst (pop_frozen (fst (freeze ms))))) =
     (if records (active ms) = [] then length (frozen ms) - 1 else length (frozen ms))"
  by (auto simp: freeze_def pop_frozen_def split: list.splits)

text \<open>The measure: frozen tables, plus one for a non-empty active table.\<close>

definition pending_tables :: "MemTables \<Rightarrow> nat" where
  "pending_tables ms = length (frozen ms) + (if records (active ms) = [] then 0 else 1)"

lemma pending_decreases:
  "pending_tables ms \<noteq> 0 \<Longrightarrow> pending_tables (fst (pop_frozen (fst (freeze ms)))) < pending_tables ms"
  by (auto simp: pending_tables_def freeze_pop_fields split: if_splits)

lemma flush_while_terminates:
  "0 < max_frozen (ww_memtables w) \<Longrightarrow>
   \<exists>w'. flush_while compress ser now_us w = Some w' \<and> \<not> frozen_backpressure (ww_memtables w')"
proof (induction "pending_tables (ww_memtables w)" arbitrary: w rule: less_induct)
  case less
  show ?case
  proof (cases "frozen_backpressure (ww_memtables w)")
    case False
    then show ?thesis by (subst flush_while.simps) simp
  next
    case True
    let ?w = "do_flush compress ser now_us w"
    have "pending_tables (ww_memtables w) \<noteq> 0"
      using True less.prems by (auto simp: frozen_backpressure_def pending_tables_def)
    then have "pending_tables (ww_memtables ?w) < pending_tables (ww_memtables w)"
      using pending_decreases by (simp add: do_flush_memtables)
    moreover have "0 < max_frozen (ww_memtables ?w)"
      using less.prems by (simp add: do_flush_memtables freeze_pop_fields)
    ultimately obtain w' where "flush_while compress ser now_us ?w = Some w'" "\<not> frozen_backpressure (ww_memtables w')"
      using less.hyps by blast
    with True show ?thesis by (subst flush_while.simps) simp
  qed
qed

text \<open>C32. Backpressure ends: with a configuration that passed validation (at least one frozen table allowed)
  committing a group always returns, and the loop leaves fewer frozen tables than the limit before
  the batches are written.\<close>

theorem process_batch_group_terminates:
  assumes "0 < max_frozen (ww_memtables w)"
  shows "(\<exists>w'. process_batch_group compress ser now_us subs w = Some w')
    \<and> (\<exists>v. flush_while compress ser now_us w = Some v \<and> length (frozen (ww_memtables v)) < max_frozen (ww_memtables v))"
  using flush_while_terminates [OF assms, of compress ser now_us]
  by (auto simp: process_batch_group_def frozen_backpressure_def not_le)

theorem process_batch_group_terminates_witness:
  "\<exists>w'. process_batch_group (\<lambda>d. d) unary_ser 0 []
     \<lparr>ww_config = Config_default, ww_wal = Wal_open [] 64, ww_memtables = MemTables_new 2 100,
      ww_manifest = Manifest_open unary_de None, ww_index = Index_new 3600, ww_ssts = Map.empty\<rparr> = Some w'"
  using process_batch_group_terminates [of "\<lparr>ww_config = Config_default, ww_wal = Wal_open [] 64,
      ww_memtables = MemTables_new 2 100, ww_manifest = Manifest_open unary_de None, ww_index = Index_new 3600,
      ww_ssts = Map.empty\<rparr>" "\<lambda>d. d" unary_ser 0 "[]"]
  by (simp add: MemTables_new_def)

section \<open>Where a record is stored\<close>

definition sst_holds :: "(bytes \<Rightarrow> nat \<Rightarrow> string + bytes) \<Rightarrow> nat \<Rightarrow> bytes \<Rightarrow> InternalRecord \<Rightarrow> bool" where
  "sst_holds decompress sid file x \<longleftrightarrow>
     (\<exists>rd i rs. SstReader_open file sid = Inr rd \<and> i < block_count rd
        \<and> read_block_inner decompress rd i = Inr rs \<and> x \<in> set rs)"

abbreviation flushed_seq :: "WriteWorker \<Rightarrow> nat" where
  "flushed_seq w \<equiv> last_flushed_seq (mstate (ww_manifest w))"

text \<open>In the log above the flushed sequence number (so a restart replays it), or in a table of the manifest.\<close>

definition stored :: "(bytes \<Rightarrow> nat \<Rightarrow> string + bytes) \<Rightarrow> WriteWorker \<Rightarrow> InternalRecord \<Rightarrow> bool" where
  "stored decompress w r \<longleftrightarrow>
     (r \<in> set (log_of (ww_wal w)) \<and> flushed_seq w < seq r)
     \<or> (\<exists>sid file. map_of (sstables (mstate (ww_manifest w))) sid \<noteq> None
          \<and> ww_ssts w sid = Some file \<and> sst_holds decompress sid file (forget_seq r))"

text \<open>Every block a flush can form from the records \<open>R\<close> fits the 32-bit length fields.\<close>

definition flushable :: "(bytes \<Rightarrow> bytes) \<Rightarrow> nat \<Rightarrow> InternalRecord set \<Rightarrow> bool" where
  "flushable compress bs R \<longleftrightarrow> (\<forall>c. set c \<subseteq> R \<longrightarrow> length c \<le> max bs 1 \<longrightarrow> chunk_ok compress c)"

lemma flushable_file:
  assumes "lz4_ok compress decompress" "flushable compress bs R" "set rs \<subseteq> R"
  obtains rd where "SstReader_open (concat (map (block_bytes compress) (chunks (max bs 1) rs))) sid = Inr rd"
    "rd_sst_id rd = sid" "block_count rd = length (chunks (max bs 1) rs)"
    "\<forall>i<length (chunks (max bs 1) rs). read_block_inner decompress rd i = Inr (map forget_seq (chunks (max bs 1) rs ! i))"
proof -
  have "chunk_ok compress c" if "c \<in> set (chunks (max bs 1) rs)" for c
  proof -
    have "set c \<subseteq> set rs" using that concat_chunks [of "max bs 1" rs] by (metis UN_upper set_concat)
    with chunks_length [OF that] assms(2,3) show ?thesis by (auto simp: flushable_def)
  qed
  with sst_file_blocks [OF assms(1), of "chunks (max bs 1) rs" sid] that show thesis by blast
qed

lemma sst_write_holds:
  assumes "lz4_ok compress decompress" "flushable compress bs R" "set rs \<subseteq> R" "r \<in> set rs"
  shows "sst_holds decompress sid (fst (sst_write compress rs bs bpk)) (forget_seq r)"
proof -
  let ?cs = "chunks (max bs 1) rs"
  from flushable_file [OF assms(1-3), of sid] obtain rd
    where rd: "SstReader_open (concat (map (block_bytes compress) ?cs)) sid = Inr rd"
      "block_count rd = length ?cs" "\<forall>i<length ?cs. read_block_inner decompress rd i = Inr (map forget_seq (?cs ! i))" by blast
  obtain c where "c \<in> set ?cs" "r \<in> set c" using assms(4) concat_chunks [of "max bs 1" rs] by (metis UN_E set_concat)
  then obtain i where i: "i < length ?cs" "r \<in> set (?cs ! i)" by (metis in_set_conv_nth)
  then have "forget_seq r \<in> set (map forget_seq (?cs ! i))" by simp
  then show ?thesis unfolding sst_holds_def using rd i by (auto simp: sst_write_eq)
qed

section \<open>The worker invariant\<close>

definition wk_inv :: "InternalRecord set \<Rightarrow> int \<Rightarrow> WriteWorker \<Rightarrow> bool" where
  "wk_inv R T w \<longleftrightarrow>
     wal_ok (ww_wal w) \<and> mts_reach (ww_memtables w)
     \<and> (\<forall>r\<in>set (mts_all (ww_memtables w)). r \<in> set (log_of (ww_wal w)) \<and> flushed_seq w < seq r \<and> r \<in> R)
     \<and> (\<forall>r\<in>set (log_of (ww_wal w)). flushed_seq w < seq r \<longrightarrow>
          r \<in> set (mts_all (ww_memtables w)) \<or> expire_at r \<le> T)"

text \<open>What a flush does to the state, in the terms of the invariant: the popped records \<open>P\<close> leave memory,
  and where \<open>S\<close> is what is left of them, either nothing else changes or \<open>S\<close> becomes a new table.\<close>

lemma do_flush_cases:
  obtains (idle) "do_flush compress ser now_us w = w\<lparr>ww_memtables := fst (pop_frozen (fst (freeze (ww_memtables w))))\<rparr>"
      "snd (pop_frozen (fst (freeze (ww_memtables w)))) = None"
  | (dropped) f where "pop_frozen (fst (freeze (ww_memtables w))) = (fst (pop_frozen (fst (freeze (ww_memtables w)))), Some f)"
      "filter (\<lambda>r. now_us < expire_at r) (records f) = []"
      "do_flush compress ser now_us w = w\<lparr>ww_memtables := fst (pop_frozen (fst (freeze (ww_memtables w))))\<rparr>"
  | (written) f rs sid infos n bl where
      "pop_frozen (fst (freeze (ww_memtables w))) = (fst (pop_frozen (fst (freeze (ww_memtables w)))), Some f)"
      "rs = filter (\<lambda>r. now_us < expire_at r) (records f)" "rs \<noteq> []" "sid = next_sst_id (ww_manifest w)"
      "do_flush compress ser now_us w = w\<lparr>ww_memtables := fst (pop_frozen (fst (freeze (ww_memtables w)))),
          ww_ssts := (ww_ssts w)(sid \<mapsto> fst (sst_write compress rs (block_size (ww_config w)) (bloom_bits_per_key (ww_config w)))),
          ww_manifest := manifest_append ser (Checkpoint (max_seq_of rs))
            (manifest_append ser (Flush (max_seq_of rs) (flush_info sid rs n bl) infos) (ww_manifest w)),
          ww_index := set_bloom sid bl (ix_add_sst sid infos (ww_index w)),
          ww_wal := wal_sync_all (truncate_before (max_seq_of rs) (ww_wal w))\<rparr>"
      "snd (snd (sst_write compress rs (block_size (ww_config w)) (bloom_bits_per_key (ww_config w)))) = (infos, bl)"
proof -
  obtain ms fr where p: "pop_frozen (fst (freeze (ww_memtables w))) = (ms, fr)" by fastforce
  show thesis
  proof (cases fr)
    case None
    then show thesis using p by (intro idle) (simp_all add: do_flush_def)
  next
    case (Some f)
    let ?rs = "filter (\<lambda>r. now_us < expire_at r) (records f)"
    show thesis
    proof (cases "?rs = []")
      case True
      then show thesis using p Some by (intro dropped) (simp_all add: do_flush_def Let_def)
    next
      case False
      obtain f' n infos bl where s: "sst_write compress ?rs (block_size (ww_config w)) (bloom_bits_per_key (ww_config w))
          = (f', n, infos, bl)" by (metis prod_cases4)
      show thesis
        by (rule written [where f = f and rs = ?rs and sid = "next_sst_id (ww_manifest w)" and n = n and bl = bl and infos = infos])
          (use p Some False s in \<open>simp_all add: do_flush_def Let_def\<close>)
    qed
  qed
qed

lemma max_seq_of_ge: "r \<in> set rs \<Longrightarrow> seq r \<le> max_seq_of rs"
  using foldl_max_ge [of 0 "map seq rs"] by (simp add: max_seq_of_def)

lemma max_seq_of_in: "rs \<noteq> [] \<Longrightarrow> max_seq_of rs = 0 \<or> max_seq_of rs \<in> seq ` set rs"
proof -
  have "foldl max a xs = a \<or> foldl max a xs \<in> set xs" for a :: nat and xs
  proof (induction xs arbitrary: a)
    case (Cons x xs)
    from Cons.IH [of "max a x"] show ?case by (auto simp: max_def split: if_splits)
  qed simp
  from this [of 0 "map seq rs"] show ?thesis by (auto simp: max_seq_of_def)
qed

lemma manifest_flush_state:
  "last_flushed_seq (mstate (manifest_append ser (Checkpoint q)
     (manifest_append ser (Flush q (flush_info sid rs n bl) infos) m))) = max (last_flushed_seq (mstate m)) q"
  "map_of (sstables (mstate (manifest_append ser (Checkpoint q)
     (manifest_append ser (Flush q (flush_info sid rs n bl) infos) m)))) =
     (map_of (sstables (mstate m)))(sid \<mapsto> flush_info sid rs n bl)"
  by (simp_all add: manifest_append_def flush_info_def)

lemma next_sst_id_fresh: "map_of (sstables (mstate m)) (next_sst_id m) = None"
proof -
  have "x \<in> set xs \<Longrightarrow> x \<le> foldr max xs (0 :: nat)" for x xs by (induction xs) auto
  then have "\<forall>i\<in>fst ` set (sstables (mstate m)). i < next_sst_id m"
    by (auto simp: next_sst_id_def less_Suc_eq_le)
  then show ?thesis by (force simp: map_of_eq_None_iff)
qed

lemma freeze_pop_idle:
  assumes "snd (pop_frozen (fst (freeze ms))) = None"
  shows "mts_all (fst (pop_frozen (fst (freeze ms)))) = mts_all ms"
  using assms by (auto simp: freeze_def pop_frozen_def split: list.splits if_splits)

lemma freeze_pop_popped:
  assumes "mts_reach ms" and "pop_frozen (fst (freeze ms)) = (ms', Some f)"
  shows "set (mts_all ms) = set (records f) \<union> set (mts_all ms')"
    and "\<forall>x\<in>set (records f). \<forall>y\<in>set (mts_all ms'). seq x < seq y"
proof -
  let ?f = "fst (freeze ms)"
  have ok: "mts_ok ?f" using assms(1) by (intro mts_reach_ok mts_reach.intros)
  have fr: "set (mts_all ?f) = set (mts_all ms)" by (auto simp: freeze_def mts_all_def)
  from assms(2) have q: "frozen ?f = f # frozen ms'" "active ms' = active ?f"
    by (auto simp: pop_frozen_def split: list.splits)
  show "set (mts_all ms) = set (records f) \<union> set (mts_all ms')"
    unfolding fr [symmetric] by (auto simp: mts_all_def q)
  have "older f (active ?f)" "\<forall>b\<in>set (frozen ms'). older f b" using ok q(1) by (auto simp: mts_ok_def)
  then show "\<forall>x\<in>set (records f). \<forall>y\<in>set (mts_all ms'). seq x < seq y"
    using q by (auto simp: mts_all_def older_def)
qed

lemma wk_inv_mono: "wk_inv R T w \<Longrightarrow> T \<le> T' \<Longrightarrow> wk_inv R T' w"
  unfolding wk_inv_def by (meson order_trans)

lemma mts_reach_flush: "mts_reach ms \<Longrightarrow> mts_reach (fst (pop_frozen (fst (freeze ms))))"
  by (intro mts_reach.intros)

lemma do_flush_step:
  fixes ser :: "ManifestEntry \<Rightarrow> string"
  assumes inv: "wk_inv R T w" and lz4: "lz4_ok compress decompress"
    and fl: "flushable compress (block_size (ww_config w)) R" and T: "T \<le> now_us"
  defines "w' \<equiv> do_flush compress ser now_us w"
  shows "wk_inv R now_us w' \<and> (\<forall>r. stored decompress w r \<longrightarrow> now_us < expire_at r \<longrightarrow> stored decompress w' r)"
proof -
  let ?ms' = "fst (pop_frozen (fst (freeze (ww_memtables w))))"
  have r: "mts_reach ?ms'" using inv by (simp add: wk_inv_def mts_reach_flush)
  have wal: "wal_ok (ww_wal w)"
    and mem: "\<And>r. r \<in> set (mts_all (ww_memtables w)) \<Longrightarrow> r \<in> set (log_of (ww_wal w)) \<and> flushed_seq w < seq r \<and> r \<in> R"
    and log: "\<And>r. r \<in> set (log_of (ww_wal w)) \<Longrightarrow> flushed_seq w < seq r \<Longrightarrow>
        r \<in> set (mts_all (ww_memtables w)) \<or> expire_at r \<le> now_us"
    using inv T unfolding wk_inv_def by (blast intro: order_trans)+
  show ?thesis
  proof (cases rule: do_flush_cases [of compress ser now_us w])
    case idle
    then have "set (mts_all ?ms') = set (mts_all (ww_memtables w))" by (simp add: freeze_pop_idle)
    then show ?thesis
      using idle wal mem log r by (simp add: w'_def wk_inv_def stored_def)
  next
    case (dropped f)
    have m: "set (mts_all (ww_memtables w)) = set (records f) \<union> set (mts_all ?ms')"
      using inv freeze_pop_popped(1) [OF _ dropped(1)] by (simp add: wk_inv_def)
    have "expire_at r \<le> now_us" if "r \<in> set (records f)" for r
      using that dropped(2) by (force simp: filter_empty_conv not_less)
    then show ?thesis
      using dropped(3) wal mem log r m by (auto simp: w'_def wk_inv_def stored_def)
  next
    case (written f rs sid infos n bl)
    let ?q = "max_seq_of rs"
    have m: "set (mts_all (ww_memtables w)) = set (records f) \<union> set (mts_all ?ms')"
      and old: "\<forall>x\<in>set (records f). \<forall>y\<in>set (mts_all ?ms'). seq x < seq y"
      using inv freeze_pop_popped [OF _ written(1)] by (simp_all add: wk_inv_def)
    have w': "ww_memtables w' = ?ms'" "ww_wal w' = wal_sync_all (truncate_before ?q (ww_wal w))"
      "flushed_seq w' = max (flushed_seq w) ?q"
      "map_of (sstables (mstate (ww_manifest w'))) = (map_of (sstables (mstate (ww_manifest w))))(sid \<mapsto> flush_info sid rs n bl)"
      "ww_ssts w' = (ww_ssts w)(sid \<mapsto> fst (sst_write compress rs (block_size (ww_config w)) (bloom_bits_per_key (ww_config w))))"
      unfolding w'_def written(5) by (simp_all add: manifest_flush_state)
    have t: "wal_ok (truncate_before ?q (ww_wal w))"
      "filter (\<lambda>r. ?q < seq r) (log_of (truncate_before ?q (ww_wal w))) = filter (\<lambda>r. ?q < seq r) (log_of (ww_wal w))"
      using truncate_before_spec [OF wal] by blast+
    have wal': "wal_ok (ww_wal w')" "log_of (ww_wal w') = log_of (truncate_before ?q (ww_wal w))"
      unfolding w' using wal_sync_all_spec [OF t(1)] by blast+
    have keep: "r \<in> set (log_of (ww_wal w')) \<longleftrightarrow> r \<in> set (log_of (ww_wal w))" if "?q < seq r" for r
      using arg_cong [OF t(2), of set] that unfolding wal' by auto
    have rs: "set rs \<subseteq> set (records f)" using written(2) by auto
    have above: "?q < seq y" if "y \<in> set (mts_all ?ms')" for y
    proof -
      from max_seq_of_in [OF written(3)] consider "?q = 0" | x where "x \<in> set rs" "?q = seq x" by auto
      then show ?thesis
      proof cases
        case 1
        obtain x where "x \<in> set rs" using written(3) by (cases rs) auto
        then have "seq x < seq y" using that old rs by blast
        then show ?thesis using 1 by simp
      next
        case 2
        then show ?thesis using that old rs by auto
      qed
    qed
    have I3: "r \<in> set (log_of (ww_wal w')) \<and> flushed_seq w' < seq r \<and> r \<in> R" if "r \<in> set (mts_all ?ms')" for r
      using mem [of r] m that above [OF that] keep [of r] by (simp add: w'(3))
    have holds: "stored decompress w' r" if "r \<in> set rs" for r
    proof -
      have "set rs \<subseteq> R" using rs m mem by blast
      then have "sst_holds decompress sid (fst (sst_write compress rs (block_size (ww_config w)) (bloom_bits_per_key (ww_config w)))) (forget_seq r)"
        using sst_write_holds [OF lz4 fl _ that] by blast
      then show ?thesis unfolding stored_def by (auto simp: w')
    qed
    have log': "r \<in> set (mts_all ?ms') \<or> r \<in> set rs \<or> expire_at r \<le> now_us"
      if "r \<in> set (log_of (ww_wal w))" "flushed_seq w < seq r" for r
      using log [OF that] m written(2) by (auto simp: not_less)
    have "stored decompress w' r" if "stored decompress w r" "now_us < expire_at r" for r
    proof -
      consider "r \<in> set (log_of (ww_wal w))" "flushed_seq w < seq r"
        | s fc where "map_of (sstables (mstate (ww_manifest w))) s \<noteq> None" "ww_ssts w s = Some fc"
          "sst_holds decompress s fc (forget_seq r)" using \<open>stored decompress w r\<close> unfolding stored_def by blast
      then show ?thesis
      proof cases
        case 1
        with log' [OF 1] that(2) consider "r \<in> set (mts_all ?ms')" | "r \<in> set rs" by auto
        then show ?thesis by cases (use I3 holds in \<open>auto simp: stored_def\<close>)
      next
        case (2 s fc)
        then have "s \<noteq> sid" using next_sst_id_fresh [of "ww_manifest w"] written(4) by auto
        with 2 show ?thesis unfolding stored_def w' by auto
      qed
    qed
    moreover have "r \<in> set (mts_all ?ms') \<or> expire_at r \<le> now_us"
      if "r \<in> set (log_of (ww_wal w'))" "flushed_seq w' < seq r" for r
      using that keep [of r] log' [of r] max_seq_of_ge [of r rs] by (auto simp: w'(3))
    ultimately show ?thesis unfolding wk_inv_def using wal'(1) r I3 by (simp add: w'(1))
  qed
qed

section \<open>Committing\<close>

definition below :: "nat \<Rightarrow> WriteWorker \<Rightarrow> bool" where
  "below b w \<longleftrightarrow> flushed_seq w < b \<and> (\<forall>r\<in>set (mts_all (ww_memtables w)). seq r < b)"

text \<open>A group whose records carry fresh, growing sequence numbers and whose buffers were encoded from them.\<close>

definition batch_ok :: "InternalRecord set \<Rightarrow> WriteWorker \<Rightarrow> Submission list \<Rightarrow> bool" where
  "batch_ok R w subs \<longleftrightarrow>
     sorted_wrt (<) (map seq (concat (map sub_records subs)))
     \<and> (\<forall>r\<in>set (concat (map sub_records subs)). below (seq r) w \<and> wal_rec_ok r \<and> r \<in> R)
     \<and> (\<forall>s\<in>set subs. sub_wal_buf s = fst (encode_batch (sub_records s))
          \<and> (\<forall>r\<in>set (sub_records s). seq r \<le> sub_batch_max_seq s))"

lemma mts_all_insert [simp]: "set (mts_all (mts_insert r ms)) = insert r (set (mts_all ms))"
  by (auto simp: mts_insert_def mts_all_def)

lemma mts_all_inserts: "set (mts_all (fold mts_insert rs ms)) = set rs \<union> set (mts_all ms)"
  by (induction rs arbitrary: ms) auto

lemma mts_reach_inserts:
  assumes "mts_reach ms" "sorted_wrt (<) (map seq rs)" "\<forall>r\<in>set rs. \<forall>x\<in>set (mts_all ms). seq x < seq r"
  shows "mts_reach (fold mts_insert rs ms)"
  using assms
proof (induction rs arbitrary: ms)
  case (Cons r rs)
  have "mts_reach (mts_insert r ms)" using Cons.prems by (intro mts_reach.intros) auto
  then show ?case using Cons.IH [of "mts_insert r ms"] Cons.prems by simp
qed simp

lemma inserts_fields:
  "max_frozen (fold mts_insert rs ms) = max_frozen ms"
  by (induction rs arbitrary: ms) (simp_all add: mts_insert_def)

lemma inner_step:
  assumes inv: "wk_inv R T w" and ok: "batch_ok R w (s # subs)"
  shows "wk_inv R T (process_batch_inner s w) \<and> batch_ok R (process_batch_inner s w) subs
    \<and> (\<forall>r. stored decompress w r \<or> r \<in> set (sub_records s) \<longrightarrow> stored decompress (process_batch_inner s w) r)"
proof -
  let ?w = "process_batch_inner s w" and ?rs = "sub_records s"
  have s: "sub_wal_buf s = fst (encode_batch ?rs)" "\<forall>r\<in>set ?rs. seq r \<le> sub_batch_max_seq s"
    "list_all wal_rec_ok ?rs" "sorted_wrt (<) (map seq ?rs)"
    "\<forall>r\<in>set ?rs. flushed_seq w < seq r \<and> r \<in> R \<and> (\<forall>x\<in>set (mts_all (ww_memtables w)). seq x < seq r)"
    and later: "\<forall>x\<in>set ?rs. \<forall>y\<in>set (concat (map sub_records subs)). seq x < seq y"
    using ok by (auto simp: batch_ok_def below_def list_all_iff sorted_wrt_append)
  have wal: "wal_ok (ww_wal ?w)" "log_of (ww_wal ?w) = log_of (ww_wal w) @ ?rs"
    using inv write_encoded_spec [of "ww_wal w" ?rs] s by (simp_all add: wk_inv_def process_batch_inner_def)
  have m: "set (mts_all (ww_memtables ?w)) = set ?rs \<union> set (mts_all (ww_memtables w))"
    by (simp add: process_batch_inner_def mts_all_inserts)
  have f: "ww_manifest ?w = ww_manifest w" "ww_ssts ?w = ww_ssts w" by (simp_all add: process_batch_inner_def)
  have "mts_reach (ww_memtables ?w)"
    using inv s mts_reach_inserts by (simp add: wk_inv_def process_batch_inner_def)
  then have "wk_inv R T ?w"
    using inv wal(1) s(5) unfolding wk_inv_def wal(2) m f by auto
  moreover have "batch_ok R ?w subs"
    using ok later unfolding batch_ok_def below_def m f by (auto simp: sorted_wrt_append)
  moreover have "stored decompress ?w r" if "stored decompress w r \<or> r \<in> set ?rs" for r
    using that s(5) unfolding stored_def wal(2) f by auto
  ultimately show ?thesis by blast
qed

lemma inners_step:
  assumes "wk_inv R T w" "batch_ok R w subs"
  shows "wk_inv R T (fold process_batch_inner subs w)
    \<and> (\<forall>r. stored decompress w r \<or> r \<in> set (concat (map sub_records subs)) \<longrightarrow>
         stored decompress (fold process_batch_inner subs w) r)"
  using assms
proof (induction subs arbitrary: w)
  case (Cons s subs)
  note st = inner_step [OF Cons.prems, of decompress]
  with Cons.IH [of "process_batch_inner s w"] show ?case by auto
qed simp

lemma inners_fields:
  "ww_config (fold process_batch_inner subs w) = ww_config w"
  "ww_manifest (fold process_batch_inner subs w) = ww_manifest w"
  "ww_ssts (fold process_batch_inner subs w) = ww_ssts w" "ww_index (fold process_batch_inner subs w) = ww_index w"
  "max_frozen (ww_memtables (fold process_batch_inner subs w)) = max_frozen (ww_memtables w)"
  by (induction subs arbitrary: w) (simp_all add: process_batch_inner_def inserts_fields)

lemma do_flush_below:
  assumes "wk_inv R T w" "below b w"
  shows "below b (do_flush compress ser now_us w)"
proof (cases rule: do_flush_cases [of compress ser now_us w])
  case idle
  with assms show ?thesis by (simp add: below_def freeze_pop_idle)
next
  case (dropped f)
  with assms freeze_pop_popped(1) [OF _ dropped(1)] show ?thesis by (auto simp: below_def wk_inv_def)
next
  case (written f rs sid infos n bl)
  have m: "set (mts_all (ww_memtables w)) = set (records f) \<union> set (mts_all (fst (pop_frozen (fst (freeze (ww_memtables w))))))"
    using assms(1) freeze_pop_popped(1) [OF _ written(1)] by (simp add: wk_inv_def)
  have "max_seq_of rs < b"
    using max_seq_of_in [OF written(3)] written(2) m assms(2) by (auto simp: below_def)
  then show ?thesis using assms(2) m unfolding below_def written(5) by (auto simp: manifest_flush_state)
qed

lemma flush_while_step:
  assumes "wk_inv R T w" "0 < max_frozen (ww_memtables w)" "lz4_ok compress decompress"
    "flushable compress (block_size (ww_config w)) R" "T \<le> now_us"
  shows "\<exists>w'. flush_while compress ser now_us w = Some w' \<and> wk_inv R now_us w'
    \<and> (\<forall>r. stored decompress w r \<longrightarrow> now_us < expire_at r \<longrightarrow> stored decompress w' r)
    \<and> (\<forall>b. below b w \<longrightarrow> below b w') \<and> ww_config w' = ww_config w
    \<and> max_frozen (ww_memtables w') = max_frozen (ww_memtables w)"
  using assms
proof (induction "pending_tables (ww_memtables w)" arbitrary: w T rule: less_induct)
  case less
  show ?case
  proof (cases "frozen_backpressure (ww_memtables w)")
    case False
    then show ?thesis using less.prems by (subst flush_while.simps) (auto dest: wk_inv_mono)
  next
    case True
    let ?w = "do_flush compress ser now_us w"
    note st = do_flush_step [OF less.prems(1,3,4,5), of ser]
    have "pending_tables (ww_memtables w) \<noteq> 0"
      using True less.prems(2) by (auto simp: frozen_backpressure_def pending_tables_def)
    then have "pending_tables (ww_memtables ?w) < pending_tables (ww_memtables w)"
      using pending_decreases by (simp add: do_flush_memtables)
    moreover have mf: "max_frozen (ww_memtables ?w) = max_frozen (ww_memtables w)"
      by (simp add: do_flush_memtables freeze_pop_fields)
    ultimately obtain w' where w': "flush_while compress ser now_us ?w = Some w'" "wk_inv R now_us w'"
      "\<forall>r. stored decompress ?w r \<longrightarrow> now_us < expire_at r \<longrightarrow> stored decompress w' r"
      "\<forall>b. below b ?w \<longrightarrow> below b w'" "ww_config w' = ww_config ?w"
      "max_frozen (ww_memtables w') = max_frozen (ww_memtables ?w)"
      using less.hyps [of ?w now_us] st less.prems by auto
    then show ?thesis
      using True st do_flush_below [OF less.prems(1)] mf
      by (subst flush_while.simps) auto
  qed
qed

lemma sync_step:
  assumes "wk_inv R T w"
  shows "wk_inv R T (w\<lparr>ww_wal := wal_sync_all (ww_wal w)\<rparr>)"
    and "stored decompress (w\<lparr>ww_wal := wal_sync_all (ww_wal w)\<rparr>) r = stored decompress w r"
  using assms wal_sync_all_spec [of "ww_wal w"] by (simp_all add: wk_inv_def stored_def)

lemma do_flush_synced:
  assumes "wk_inv R T w" "wal_synced (ww_wal w)"
  shows "wal_synced (ww_wal (do_flush compress ser now_us w))"
proof (cases rule: do_flush_cases [of compress ser now_us w])
  case (written f rs sid infos n bl)
  then show ?thesis
    using assms(1) truncate_before_spec [of "ww_wal w"] by (simp add: wk_inv_def wal_synced_sync_all)
qed (use assms(2) in simp_all)

text \<open>The states a commit passes through: \<open>v\<close> after the backpressure loop, \<open>y\<close> after the batches and the sync.\<close>

lemma group_parts:
  fixes ser :: "ManifestEntry \<Rightarrow> string"
  assumes inv: "wk_inv R T w" and mf: "0 < max_frozen (ww_memtables w)" and lz4: "lz4_ok compress decompress"
    and fl: "flushable compress (block_size (ww_config w)) R" and T: "T \<le> now_us" and ok: "batch_ok R w subs"
  obtains v y where "flush_while compress ser now_us w = Some v" "wk_inv R now_us v" "wk_inv R now_us y"
    "ww_config y = ww_config w" "max_frozen (ww_memtables y) = max_frozen (ww_memtables w)"
    "ww_manifest y = ww_manifest v" "ww_ssts y = ww_ssts v" "ww_index y = ww_index v"
    "\<forall>r. stored decompress w r \<or> r \<in> set (concat (map sub_records subs)) \<longrightarrow> now_us < expire_at r \<longrightarrow> stored decompress y r"
    "(\<exists>s\<in>set subs. sub_sync_mode s = Always) \<longrightarrow> wal_synced (ww_wal y)"
    "process_batch_group compress ser now_us subs w
      = Some (if should_flush (ww_memtables y) then do_flush compress ser now_us y else y)"
proof -
  obtain v where v: "flush_while compress ser now_us w = Some v" "wk_inv R now_us v"
    "\<forall>r. stored decompress w r \<longrightarrow> now_us < expire_at r \<longrightarrow> stored decompress v r"
    "\<forall>b. below b w \<longrightarrow> below b v" "ww_config v = ww_config w"
    "max_frozen (ww_memtables v) = max_frozen (ww_memtables w)"
    using flush_while_step [OF inv mf lz4 fl T, of ser] by blast
  have okv: "batch_ok R v subs" using ok v(4) by (auto simp: batch_ok_def)
  define x where "x = fold process_batch_inner subs v"
  have x: "wk_inv R now_us x"
    "\<forall>r. stored decompress v r \<or> r \<in> set (concat (map sub_records subs)) \<longrightarrow> stored decompress x r"
    using inners_step [OF v(2) okv, of decompress] by (auto simp: x_def)
  define y where "y = (if \<exists>s\<in>set subs. sub_sync_mode s = Always then x\<lparr>ww_wal := wal_sync_all (ww_wal x)\<rparr> else x)"
  have y: "wk_inv R now_us y" "stored decompress y r = stored decompress x r"
    "(\<exists>s\<in>set subs. sub_sync_mode s = Always) \<longrightarrow> wal_synced (ww_wal y)"
    "ww_config y = ww_config w" "max_frozen (ww_memtables y) = max_frozen (ww_memtables w)"
    "ww_manifest y = ww_manifest v" "ww_ssts y = ww_ssts v" "ww_index y = ww_index v" for r
    using x sync_step [OF x(1)] wal_synced_sync_all [of "ww_wal x"] v(5,6)
    by (auto simp: y_def wk_inv_def x_def inners_fields)
  have "process_batch_group compress ser now_us subs w
      = Some (if should_flush (ww_memtables y) then do_flush compress ser now_us y else y)"
    by (simp add: process_batch_group_def v(1) x_def y_def Let_def)
  then show thesis using v(3) x(2) y by (intro that [OF v(1,2)]) auto
qed

lemma group_step:
  assumes inv: "wk_inv R T w" and mf: "0 < max_frozen (ww_memtables w)" and lz4: "lz4_ok compress decompress"
    and fl: "flushable compress (block_size (ww_config w)) R" and T: "T \<le> now_us" and ok: "batch_ok R w subs"
  shows "\<exists>w'. process_batch_group compress ser now_us subs w = Some w' \<and> wk_inv R now_us w'
    \<and> (\<forall>r. stored decompress w r \<or> r \<in> set (concat (map sub_records subs)) \<longrightarrow> now_us < expire_at r \<longrightarrow>
         stored decompress w' r)
    \<and> ww_config w' = ww_config w \<and> max_frozen (ww_memtables w') = max_frozen (ww_memtables w)
    \<and> ((\<exists>s\<in>set subs. sub_sync_mode s = Always) \<longrightarrow> wal_synced (ww_wal w'))"
proof -
  obtain v y where y: "wk_inv R now_us y" "ww_config y = ww_config w"
    "max_frozen (ww_memtables y) = max_frozen (ww_memtables w)"
    "\<forall>r. stored decompress w r \<or> r \<in> set (concat (map sub_records subs)) \<longrightarrow> now_us < expire_at r \<longrightarrow> stored decompress y r"
    "(\<exists>s\<in>set subs. sub_sync_mode s = Always) \<longrightarrow> wal_synced (ww_wal y)"
    "process_batch_group compress ser now_us subs w
      = Some (if should_flush (ww_memtables y) then do_flush compress ser now_us y else y)"
    using group_parts [OF assms, of ser] by metis
  note fs = do_flush_step [OF y(1) lz4 _ order.refl, of ser]
  show ?thesis
  proof (cases "should_flush (ww_memtables y)")
    case True
    have "max_frozen (ww_memtables (do_flush compress ser now_us y)) = max_frozen (ww_memtables w)"
      using y(3) by (simp add: do_flush_memtables freeze_pop_fields)
    moreover have "flushable compress (block_size (ww_config y)) R" using fl by (simp add: y(2))
    ultimately show ?thesis using True fs y do_flush_synced [OF y(1)] by auto
  next
    case False
    then show ?thesis using y by auto
  qed
qed

lemma inners_memory:
  "set (mts_all (ww_memtables (fold process_batch_inner subs w)))
     = set (concat (map sub_records subs)) \<union> set (mts_all (ww_memtables w))"
  by (induction subs arbitrary: w) (auto simp: process_batch_inner_def mts_all_inserts)

lemma group_below:
  assumes inv: "wk_inv R T w" and mf: "0 < max_frozen (ww_memtables w)" and lz4: "lz4_ok compress decompress"
    and fl: "flushable compress (block_size (ww_config w)) R" and T: "T \<le> now_us" and ok: "batch_ok R w subs"
    and res: "process_batch_group compress ser now_us subs w = Some w'"
    and b: "below b w" "\<forall>r\<in>set (concat (map sub_records subs)). seq r < b"
  shows "below b w'"
proof -
  obtain v where v: "flush_while compress ser now_us w = Some v" "wk_inv R now_us v" "\<forall>b. below b w \<longrightarrow> below b v"
    using flush_while_step [OF inv mf lz4 fl T, of ser] by blast
  have okv: "batch_ok R v subs" using ok v(3) by (auto simp: batch_ok_def)
  define x where "x = fold process_batch_inner subs v"
  define y where "y = (if \<exists>s\<in>set subs. sub_sync_mode s = Always then x\<lparr>ww_wal := wal_sync_all (ww_wal x)\<rparr> else x)"
  have "wk_inv R now_us x" using inners_step [OF v(2) okv] by (simp add: x_def)
  then have y: "wk_inv R now_us y" using sync_step(1) by (simp add: y_def)
  have "below b x" using b v(3) unfolding below_def x_def by (simp add: inners_fields inners_memory ball_Un)
  then have "below b y" by (simp add: y_def below_def)
  moreover have "process_batch_group compress ser now_us subs w
      = Some (if should_flush (ww_memtables y) then do_flush compress ser now_us y else y)"
    by (simp add: process_batch_group_def v(1) x_def y_def Let_def)
  ultimately show ?thesis using res do_flush_below [OF y] by (auto split: if_splits)
qed

section \<open>Crash safety\<close>

definition worker_init :: "(string \<Rightarrow> ManifestEntry option) \<Rightarrow> Config \<Rightarrow> WriteWorker" where
  "worker_init de cfg =
     \<lparr>ww_config = cfg, ww_wal = Wal_open [] (wal_segment_size_mb cfg),
      ww_memtables = MemTables_new (max_frozen_memtables cfg) (memtable_size_mb cfg * 1024 * 1024),
      ww_manifest = Manifest_open de None, ww_index = Index_new (time_bucket_secs cfg), ww_ssts = Map.empty\<rparr>"

text \<open>The life of a worker on an empty directory: groups committed in sequence order and flushes.  \<open>C\<close> collects
  the records of the groups, \<open>T\<close> the latest clock value.\<close>

inductive wk_reach :: "(bytes \<Rightarrow> bytes) \<Rightarrow> (ManifestEntry \<Rightarrow> string) \<Rightarrow> (string \<Rightarrow> ManifestEntry option) \<Rightarrow> Config
    \<Rightarrow> InternalRecord set \<Rightarrow> WriteWorker \<Rightarrow> InternalRecord set \<Rightarrow> int \<Rightarrow> bool"
  for compress ser de cfg R where
  wk_init: "wk_reach compress ser de cfg R (worker_init de cfg) {} T"
| wk_commit: "wk_reach compress ser de cfg R w C T \<Longrightarrow> batch_ok R w subs \<Longrightarrow> T \<le> now_us \<Longrightarrow>
    process_batch_group compress ser now_us subs w = Some w' \<Longrightarrow>
    wk_reach compress ser de cfg R w' (C \<union> set (concat (map sub_records subs))) now_us"
| wk_flush: "wk_reach compress ser de cfg R w C T \<Longrightarrow> T \<le> now_us \<Longrightarrow>
    wk_reach compress ser de cfg R (do_flush compress ser now_us w) C now_us"

lemma flush_while_keeps:
  assumes "flush_while compress ser now_us w = Some w'" "P w" "\<And>w. P w \<Longrightarrow> P (do_flush compress ser now_us w)"
  shows "P w'"
proof -
  let ?Q = "\<lambda>c s n v y. (\<forall>v. P v \<longrightarrow> P (do_flush c s n v)) \<longrightarrow> P v \<longrightarrow> P y"
  have "?Q compress ser now_us w w'"
    by (rule flush_while.raw_induct [where P = ?Q, OF _ assms(1)]) (metis option.inject)
  with assms(2,3) show ?thesis by blast
qed

lemma do_flush_manifest:
  assumes "json_ok ser de" "m_inv de (ww_manifest w)"
  shows "m_inv de (ww_manifest (do_flush compress ser now_us w))"
  by (cases rule: do_flush_cases [of compress ser now_us w]) (use assms in \<open>simp_all add: m_inv_append\<close>)

lemma group_manifest:
  assumes "json_ok ser de" "m_inv de (ww_manifest w)" "process_batch_group compress ser now_us subs w = Some w'"
  shows "m_inv de (ww_manifest w')"
proof -
  from assms(3) obtain v where v: "flush_while compress ser now_us w = Some v"
    by (auto simp: process_batch_group_def)
  have "m_inv de (ww_manifest v)"
    by (rule flush_while_keeps [OF v, where P = "\<lambda>w. m_inv de (ww_manifest w)"])
      (use assms in \<open>auto intro: do_flush_manifest\<close>)
  then show ?thesis
    using assms(1,3) v by (auto simp: process_batch_group_def Let_def inners_fields intro!: do_flush_manifest)
qed

lemma wk_reach_inv:
  assumes "json_ok ser de" "lz4_ok compress decompress" "validate cfg = Inr ()" "flushable compress (block_size cfg) R"
    and "wk_reach compress ser de cfg R w C T"
  shows "wk_inv R T w \<and> ww_config w = cfg \<and> 0 < max_frozen (ww_memtables w) \<and> m_inv de (ww_manifest w)
    \<and> (\<forall>r\<in>C. T < expire_at r \<longrightarrow> stored decompress w r)"
  using assms(5)
proof (induction rule: wk_reach.induct)
  case (wk_init T)
  have "mts_reach (ww_memtables (worker_init de cfg))" by (simp add: worker_init_def mts_reach.intros)
  then show ?case
    using wal_ok_open_empty [of "wal_segment_size_mb cfg"] validate_okD(2) [OF assms(3)]
    by (auto simp: wk_inv_def worker_init_def MemTables_new_def mts_all_def m_inv_def Manifest_open_def)
next
  case (wk_commit w C T subs now_us w')
  with group_step [of R T w compress decompress now_us subs ser] assms(2,4)
  have "wk_inv R now_us w' \<and> ww_config w' = cfg \<and> 0 < max_frozen (ww_memtables w')
    \<and> (\<forall>r\<in>C \<union> set (concat (map sub_records subs)). now_us < expire_at r \<longrightarrow> stored decompress w' r)"
    by fastforce
  with group_manifest [OF assms(1) _ wk_commit(4)] wk_commit show ?case by blast
next
  case (wk_flush w C T now_us)
  with do_flush_step [of R T w compress decompress now_us ser] assms(2,4)
  have "wk_inv R now_us (do_flush compress ser now_us w)
    \<and> (\<forall>r\<in>C. now_us < expire_at r \<longrightarrow> stored decompress (do_flush compress ser now_us w) r)"
    by fastforce
  with do_flush_manifest [OF assms(1)] wk_flush show ?case
    by (simp add: do_flush_memtables freeze_pop_fields)
qed

text \<open>The bound \<open>R\<close> can always be taken to be the records committed.\<close>

lemma wk_reach_mono: "wk_reach compress ser de cfg R w C T \<Longrightarrow> R \<subseteq> S \<Longrightarrow> wk_reach compress ser de cfg S w C T"
proof (induction rule: wk_reach.induct)
  case (wk_commit w C T subs now_us w')
  then have "batch_ok S w subs" by (auto simp: batch_ok_def)
  with wk_commit show ?case by (intro wk_reach.wk_commit) auto
qed (auto intro: wk_reach.intros)

lemma wk_reach_self: "wk_reach compress ser de cfg R w C T \<Longrightarrow> C \<subseteq> R \<and> wk_reach compress ser de cfg C w C T"
proof (induction rule: wk_reach.induct)
  case (wk_commit w C T subs now_us w')
  let ?C = "C \<union> set (concat (map sub_records subs))"
  have "batch_ok ?C w subs" using wk_commit(2) by (auto simp: batch_ok_def)
  moreover have "wk_reach compress ser de cfg ?C w C T" using wk_commit.IH wk_reach_mono by blast
  ultimately have "wk_reach compress ser de cfg ?C w' ?C now_us" using wk_commit(3,4) by (intro wk_reach.wk_commit)
  moreover have "?C \<subseteq> R" using wk_commit.IH wk_commit(2) by (auto simp: batch_ok_def)
  ultimately show ?case by blast
qed (auto intro: wk_reach.intros)

text \<open>What a restart finds on disk: the log replayed from the manifest's flushed sequence number, and the
  tables the manifest lists.\<close>

definition recoverable :: "(bytes \<Rightarrow> nat \<Rightarrow> string + bytes) \<Rightarrow> (string \<Rightarrow> ManifestEntry option) \<Rightarrow> wal_dir \<Rightarrow> nat
    \<Rightarrow> string option \<Rightarrow> (nat \<rightharpoonup> bytes) \<Rightarrow> InternalRecord \<Rightarrow> bool" where
  "recoverable decompress de d mb mf ssts r \<longleftrightarrow>
     (let st = mstate (Manifest_open de mf)
      in r \<in> set (snd (replay_from (last_flushed_seq st) (Wal_open d mb)))
         \<or> (\<exists>sid file. map_of (sstables st) sid \<noteq> None \<and> ssts sid = Some file
              \<and> sst_holds decompress sid file (forget_seq r)))"

lemma recoverable_stored:
  assumes "wal_ok (ww_wal w)" "wal_synced (ww_wal w)" "crash_image (dir (ww_wal w)) d'" "m_inv de (ww_manifest w)"
  shows "recoverable decompress de d' mb (mfile (ww_manifest w)) (ww_ssts w) r = stored decompress w r"
proof -
  have "wal_ok (Wal_open d' mb)" "log_of (Wal_open d' mb) = log_of (ww_wal w)"
    using wal_synced_reopen [OF assms(1-3)] by auto
  then have "set (snd (replay_from n (Wal_open d' mb))) = {r \<in> set (log_of (ww_wal w)). n < seq r}" for n
    using replay_from_spec by auto
  then show ?thesis using assms(4) unfolding recoverable_def stored_def m_inv_def st_eq_def Let_def by auto
qed


lemma flushable_small:
  assumes "\<forall>r\<in>R. sst_rec_ok r \<and> length (encode_sst_record r) \<le> m" "max bs 1 * m < 2 ^ 32" "max bs 1 < 2 ^ 32"
  shows "flushable (\<lambda>d. d) bs R"
  unfolding flushable_def chunk_ok_def
proof (intro allI impI conjI)
  fix c assume c: "set c \<subseteq> R" "length c \<le> max bs 1"
  show "list_all sst_rec_ok c" using assms(1) c by (auto simp: list_all_iff)
  show "length c < 2 ^ 32" using assms(3) c by simp
  have "length (encode_records c) \<le> length c * m"
    using assms(1) c(1) by (induction c) (auto simp: encode_records_def intro: add_mono)
  also have "\<dots> \<le> max bs 1 * m" using c(2) by (rule mult_right_mono) simp
  finally show "length (encode_records c) < 2 ^ 32" "length (encode_records c) < 2 ^ 32" using assms(2) by auto
qed

text \<open>One write of one tombstone, synchronously, on a fresh engine with the default configuration.\<close>

definition one_delete :: Submission where
  "one_delete = \<lparr>sub_records = [delete_rec [1] 5 3], sub_wal_buf = fst (encode_batch [delete_rec [1] 5 3]),
     sub_batch_max_seq = 3, sub_sync_mode = Always\<rparr>"

lemma one_delete_ok:
  "validate Config_default = Inr ()" "lz4_ok (\<lambda>d. d) (\<lambda>d n. Inr d)"
  "flushable (\<lambda>d. d) (block_size Config_default) {delete_rec [1] 5 3}"
  "batch_ok {delete_rec [1] 5 3} (worker_init unary_de Config_default) [one_delete]"
proof -
  show "validate Config_default = Inr ()" by (simp add: validate_def Config_default_def max_bucket_def)
  show "lz4_ok (\<lambda>d. d) (\<lambda>d n. Inr d)" by (simp add: lz4_ok_def)
  show "flushable (\<lambda>d. d) (block_size Config_default) {delete_rec [1] 5 3}"
    by (rule flushable_small [where m = 26])
      (simp_all add: sst_rec_ok_def encode_sst_record_def i64_def i64_min_def i64_max_def Config_default_def delete_rec_def)
  show "batch_ok {delete_rec [1] 5 3} (worker_init unary_de Config_default) [one_delete]"
    by (simp add: batch_ok_def below_def worker_init_def Manifest_open_def ManifestState_default_def wal_rec_ok_def
        i64_def i64_min_def i64_max_def one_delete_def)
qed


section \<open>Out-of-order commits\<close>

lemma late_commit:
  fixes compress :: "bytes \<Rightarrow> bytes" and ser :: "ManifestEntry \<Rightarrow> string"
  assumes "wal_ok (ww_wal w)" "m_inv de (ww_manifest w)" "\<not> frozen_backpressure (ww_memtables w)"
    and "\<not> should_flush (fold mts_insert (sub_records s) (ww_memtables w))"
    and "sub_wal_buf s = fst (encode_batch (sub_records s))" "list_all wal_rec_ok (sub_records s)"
      "\<forall>r\<in>set (sub_records s). seq r \<le> sub_batch_max_seq s" "sub_sync_mode s = Always"
    and "r \<in> set (sub_records s)" "seq r \<le> flushed_seq w"
    and "\<forall>sid file. ww_ssts w sid = Some file \<longrightarrow> \<not> sst_holds decompress sid file (forget_seq r)"
  obtains w' where "process_batch_group compress ser now_us [s] w = Some w'" "r \<in> set (mts_all (ww_memtables w'))"
    "wal_ok (ww_wal w')" "wal_synced (ww_wal w')" "m_inv de (ww_manifest w')" "\<not> stored decompress w' r"
proof -
  let ?x = "process_batch_inner s w"
  let ?w = "?x\<lparr>ww_wal := wal_sync_all (ww_wal ?x)\<rparr>"
  have res: "process_batch_group compress ser now_us [s] w = Some ?w"
    using assms(3,4,8) by (simp add: process_batch_group_def flush_while.simps process_batch_inner_def Let_def)
  have x: "wal_ok (ww_wal ?x)"
    using write_encoded_spec [OF assms(1,6,7)] assms(5) by (simp add: process_batch_inner_def)
  have f: "ww_manifest ?w = ww_manifest w" "ww_ssts ?w = ww_ssts w" by (simp_all add: process_batch_inner_def)
  have "\<not> stored decompress ?w r" unfolding stored_def f using assms(10,11) by auto
  moreover have "wal_ok (ww_wal ?w)" "wal_synced (ww_wal ?w)"
    using wal_sync_all_spec [OF x] wal_synced_sync_all [OF x] by simp_all
  moreover have "r \<in> set (mts_all (ww_memtables ?w))"
    using assms(9) by (simp add: process_batch_inner_def mts_all_inserts)
  ultimately show thesis using that res f(1) assms(2) by simp
qed

text \<open>The sequence order matters: sequence numbers are taken before a batch is queued, so a batch can commit
  after a flush that covered higher numbers.  Such a batch is acknowledged and in memory, but after a
  crash it is not recovered (unless some table happens to hold the same version): the replay starts
  above the flushed sequence number.\<close>

theorem late_commit_lost:
  assumes "wal_ok (ww_wal w)" "m_inv de (ww_manifest w)" "\<not> frozen_backpressure (ww_memtables w)"
    and "\<not> should_flush (fold mts_insert (sub_records s) (ww_memtables w))"
    and "sub_wal_buf s = fst (encode_batch (sub_records s))" "list_all wal_rec_ok (sub_records s)"
      "\<forall>r\<in>set (sub_records s). seq r \<le> sub_batch_max_seq s" "sub_sync_mode s = Always"
    and "r \<in> set (sub_records s)" "seq r \<le> flushed_seq w"
    and "\<forall>sid file. ww_ssts w sid = Some file \<longrightarrow> \<not> sst_holds decompress sid file (forget_seq r)"
  shows "\<exists>w'. process_batch_group compress ser now_us [s] w = Some w'
    \<and> r \<in> set (mts_all (ww_memtables w'))
    \<and> (\<forall>d'. crash_image (dir (ww_wal w')) d' \<longrightarrow>
         \<not> recoverable decompress de d' mb (mfile (ww_manifest w')) (ww_ssts w') r)"
proof -
  from assms obtain w' where "process_batch_group compress ser now_us [s] w = Some w'" "r \<in> set (mts_all (ww_memtables w'))"
    "wal_ok (ww_wal w')" "wal_synced (ww_wal w')" "m_inv de (ww_manifest w')" "\<not> stored decompress w' r"
    by (rule late_commit)
  then show ?thesis using recoverable_stored by blast
qed

theorem late_commit_lost_witness:
  "\<exists>w'. process_batch_group (\<lambda>d. d) unary_ser 0
      [\<lparr>sub_records = [delete_rec [1] 5 3], sub_wal_buf = fst (encode_batch [delete_rec [1] 5 3]),
        sub_batch_max_seq = 3, sub_sync_mode = Always\<rparr>]
      ((worker_init unary_de Config_default)\<lparr>ww_manifest :=
         manifest_append unary_ser (Checkpoint 9) (Manifest_open unary_de None)\<rparr>) = Some w'
    \<and> \<not> recoverable (\<lambda>d n. Inr d) unary_de (dir (ww_wal w')) 64 (mfile (ww_manifest w')) (ww_ssts w') (delete_rec [1] 5 3)"
proof -
  let ?r = "delete_rec [1] 5 3"
  let ?s = "\<lparr>sub_records = [?r], sub_wal_buf = fst (encode_batch [?r]), sub_batch_max_seq = 3, sub_sync_mode = Always\<rparr>"
  let ?mf = "manifest_append unary_ser (Checkpoint 9) (Manifest_open unary_de None)"
  let ?w = "(worker_init unary_de Config_default)\<lparr>ww_manifest := ?mf\<rparr>"
  have "m_reach unary_ser unary_de ?mf" by (intro m_reach.intros) simp
  then have m: "m_inv unary_de (ww_manifest ?w)" using m_reach_inv [OF json_ok_unary] by simp
  have wal: "wal_ok (ww_wal ?w)" using wal_ok_open_empty by (simp add: worker_init_def)
  have nb: "\<not> frozen_backpressure (ww_memtables ?w)"
    by (simp add: frozen_backpressure_def worker_init_def MemTables_new_def Config_default_def)
  have nf: "\<not> should_flush (fold mts_insert (sub_records ?s) (ww_memtables ?w))"
    by (simp add: should_flush_def worker_init_def MemTables_new_def Config_default_def mts_insert_def mt_insert_def
        estimated_size_def delete_rec_def)
  have r: "list_all wal_rec_ok (sub_records ?s)"
    by (simp add: wal_rec_ok_def i64_def i64_min_def i64_max_def delete_rec_def)
  have fs: "seq ?r \<le> flushed_seq ?w"
    by (simp add: manifest_append_def Manifest_open_def ManifestState_default_def)
  have no: "\<forall>sid file. ww_ssts ?w sid = Some file \<longrightarrow> \<not> sst_holds (\<lambda>d n. Inr d) sid file (forget_seq ?r)"
    by (simp add: worker_init_def)
  obtain w' where w': "process_batch_group (\<lambda>d. d) unary_ser 0 [?s] ?w = Some w'"
    "\<forall>d'. crash_image (dir (ww_wal w')) d' \<longrightarrow>
         \<not> recoverable (\<lambda>d n. Inr d) unary_de d' 64 (mfile (ww_manifest w')) (ww_ssts w') ?r"
    using late_commit_lost [OF wal m nb nf _ r _ _ _ fs no, of "\<lambda>d. d" unary_ser 0 64] by auto
  from w' crash_image_refl show ?thesis by blast
qed

end
