(* ===== verification/Cache.thy ===== *)
theory Cache
  imports Sstable
begin

text \<open>
  \<^verbatim>\<open>src/cache.rs\<close>, the sharded block cache, and the reads of \<^verbatim>\<open>src/sstable.rs\<close> that go through it.
  The LRU map of one shard is the \<^verbatim>\<open>lru\<close> crate: a parameter, a record of its operations, with its documented
  behaviour as the hypothesis \<open>lru_ok\<close> (a map that may forget other entries on \<open>put\<close>).
  The result is coherence: while table files do not change, a read through the cache returns exactly
  what the file holds.
\<close>

section \<open>The LRU map\<close>

record CacheKey =
  ck_sst_id :: nat
  ck_block_idx :: nat

record 'l lru_ops =
  lru_new :: "nat \<Rightarrow> 'l"
  lru_get :: "CacheKey \<Rightarrow> 'l \<Rightarrow> 'l \<times> InternalRecord list option"
  lru_put :: "CacheKey \<Rightarrow> InternalRecord list \<Rightarrow> 'l \<Rightarrow> 'l"
  lru_iter :: "'l \<Rightarrow> (CacheKey \<times> InternalRecord list) list"
  lru_pop :: "CacheKey \<Rightarrow> 'l \<Rightarrow> 'l"

definition lru_map :: "'l lru_ops \<Rightarrow> 'l \<Rightarrow> CacheKey \<rightharpoonup> InternalRecord list" where
  "lru_map L l = map_of (lru_iter L l)"

text \<open>Documented behaviour: \<open>get\<close> returns the entry and changes only the recency order, \<open>put\<close> stores the entry and
  may evict others, \<open>pop\<close> removes the entry.\<close>

definition lru_ok :: "'l lru_ops \<Rightarrow> bool" where
  "lru_ok L \<longleftrightarrow>
     (\<forall>cap. lru_map L (lru_new L cap) = Map.empty)
     \<and> (\<forall>k l. snd (lru_get L k l) = lru_map L l k \<and> lru_map L (fst (lru_get L k l)) = lru_map L l)
     \<and> (\<forall>k v l. lru_map L (lru_put L k v l) \<subseteq>\<^sub>m (lru_map L l)(k \<mapsto> v))
     \<and> (\<forall>k l. lru_map L (lru_pop L k l) = (lru_map L l)(k := None))"

section \<open>The sharded cache\<close>

definition NUM_SHARDS :: nat where
  "NUM_SHARDS = 64"

record 'l BlockCache =
  shards :: "'l list"
  hits :: nat
  misses :: nat

definition shard :: "CacheKey \<Rightarrow> nat" where
  "shard k = unat (xor (word_of_nat (ck_sst_id k) * 0x9e3779b9) (word_of_nat (ck_block_idx k)) :: 32 word) mod NUM_SHARDS"

text \<open>\<open>stack_size\<close> is \<^verbatim>\<open>size_of::<InternalRecord>()\<close>.\<close>

definition with_block_size :: "'l lru_ops \<Rightarrow> nat \<Rightarrow> nat \<Rightarrow> nat \<Rightarrow> 'l BlockCache" where
  "with_block_size L stack_size capacity_mb blk_size =
     (let avg_heap_per_record = 64;
          bytes_per_entry = blk_size * (stack_size + avg_heap_per_record);
          total_entries = max (capacity_mb * 1024 * 1024 div max bytes_per_entry 1) 1;
          per_shard = max (total_entries div NUM_SHARDS) 1
      in \<lparr>shards = replicate NUM_SHARDS (lru_new L per_shard), hits = 0, misses = 0\<rparr>)"

definition BlockCache_new :: "'l lru_ops \<Rightarrow> nat \<Rightarrow> nat \<Rightarrow> 'l BlockCache" where
  "BlockCache_new L stack_size capacity_mb = with_block_size L stack_size capacity_mb 100"

definition cache_get :: "'l lru_ops \<Rightarrow> CacheKey \<Rightarrow> 'l BlockCache \<Rightarrow> 'l BlockCache \<times> InternalRecord list option" where
  "cache_get L k c =
     (let (l, res) = lru_get L k (shards c ! shard k);
          c = c\<lparr>shards := (shards c)[shard k := l]\<rparr>
      in if res \<noteq> None then (c\<lparr>hits := hits c + 1\<rparr>, res) else (c\<lparr>misses := misses c + 1\<rparr>, res))"

definition cache_insert :: "'l lru_ops \<Rightarrow> CacheKey \<Rightarrow> InternalRecord list \<Rightarrow> 'l BlockCache \<Rightarrow> 'l BlockCache" where
  "cache_insert L k rs c = c\<lparr>shards := (shards c)[shard k := lru_put L k rs (shards c ! shard k)]\<rparr>"

text \<open>One shard of \<open>invalidate_sst\<close>: collect the table's keys, then pop each.\<close>

definition shard_invalidate :: "'l lru_ops \<Rightarrow> nat \<Rightarrow> 'l \<Rightarrow> 'l" where
  "shard_invalidate L sid l =
     fold (lru_pop L) (map fst (filter (\<lambda>(k, _). ck_sst_id k = sid) (lru_iter L l))) l"

definition invalidate_sst :: "'l lru_ops \<Rightarrow> nat \<Rightarrow> 'l BlockCache \<Rightarrow> 'l BlockCache" where
  "invalidate_sst L sid c = c\<lparr>shards := map (shard_invalidate L sid) (shards c)\<rparr>"

text \<open>The hit rate as a fraction \<open>(hits, total)\<close>; the source divides in floating point.\<close>

definition hit_rate :: "'l BlockCache \<Rightarrow> (nat \<times> nat) option" where
  "hit_rate c = (let total = hits c + misses c in if total = 0 then None else Some (hits c, total))"

section \<open>Reads through the cache\<close>

definition read_block_arc :: "'l lru_ops \<Rightarrow> (bytes \<Rightarrow> nat \<Rightarrow> string + bytes) \<Rightarrow> SstReader \<Rightarrow> nat \<Rightarrow> 'l BlockCache
    \<Rightarrow> 'l BlockCache \<times> InternalRecord list result" where
  "read_block_arc L decompress rd idx c =
     (let k = \<lparr>ck_sst_id = rd_sst_id rd, ck_block_idx = idx\<rparr>;
          (c, cached) = cache_get L k c
      in case cached of
           Some rs \<Rightarrow> (c, Inr rs)
         | None \<Rightarrow> (case read_block_inner decompress rd idx of
               Inl e \<Rightarrow> (c, Inl e)
             | Inr rs \<Rightarrow> (cache_insert L k rs c, Inr rs)))"

text \<open>The cache argument of \<open>read_block\<close> is optional.\<close>

definition read_block :: "'l lru_ops \<Rightarrow> (bytes \<Rightarrow> nat \<Rightarrow> string + bytes) \<Rightarrow> SstReader \<Rightarrow> nat \<Rightarrow> 'l BlockCache option
    \<Rightarrow> 'l BlockCache option \<times> InternalRecord list result" where
  "read_block L decompress rd idx oc =
     (let k = \<lparr>ck_sst_id = rd_sst_id rd, ck_block_idx = idx\<rparr>
      in case (case oc of None \<Rightarrow> (None, None) | Some c \<Rightarrow> map_prod Some id (cache_get L k c)) of
           (oc, Some rs) \<Rightarrow> (oc, Inr rs)
         | (oc, None) \<Rightarrow> (case read_block_inner decompress rd idx of
               Inl e \<Rightarrow> (oc, Inl e)
             | Inr rs \<Rightarrow> (map_option (cache_insert L k rs) oc, Inr rs)))"

definition read_block_cached :: "'l lru_ops \<Rightarrow> SstReader \<Rightarrow> nat \<Rightarrow> 'l BlockCache
    \<Rightarrow> 'l BlockCache \<times> InternalRecord list option" where
  "read_block_cached L rd idx c = cache_get L \<lparr>ck_sst_id = rd_sst_id rd, ck_block_idx = idx\<rparr> c"

section \<open>Coherence\<close>

text \<open>\<open>tables\<close> are the open readers by table id.\<close>

definition block_of :: "(bytes \<Rightarrow> nat \<Rightarrow> string + bytes) \<Rightarrow> (nat \<rightharpoonup> SstReader) \<Rightarrow> CacheKey \<Rightarrow> InternalRecord list option" where
  "block_of decompress tables k =
     (case tables (ck_sst_id k) of None \<Rightarrow> None
      | Some rd \<Rightarrow> (case read_block_inner decompress rd (ck_block_idx k) of Inl _ \<Rightarrow> None | Inr rs \<Rightarrow> Some rs))"

definition coherent :: "'l lru_ops \<Rightarrow> (CacheKey \<rightharpoonup> InternalRecord list) \<Rightarrow> 'l BlockCache \<Rightarrow> bool" where
  "coherent L cont c \<longleftrightarrow> length (shards c) = NUM_SHARDS \<and> (\<forall>l\<in>set (shards c). lru_map L l \<subseteq>\<^sub>m cont)"

lemma shard_less [simp]: "shard k < NUM_SHARDS"
  by (simp add: shard_def NUM_SHARDS_def)

lemma coherent_shard: "coherent L cont c \<Longrightarrow> lru_map L (shards c ! shard k) \<subseteq>\<^sub>m cont"
  by (simp add: coherent_def)

lemma coherent_update:
  assumes "coherent L cont c" "lru_map L l \<subseteq>\<^sub>m cont"
  shows "coherent L cont (c\<lparr>shards := (shards c)[i := l]\<rparr>)"
  using assms set_update_subset_insert [of "shards c" i l] by (auto simp: coherent_def)

lemma coherent_counters [simp]:
  "coherent L cont (c\<lparr>hits := n\<rparr>) = coherent L cont c" "coherent L cont (c\<lparr>misses := n\<rparr>) = coherent L cont c"
  by (simp_all add: coherent_def)

lemma coherent_new: "lru_ok L \<Longrightarrow> coherent L cont (with_block_size L stk cap bs)"
  by (simp add: coherent_def with_block_size_def Let_def lru_ok_def)

lemma cache_get_spec:
  assumes "lru_ok L" "coherent L cont c" "cache_get L k c = (c', r)"
  shows "coherent L cont c' \<and> (r = None \<or> r = cont k)"
proof -
  let ?l = "shards c ! shard k"
  have g: "snd (lru_get L k ?l) = lru_map L ?l k" "lru_map L (fst (lru_get L k ?l)) = lru_map L ?l"
    using assms(1) by (auto simp: lru_ok_def)
  have c: "coherent L cont (c\<lparr>shards := (shards c)[shard k := fst (lru_get L k ?l)]\<rparr>)"
    using coherent_update [OF assms(2)] coherent_shard [OF assms(2)] g(2) by simp
  have "lru_map L ?l k = None \<or> lru_map L ?l k = cont k"
    using coherent_shard [OF assms(2), of k] by (auto simp: map_le_def dom_def)
  with c g(1) assms(3) show ?thesis
    by (auto simp: cache_get_def Let_def split: prod.splits if_splits)
qed

lemma cache_insert_spec:
  assumes "lru_ok L" "coherent L cont c" "cont k = Some rs"
  shows "coherent L cont (cache_insert L k rs c)"
proof -
  have "lru_map L (lru_put L k rs (shards c ! shard k)) \<subseteq>\<^sub>m (lru_map L (shards c ! shard k))(k \<mapsto> rs)"
    using assms(1) by (auto simp: lru_ok_def)
  also have "\<dots> \<subseteq>\<^sub>m cont"
    using coherent_shard [OF assms(2), of k] assms(3) by (auto simp: map_le_def)
  finally show ?thesis unfolding cache_insert_def by (rule coherent_update [OF assms(2)])
qed

lemma lru_pops:
  assumes "lru_ok L"
  shows "lru_map L (fold (lru_pop L) ks l) = (\<lambda>k. if k \<in> set ks then None else lru_map L l k)"
proof (induction ks arbitrary: l)
  case (Cons a ks)
  have "lru_map L (lru_pop L a l) = (lru_map L l)(a := None)" using assms by (auto simp: lru_ok_def)
  with Cons show ?case by (auto simp: fun_eq_iff)
qed simp

lemma shard_invalidate_spec:
  assumes "lru_ok L"
  shows "lru_map L (shard_invalidate L sid l) = (\<lambda>k. if ck_sst_id k = sid then None else lru_map L l k)"
proof
  fix k
  have "lru_map L l k = None" if "k \<notin> fst ` set (lru_iter L l)" using that by (simp add: lru_map_def map_of_eq_None_iff)
  then show "lru_map L (shard_invalidate L sid l) k = (if ck_sst_id k = sid then None else lru_map L l k)"
    unfolding shard_invalidate_def lru_pops [OF assms] by force
qed

lemma invalidate_spec:
  assumes "lru_ok L" "coherent L cont c" "\<And>k. ck_sst_id k \<noteq> sid \<Longrightarrow> cont' k = cont k"
  shows "coherent L cont' (invalidate_sst L sid c)"
  using assms(2) assms(3)
  by (auto simp: coherent_def invalidate_sst_def shard_invalidate_spec [OF assms(1)] map_le_def dom_def split: if_splits)

lemma read_block_arc_spec:
  assumes "lru_ok L" "coherent L (block_of decompress tables) c" "tables (rd_sst_id rd) = Some rd"
    "read_block_arc L decompress rd idx c = (c', r)"
  shows "coherent L (block_of decompress tables) c' \<and> r = read_block_inner decompress rd idx"
proof -
  let ?k = "\<lparr>ck_sst_id = rd_sst_id rd, ck_block_idx = idx\<rparr>"
  have k: "block_of decompress tables ?k = (case read_block_inner decompress rd idx of Inl _ \<Rightarrow> None | Inr rs \<Rightarrow> Some rs)"
    using assms(3) by (simp add: block_of_def)
  obtain c1 r1 where g: "cache_get L ?k c = (c1, r1)" by fastforce
  from cache_get_spec [OF assms(1,2) g] have "coherent L (block_of decompress tables) c1"
    "r1 = None \<or> r1 = block_of decompress tables ?k" by auto
  then show ?thesis
    using assms(4) g k cache_insert_spec [OF assms(1), of "block_of decompress tables" c1 ?k]
    by (auto simp: read_block_arc_def Let_def split: option.splits sum.splits)
qed

lemma read_block_some: "read_block L decompress rd idx (Some c) = map_prod Some id (read_block_arc L decompress rd idx c)"
  by (auto simp: read_block_def read_block_arc_def Let_def split: prod.split option.split sum.split)

lemma read_block_none: "read_block L decompress rd idx None = (None, read_block_inner decompress rd idx)"
  by (simp add: read_block_def Let_def split: sum.split)

text \<open>A history of the cache beside the table files: reads through it, the insertion of a block that was just
  read, and the replacement or removal of a table, which invalidates the table first.\<close>

inductive cache_reach :: "'l lru_ops \<Rightarrow> (bytes \<Rightarrow> nat \<Rightarrow> string + bytes) \<Rightarrow> (nat \<rightharpoonup> SstReader) \<Rightarrow> 'l BlockCache \<Rightarrow> bool"
  for L decompress where
  cr_new: "cache_reach L decompress tables (with_block_size L stk cap bs)"
| cr_read: "cache_reach L decompress tables c \<Longrightarrow> tables (rd_sst_id rd) = Some rd \<Longrightarrow>
    cache_reach L decompress tables (fst (read_block_arc L decompress rd idx c))"
| cr_lookup: "cache_reach L decompress tables c \<Longrightarrow> cache_reach L decompress tables (fst (read_block_cached L rd idx c))"
| cr_insert: "cache_reach L decompress tables c \<Longrightarrow> tables (rd_sst_id rd) = Some rd \<Longrightarrow>
    read_block_decompress decompress rd idx = Inr (h, rs) \<Longrightarrow>
    cache_reach L decompress tables (cache_insert L \<lparr>ck_sst_id = rd_sst_id rd, ck_block_idx = idx\<rparr> rs c)"
| cr_replace: "cache_reach L decompress tables c \<Longrightarrow>
    cache_reach L decompress (tables(sid := t)) (invalidate_sst L sid c)"

lemma cache_reach_coherent:
  assumes "lru_ok L" "cache_reach L decompress tables c"
  shows "coherent L (block_of decompress tables) c"
  using assms(2)
proof (induction rule: cache_reach.induct)
  case (cr_new tables stk cap bs)
  then show ?case by (rule coherent_new [OF assms(1)])
next
  case (cr_read tables c rd idx)
  then show ?case using read_block_arc_spec [OF assms(1)] by (metis prod.collapse)
next
  case (cr_lookup tables c rd idx)
  then show ?case unfolding read_block_cached_def using cache_get_spec [OF assms(1)] by (metis prod.collapse)
next
  case (cr_insert tables c rd idx h rs)
  then show ?case
    by (intro cache_insert_spec [OF assms(1)]) (simp_all add: block_of_def read_block_inner_def)
next
  case (cr_replace tables c sid t)
  then show ?case by (intro invalidate_spec [OF assms(1)]) (auto simp: block_of_def)
qed

text \<open>C29. Reads through the block cache are exact.  After any history of cached reads, lookups, insertions and table
  replacements (each of which invalidates the table's entries first), reading a block of an open table through
  the cache gives the same records or the same error as reading it from the file, whatever the LRU evicted.\<close>

theorem cached_read_exact:
  assumes "lru_ok L" "cache_reach L decompress tables c" "tables (rd_sst_id rd) = Some rd"
  shows "snd (read_block_arc L decompress rd idx c) = read_block_inner decompress rd idx
    \<and> snd (read_block L decompress rd idx (Some c)) = read_block_inner decompress rd idx
    \<and> (\<forall>rs. snd (read_block_cached L rd idx c) = Some rs \<longrightarrow> read_block_inner decompress rd idx = Inr rs)"
proof -
  note coh = cache_reach_coherent [OF assms(1,2)]
  have a: "snd (read_block_arc L decompress rd idx c) = read_block_inner decompress rd idx"
    using read_block_arc_spec [OF assms(1) coh assms(3)] by (metis prod.collapse)
  moreover have "read_block_inner decompress rd idx = Inr rs" if "snd (read_block_cached L rd idx c) = Some rs" for rs
  proof -
    have "Some rs = block_of decompress tables \<lparr>ck_sst_id = rd_sst_id rd, ck_block_idx = idx\<rparr>"
      using cache_get_spec [OF assms(1) coh] that unfolding read_block_cached_def by (metis option.distinct(1) prod.collapse)
    with assms(3) show ?thesis by (simp add: block_of_def split: sum.splits)
  qed
  ultimately show ?thesis by (simp add: read_block_some)
qed

section \<open>A concrete LRU map\<close>

text \<open>Entries most recent first, at most \<open>cap\<close> of them: the parameter has an instance.\<close>

definition list_lru :: "(nat \<times> (CacheKey \<times> InternalRecord list) list) lru_ops" where
  "list_lru =
     \<lparr>lru_new = (\<lambda>cap. (cap, [])),
      lru_get = (\<lambda>k (cap, m). case map_of m k of None \<Rightarrow> ((cap, m), None)
                   | Some v \<Rightarrow> ((cap, (k, v) # filter (\<lambda>(k', _). k' \<noteq> k) m), Some v)),
      lru_put = (\<lambda>k v (cap, m). (cap, take cap ((k, v) # filter (\<lambda>(k', _). k' \<noteq> k) m))),
      lru_iter = snd,
      lru_pop = (\<lambda>k (cap, m). (cap, filter (\<lambda>(k', _). k' \<noteq> k) m))\<rparr>"

lemma map_of_filter_neq: "map_of (filter (\<lambda>(k', _). k' \<noteq> k) m) = (map_of m)(k := None)"
  by (induction m) (auto simp: fun_eq_iff)

lemma map_of_take_le: "map_of (take n m) \<subseteq>\<^sub>m map_of m"
proof -
  have "map_of m = map_of (drop n m) ++ map_of (take n m)"
    by (metis append_take_drop_id map_of_append)
  then show ?thesis by simp
qed

lemma lru_ok_list: "lru_ok list_lru"
  unfolding lru_ok_def
proof (intro conjI allI)
  fix k :: CacheKey and v :: "InternalRecord list" and l :: "nat \<times> (CacheKey \<times> InternalRecord list) list"
  have "map_of (take n ((k, v) # filter (\<lambda>(k', _). k' \<noteq> k) m)) \<subseteq>\<^sub>m (map_of m)(k \<mapsto> v)" for n m
    using map_of_take_le [of n "(k, v) # filter (\<lambda>(k', _). k' \<noteq> k) m"] by (simp add: map_of_filter_neq)
  then show "lru_map list_lru (lru_put list_lru k v l) \<subseteq>\<^sub>m (lru_map list_lru l)(k \<mapsto> v)"
    by (simp add: list_lru_def lru_map_def split: prod.split)
qed (auto simp: list_lru_def lru_map_def map_of_filter_neq fun_eq_iff split: prod.split option.split)

theorem cached_read_exact_witness:
  "let file = block_bytes (\<lambda>d. d) [delete_rec [1] 5 0]; rd = \<lparr>mmap = file, rd_sst_id = 7, block_offsets = [0]\<rparr>
   in snd (read_block_arc list_lru (\<lambda>d n. Inr d) rd 0 (with_block_size list_lru 120 128 8192))
      = read_block_inner (\<lambda>d n. Inr d) rd 0"
  unfolding Let_def
  by (intro conjunct1 [OF cached_read_exact [OF lru_ok_list cr_new, of "\<lambda>s. Some \<lparr>mmap = block_bytes (\<lambda>d. d) [delete_rec [1] 5 0],
    rd_sst_id = 7, block_offsets = [0]\<rparr>"]]) simp

end
