(* ===== verification/Heap.thy ===== *)
theory Heap
  imports Prelude "HOL-Library.Multiset"
begin

text \<open>
  \<^verbatim>\<open>std::collections::BinaryHeap\<close> as compaction and scans use it, and the k-way merge both build on it.
  \<open>push\<close> and \<open>pop\<close> follow the standard library (\<^verbatim>\<open>sift_up\<close> and \<^verbatim>\<open>sift_down_to_bottom\<close>; moving the hole
  over an element is written as a swap), so the element popped among equals is the library's.
  The locale \<open>heap_order\<close> is the contract \<^verbatim>\<open>Ord\<close> gives; the lemmas inside it hold for every such order.
\<close>

section \<open>The heap\<close>

definition swap :: "'a list \<Rightarrow> nat \<Rightarrow> nat \<Rightarrow> 'a list" where
  "swap xs i j = xs[j := xs ! i, i := xs ! j]"

function sift_up :: "('a \<Rightarrow> 'a \<Rightarrow> bool) \<Rightarrow> 'a list \<Rightarrow> nat \<Rightarrow> 'a list" where
  "sift_up le xs pos =
     (if pos = 0 then xs
      else let parent = (pos - 1) div 2
           in if le (xs ! pos) (xs ! parent) then xs else sift_up le (swap xs pos parent) parent)"
  by pat_completeness auto
termination
  by (relation "measure (\<lambda>(le, xs, pos). pos)") auto

function sift_down_to_bottom :: "('a \<Rightarrow> 'a \<Rightarrow> bool) \<Rightarrow> 'a list \<Rightarrow> nat \<Rightarrow> 'a list \<times> nat" where
  "sift_down_to_bottom le xs pos =
     (let child = 2 * pos + 1
      in if child \<le> length xs - 2
         then let child = (if le (xs ! child) (xs ! (child + 1)) then child + 1 else child)
              in sift_down_to_bottom le (swap xs pos child) child
         else if child = length xs - 1 then (swap xs pos child, child)
         else (xs, pos))"
  by pat_completeness auto
termination
  by (relation "measure (\<lambda>(le, xs, pos). length xs - pos)") (auto simp: swap_def)

declare sift_up.simps [simp del] sift_down_to_bottom.simps [simp del]

definition heap_push :: "('a \<Rightarrow> 'a \<Rightarrow> bool) \<Rightarrow> 'a \<Rightarrow> 'a list \<Rightarrow> 'a list" where
  "heap_push le x h = sift_up le (h @ [x]) (length h)"

definition heap_pop :: "('a \<Rightarrow> 'a \<Rightarrow> bool) \<Rightarrow> 'a list \<Rightarrow> ('a \<times> 'a list) option" where
  "heap_pop le h =
     (if h = [] then None
      else let item = last h; data = butlast h
           in if data = [] then Some (item, [])
              else let (data', pos) = sift_down_to_bottom le (data[0 := item]) 0
                   in Some (data ! 0, sift_up le data' pos))"

lemma length_swap [simp]: "length (swap xs i j) = length xs"
  by (simp add: swap_def)

lemma mset_swap_eq: "i < length xs \<Longrightarrow> j < length xs \<Longrightarrow> mset (swap xs i j) = mset xs"
  unfolding swap_def by (rule mset_swap)

lemma nth_swap:
  "i < length xs \<Longrightarrow> j < length xs \<Longrightarrow> k < length xs \<Longrightarrow>
   swap xs i j ! k = (if k = i then xs ! j else if k = j then xs ! i else xs ! k)"
  by (auto simp: swap_def nth_list_update)

lemma mset_sift_up: "pos < length xs \<Longrightarrow> mset (sift_up le xs pos) = mset xs"
proof (induction le xs pos rule: sift_up.induct)
  case (1 le xs pos)
  then show ?case
    by (subst sift_up.simps) (auto simp: Let_def mset_swap_eq)
qed

abbreviation big_child :: "('a \<Rightarrow> 'a \<Rightarrow> bool) \<Rightarrow> 'a list \<Rightarrow> nat \<Rightarrow> nat" where
  "big_child le xs pos \<equiv> if le (xs ! (2 * pos + 1)) (xs ! (2 * pos + 2)) then 2 * pos + 2 else 2 * pos + 1"

lemma sift_down_step:
  "2 * pos + 1 \<le> length xs - 2 \<Longrightarrow>
   sift_down_to_bottom le xs pos = sift_down_to_bottom le (swap xs pos (big_child le xs pos)) (big_child le xs pos)"
  by (subst sift_down_to_bottom.simps) (simp add: Let_def)

lemma sift_down_end:
  "\<not> 2 * pos + 1 \<le> length xs - 2 \<Longrightarrow>
   sift_down_to_bottom le xs pos =
     (if 2 * pos + 1 = length xs - 1 then (swap xs pos (2 * pos + 1), 2 * pos + 1) else (xs, pos))"
  by (subst sift_down_to_bottom.simps) (simp only: Let_def if_False)

lemma sift_down_keeps:
  "pos < length xs \<Longrightarrow> sift_down_to_bottom le xs pos = (ys, q) \<Longrightarrow> mset ys = mset xs \<and> q < length ys"
proof (induction "length xs - pos" arbitrary: xs pos rule: less_induct)
  case less
  let ?d = "big_child le xs pos"
  show ?case
  proof (cases "2 * pos + 1 \<le> length xs - 2")
    case True
    then have d: "?d < length xs" "pos < ?d" by auto
    then have "length (swap xs pos ?d) - ?d < length xs - pos" by (simp del: if_split)
    from less.hyps [OF this] d less.prems sift_down_step [OF True, of le] show ?thesis
      by (simp add: mset_swap_eq del: if_split)
  next
    case False
    from less.prems show ?thesis unfolding sift_down_end [OF False] by (auto split: if_splits simp: mset_swap_eq)
  qed
qed

lemma mset_heap_push [simp]: "mset (heap_push le x h) = add_mset x (mset h)"
  by (simp add: heap_push_def mset_sift_up)

lemma heap_pop_None [simp]: "heap_pop le h = None \<longleftrightarrow> h = []"
  by (auto simp: heap_pop_def Let_def split: prod.split)

lemma heap_pop_Nil [simp]: "heap_pop le [] = None"
  by simp

lemma heap_pop_cases:
  assumes "heap_pop le h = Some (x, h')"
  obtains (one) "h = [x]" "h' = []"
  | (many) data item ys q where "h = data @ [item]" "data \<noteq> []" "x = data ! 0"
      "sift_down_to_bottom le (data[0 := item]) 0 = (ys, q)" "h' = sift_up le ys q"
proof -
  have ne: "h \<noteq> []" using assms by auto
  show thesis
  proof (cases "butlast h = []")
    case True
    then have "h = [last h]" using ne append_butlast_last_id by fastforce
    with assms True ne show thesis by (intro one) (auto simp: heap_pop_def Let_def)
  next
    case False
    obtain ys q where "sift_down_to_bottom le ((butlast h)[0 := last h]) 0 = (ys, q)" by fastforce
    with assms False ne show thesis
      by (intro many [of "butlast h" "last h" ys q]) (auto simp: heap_pop_def Let_def)
  qed
qed

lemma mset_update_head:
  assumes "data \<noteq> []"
  shows "add_mset (data ! 0) (mset (data[0 := item])) = add_mset item (mset data)"
  using assms by (cases data) simp_all

lemma mset_heap_pop:
  assumes "heap_pop le h = Some (x, h')"
  shows "mset h = add_mset x (mset h')"
  using assms
proof (cases rule: heap_pop_cases)
  case one
  then show ?thesis by simp
next
  case (many data item ys q)
  then have "mset ys = mset (data[0 := item])" "q < length ys"
    using sift_down_keeps [of 0 "data[0 := item]" le ys q] by auto
  with many mset_update_head [of data item] show ?thesis by (simp add: mset_sift_up)
qed

lemma length_heap_pop: "heap_pop le h = Some (x, h') \<Longrightarrow> length h = Suc (length h')"
  using mset_heap_pop [of le h x h'] by (metis size_add_mset size_mset)

lemma length_heap_push [simp]: "length (heap_push le x h) = Suc (length h)"
  using mset_heap_push [of le x h] by (metis size_add_mset size_mset)

lemma set_heap_push [simp]: "set (heap_push le x h) = insert x (set h)"
  using mset_heap_push [of le x h] by (metis set_mset_add_mset_insert set_mset_mset)

lemma set_heap_pop: "heap_pop le h = Some (x, h') \<Longrightarrow> set h = insert x (set h')"
  using mset_heap_pop [of le h x h'] by (metis set_mset_add_mset_insert set_mset_mset)

section \<open>The heap order\<close>

definition edge :: "('a \<Rightarrow> 'a \<Rightarrow> bool) \<Rightarrow> 'a list \<Rightarrow> nat \<Rightarrow> bool" where
  "edge le xs i \<longleftrightarrow> le (xs ! i) (xs ! ((i - 1) div 2))"

definition heap_ok :: "('a \<Rightarrow> 'a \<Rightarrow> bool) \<Rightarrow> 'a list \<Rightarrow> bool" where
  "heap_ok le xs \<longleftrightarrow> (\<forall>i. 0 < i \<longrightarrow> i < length xs \<longrightarrow> edge le xs i)"

text \<open>The element at \<open>pos\<close> may be too large for its parent; everything below it is fine.\<close>

definition up_inv :: "('a \<Rightarrow> 'a \<Rightarrow> bool) \<Rightarrow> 'a list \<Rightarrow> nat \<Rightarrow> bool" where
  "up_inv le xs pos \<longleftrightarrow>
     (\<forall>i. 0 < i \<longrightarrow> i < length xs \<longrightarrow> i \<noteq> pos \<longrightarrow> edge le xs i)
     \<and> (\<forall>c. 0 < c \<longrightarrow> c < length xs \<longrightarrow> (c - 1) div 2 = pos \<longrightarrow> 0 < pos \<longrightarrow> le (xs ! c) (xs ! ((pos - 1) div 2)))"

text \<open>The element at \<open>pos\<close> may be out of order in both directions.\<close>

definition down_inv :: "('a \<Rightarrow> 'a \<Rightarrow> bool) \<Rightarrow> 'a list \<Rightarrow> nat \<Rightarrow> bool" where
  "down_inv le xs pos \<longleftrightarrow>
     (\<forall>i. 0 < i \<longrightarrow> i < length xs \<longrightarrow> i \<noteq> pos \<longrightarrow> (i - 1) div 2 \<noteq> pos \<longrightarrow> edge le xs i)
     \<and> (\<forall>c. 0 < c \<longrightarrow> c < length xs \<longrightarrow> (c - 1) div 2 = pos \<longrightarrow> 0 < pos \<longrightarrow> le (xs ! c) (xs ! ((pos - 1) div 2)))"

locale heap_order =
  fixes le :: "'a \<Rightarrow> 'a \<Rightarrow> bool"
  assumes le_total: "le a b \<or> le b a"
    and le_trans: "le a b \<Longrightarrow> le b c \<Longrightarrow> le a c"
begin

lemma le_refl: "le a a"
  using le_total by blast

lemma sift_up_ok: "pos < length xs \<Longrightarrow> up_inv le xs pos \<Longrightarrow> heap_ok le (sift_up le xs pos)"
proof (induction pos arbitrary: xs rule: less_induct)
  case (less pos)
  let ?p = "(pos - 1) div 2"
  show ?case
  proof (cases "pos = 0 \<or> le (xs ! pos) (xs ! ?p)")
    case True
    then have "sift_up le xs pos = xs" by (subst sift_up.simps) (auto simp: Let_def)
    moreover have "heap_ok le xs" using less.prems True by (auto simp: up_inv_def heap_ok_def edge_def)
    ultimately show ?thesis by simp
  next
    case False
    then have p: "0 < pos" "?p < pos" "?p < length xs" and gt: "le (xs ! ?p) (xs ! pos)"
      using less.prems(1) le_total by auto
    let ?ys = "swap xs pos ?p"
    have ys: "?ys ! k = (if k = pos then xs ! ?p else if k = ?p then xs ! pos else xs ! k)" if "k < length xs" for k
      using nth_swap [of pos xs ?p k] less.prems(1) p that by simp
    have "edge le ?ys i" if i: "0 < i" "i < length xs" "i \<noteq> ?p" for i
    proof -
      let ?q = "(i - 1) div 2"
      have q: "?q < length xs" "?q < i" using i by auto
      consider "i = pos" | "i \<noteq> pos" "?q = pos" | "i \<noteq> pos" "?q = ?p" | "i \<noteq> pos" "?q \<noteq> pos" "?q \<noteq> ?p" by blast
      then show ?thesis
      proof cases
        case 1
        then show ?thesis using ys [of i] ys [of ?q] i q gt by (simp add: edge_def)
      next
        case 2
        then have "le (xs ! i) (xs ! ?p)" using less.prems(2) i p by (auto simp: up_inv_def)
        then show ?thesis using 2 ys [of i] ys [of ?q] i q by (simp add: edge_def)
      next
        case 3
        then have "edge le xs i" using less.prems(2) i by (auto simp: up_inv_def)
        with 3 have "le (xs ! i) (xs ! ?p)" by (simp only: edge_def)
        with gt have "le (xs ! i) (xs ! pos)" by (rule le_trans [rotated])
        then show ?thesis using 3 ys [of i] ys [of ?q] i q p by (simp add: edge_def)
      next
        case 4
        then show ?thesis using less.prems(2) ys [of i] ys [of ?q] i q by (auto simp: up_inv_def edge_def)
      qed
    qed
    moreover have "le (?ys ! c) (?ys ! ((?p - 1) div 2))"
      if c: "0 < c" "c < length xs" "(c - 1) div 2 = ?p" "0 < ?p" for c
    proof -
      have pp: "le (xs ! ?p) (xs ! ((?p - 1) div 2))" using less.prems(2) p c(4) by (auto simp: up_inv_def edge_def)
      have "(?p - 1) div 2 < ?p" using c(4) by auto
      then have "?ys ! ((?p - 1) div 2) = xs ! ((?p - 1) div 2)" using ys [of "(?p - 1) div 2"] p by auto
      moreover have "le (xs ! c) (xs ! ?p)" if "c \<noteq> pos"
      proof -
        have "edge le xs c" using less.prems(2) c that by (auto simp: up_inv_def)
        with c(3) show ?thesis by (simp only: edge_def)
      qed
      moreover have "c \<noteq> ?p" using c by auto
      ultimately show ?thesis using ys [of c] c pp le_trans [of "xs ! c" "xs ! ?p"] by auto
    qed
    ultimately have "up_inv le ?ys ?p" by (simp add: up_inv_def)
    with less.IH [of ?p ?ys] p have "heap_ok le (sift_up le ?ys ?p)" by simp
    moreover have "sift_up le xs pos = sift_up le ?ys ?p"
      using False by (subst sift_up.simps) (simp add: Let_def)
    ultimately show ?thesis by simp
  qed
qed

lemma down_inv_step:
  assumes c: "2 * pos + 1 < length xs" and d: "d = 2 * pos + 1 \<or> d = 2 * pos + 2" "d < length xs"
    and big: "\<And>e. e = 2 * pos + 1 \<or> e = 2 * pos + 2 \<Longrightarrow> e < length xs \<Longrightarrow> le (xs ! e) (xs ! d)"
    and inv: "down_inv le xs pos"
  shows "down_inv le (swap xs pos d) d"
proof -
  let ?ys = "swap xs pos d"
  have dp: "(d - 1) div 2 = pos" "pos < d" using d(1) by auto
  have ys: "?ys ! k = (if k = pos then xs ! d else if k = d then xs ! pos else xs ! k)" if "k < length xs" for k
    using nth_swap [of pos xs d k] c d that by simp
  have "edge le ?ys i" if i: "0 < i" "i < length xs" "i \<noteq> d" "(i - 1) div 2 \<noteq> d" for i
  proof -
    let ?q = "(i - 1) div 2"
    have q: "?q < length xs" "?q < i" using i by auto
    consider "i = pos" | "i \<noteq> pos" "?q = pos" | "i \<noteq> pos" "?q \<noteq> pos" by blast
    then show ?thesis
    proof cases
      case 1
      then have "le (xs ! d) (xs ! ?q)" using inv d dp i by (auto simp: down_inv_def)
      then show ?thesis using 1 ys [of i] ys [of ?q] i q by (simp add: edge_def)
    next
      case 2
      then have "i = 2 * pos + 1 \<or> i = 2 * pos + 2" using i(1) by auto
      from big [OF this i(2)] show ?thesis using 2 ys [of i] ys [of ?q] i q by (simp add: edge_def)
    next
      case 3
      then show ?thesis using inv ys [of i] ys [of ?q] i q by (auto simp: down_inv_def edge_def)
    qed
  qed
  moreover have "le (?ys ! e) (?ys ! ((d - 1) div 2))" if e: "0 < e" "e < length xs" "(e - 1) div 2 = d" for e
  proof -
    have ed: "e \<noteq> d" "e \<noteq> pos" using e(1,3) dp(2) by auto
    have "edge le xs e" using inv e ed dp(2) by (auto simp: down_inv_def)
    then have "le (xs ! e) (xs ! d)" using e(3) by (simp only: edge_def)
    moreover have "?ys ! e = xs ! e" "?ys ! pos = xs ! d" using ys [of e] ys [of pos] ed e(2) c by simp_all
    ultimately show ?thesis unfolding dp(1) by simp
  qed
  ultimately show ?thesis by (simp add: down_inv_def)
qed

lemma down_inv_leaf: "down_inv le xs pos \<Longrightarrow> length xs \<le> 2 * pos + 1 \<Longrightarrow> up_inv le xs pos"
  unfolding down_inv_def up_inv_def by fastforce

lemma sift_down_up_inv:
  "pos < length xs \<Longrightarrow> down_inv le xs pos \<Longrightarrow> sift_down_to_bottom le xs pos = (ys, q) \<Longrightarrow> up_inv le ys q"
proof (induction "length xs - pos" arbitrary: xs pos rule: less_induct)
  case less
  let ?d = "big_child le xs pos"
  show ?case
  proof (cases "2 * pos + 1 \<le> length xs - 2")
    case True
    then have d: "?d < length xs" "pos < ?d" "?d = 2 * pos + 1 \<or> ?d = 2 * pos + 2" "2 * pos + 1 < length xs" by auto
    have "le (xs ! e) (xs ! ?d)" if "e = 2 * pos + 1 \<or> e = 2 * pos + 2" for e
      using that le_total [of "xs ! (2 * pos + 1)" "xs ! (2 * pos + 2)"] le_refl by auto
    then have "down_inv le (swap xs pos ?d) ?d" using d less.prems(2) by (intro down_inv_step) auto
    moreover have "length (swap xs pos ?d) - ?d < length xs - pos" using d by (simp del: if_split)
    ultimately show ?thesis
      using less.hyps [of "swap xs pos ?d" ?d] d less.prems(3) sift_down_step [OF True, of le] by (simp del: if_split)
  next
    case False
    show ?thesis
    proof (cases "2 * pos + 1 = length xs - 1")
      case True
      then have d: "2 * pos + 1 < length xs" "length xs = 2 * pos + 2" using less.prems(1) by auto
      have "down_inv le (swap xs pos (2 * pos + 1)) (2 * pos + 1)"
        using d less.prems(2) le_refl by (intro down_inv_step) auto
      then show ?thesis using less.prems(3) True d unfolding sift_down_end [OF False] by (auto intro: down_inv_leaf)
    next
      case no: False
      with False less.prems show ?thesis unfolding sift_down_end [OF False] by (auto intro!: down_inv_leaf)
    qed
  qed
qed

lemma heap_ok_push: "heap_ok le h \<Longrightarrow> heap_ok le (heap_push le x h)"
  unfolding heap_push_def
proof (rule sift_up_ok)
  assume h: "heap_ok le h"
  have "edge le (h @ [x]) i" if "0 < i" "i < length h" for i
  proof -
    have "(i - 1) div 2 < length h" using that by auto
    then show ?thesis using h that by (simp add: heap_ok_def edge_def nth_append)
  qed
  moreover have "\<not> (c - 1) div 2 = length h" if "0 < c" "c < length (h @ [x])" for c using that by auto
  ultimately show "up_inv le (h @ [x]) (length h)" by (auto simp: up_inv_def less_Suc_eq)
qed simp

lemma heap_ok_pop:
  assumes "heap_ok le h" "heap_pop le h = Some (x, h')"
  shows "heap_ok le h'"
  using assms(2)
proof (cases rule: heap_pop_cases)
  case one
  then show ?thesis by (simp add: heap_ok_def)
next
  case (many data item ys q)
  have "edge le (data[0 := item]) i" if "0 < i" "i < length data" "(i - 1) div 2 \<noteq> 0" for i
  proof -
    have "edge le h i" using assms(1) many that by (simp add: heap_ok_def)
    moreover have "(i - 1) div 2 < length data" using that by auto
    ultimately show ?thesis using many that by (simp add: edge_def nth_append)
  qed
  then have "down_inv le (data[0 := item]) 0" by (simp add: down_inv_def)
  then have "up_inv le ys q" "q < length ys"
    using many sift_down_up_inv [of 0 "data[0 := item]" ys q] sift_down_keeps [of 0 "data[0 := item]" le ys q] by auto
  then show ?thesis using many sift_up_ok by simp
qed

lemma heap_top: "heap_ok le h \<Longrightarrow> i < length h \<Longrightarrow> le (h ! i) (h ! 0)"
proof (induction i rule: less_induct)
  case (less i)
  show ?case
  proof (cases "i = 0")
    case False
    then have "le (h ! i) (h ! ((i - 1) div 2))" using less.prems by (simp add: heap_ok_def edge_def)
    moreover have "le (h ! ((i - 1) div 2)) (h ! 0)" using less False by auto
    ultimately show ?thesis by (rule le_trans)
  qed (simp add: le_refl)
qed

lemma heap_pop_max:
  assumes "heap_ok le h" "heap_pop le h = Some (x, h')" "y \<in> set h"
  shows "le y x"
proof -
  have "x = h ! 0" using assms(2) by (cases rule: heap_pop_cases) (auto simp: nth_append)
  with assms heap_top show ?thesis by (auto simp: in_set_conv_nth)
qed

end

section \<open>The k-way merge\<close>

text \<open>
  The loop that compaction and scans share: the heap holds one entry per source that is not exhausted, made
  by \<open>mk\<close> from the source's next element; popping an entry takes that element and pushes the next one.
\<close>

lemma length_concat_update:
  "i < length srcs \<Longrightarrow> srcs ! i = x # xs \<Longrightarrow> length (concat srcs) = Suc (length (concat (srcs[i := xs])))"
proof (induction srcs arbitrary: i)
  case (Cons s srcs)
  then show ?case by (cases i) auto
qed simp

function kmerge :: "('e \<Rightarrow> 'e \<Rightarrow> bool) \<Rightarrow> ('a \<Rightarrow> nat \<Rightarrow> 'e) \<Rightarrow> ('e \<Rightarrow> nat) \<Rightarrow> 'e list \<Rightarrow> 'a list list \<Rightarrow> 'a list" where
  "kmerge le mk src h srcs =
     (case heap_pop le h of
        None \<Rightarrow> []
      | Some (e, h') \<Rightarrow>
          if src e < length srcs
          then case srcs ! src e of
                 [] \<Rightarrow> kmerge le mk src h' srcs
               | x # xs \<Rightarrow> x # kmerge le mk src
                   (case xs of [] \<Rightarrow> h' | y # _ \<Rightarrow> heap_push le (mk y (src e)) h') (srcs[src e := xs])
          else kmerge le mk src h' srcs)"
  by pat_completeness auto
termination
  by (relation "measure (\<lambda>(le, mk, src, h, srcs). length h + length (concat srcs))")
    (auto dest!: length_heap_pop simp: length_concat_update split: list.split)

declare kmerge.simps [simp del]

definition heads :: "('a \<Rightarrow> nat \<Rightarrow> 'e) \<Rightarrow> 'a list list \<Rightarrow> 'e list" where
  "heads mk srcs = map (\<lambda>i. mk (hd (srcs ! i)) i) (filter (\<lambda>i. srcs ! i \<noteq> []) [0..<length srcs])"

lemma heads_enumerate:
  "heads mk srcs = map (\<lambda>(j, s). mk (hd s) j) (filter (\<lambda>(j, s). s \<noteq> []) (enumerate 0 srcs))"
proof -
  have "enumerate 0 srcs = map (\<lambda>i. (i, srcs ! i)) [0..<length srcs]"
    by (rule nth_equalityI) (simp_all add: nth_enumerate_eq)
  then show ?thesis by (simp add: heads_def filter_map o_def)
qed

definition merge_ok :: "('e \<Rightarrow> 'e \<Rightarrow> bool) \<Rightarrow> ('a \<Rightarrow> nat \<Rightarrow> 'e) \<Rightarrow> 'e list \<Rightarrow> 'a list list \<Rightarrow> bool" where
  "merge_ok le mk h srcs \<longleftrightarrow> heap_ok le h \<and> mset h = mset (heads mk srcs)"

lemma mset_map_filter_update:
  assumes "i < n" "P i" "\<And>j. j \<noteq> i \<Longrightarrow> P' j = P j" "\<And>j. j \<noteq> i \<Longrightarrow> f' j = f j"
  shows "mset (map f (filter P [0..<n])) = add_mset (f i) (mset (map f' (filter (\<lambda>j. P' j \<and> j \<noteq> i) [0..<n])))"
proof -
  have split: "[0..<n] = [0..<i] @ i # [Suc i..<n]"
    using assms(1) by (metis le_add_diff_inverse less_imp_le_nat plus_nat.add_0 upt_add_eq_append upt_conv_Cons zero_le)
  have "map f (filter P xs) = map f' (filter (\<lambda>j. P' j \<and> j \<noteq> i) xs)" if "i \<notin> set xs" for xs
    using that by (induction xs) (auto simp: assms(3,4))
  then have "map f (filter P [0..<i]) = map f' (filter (\<lambda>j. P' j \<and> j \<noteq> i) [0..<i])"
    "map f (filter P [Suc i..<n]) = map f' (filter (\<lambda>j. P' j \<and> j \<noteq> i) [Suc i..<n])" by simp_all
  then show ?thesis unfolding split using assms(2) by (simp add: filter_append)
qed

lemma heads_update:
  assumes "i < length srcs" "srcs ! i = x # xs"
  shows "mset (heads mk srcs) + (case xs of [] \<Rightarrow> {#} | y # _ \<Rightarrow> {#mk y i#})
    = add_mset (mk x i) (mset (heads mk (srcs[i := xs])))"
proof -
  let ?s = "srcs[i := xs]"
  let ?f = "\<lambda>i. mk (hd (srcs ! i)) i" and ?g = "\<lambda>i. mk (hd (?s ! i)) i"
  let ?rest = "mset (map ?f (filter (\<lambda>j. srcs ! j \<noteq> [] \<and> j \<noteq> i) [0..<length srcs]))"
  have 1: "mset (heads mk srcs) = add_mset (mk x i) ?rest"
    unfolding heads_def using mset_map_filter_update [OF assms(1), of "\<lambda>i. srcs ! i \<noteq> []" "\<lambda>i. srcs ! i \<noteq> []" ?f ?f] assms(2) by simp
  show ?thesis
  proof (cases xs)
    case Nil
    have "filter (\<lambda>j. srcs ! j \<noteq> [] \<and> j \<noteq> i) [0..<length srcs] = filter (\<lambda>j. ?s ! j \<noteq> []) [0..<length srcs]"
      using assms(1) Nil by (intro filter_cong) (auto simp: nth_list_update)
    then have "mset (heads mk ?s) = ?rest" unfolding heads_def length_list_update
      using assms(1) Nil by (intro arg_cong [where f = mset] map_cong) (auto simp: nth_list_update)
    with 1 Nil show ?thesis by simp
  next
    case (Cons y ys)
    have "mset (heads mk ?s) = add_mset (?g i) ?rest"
      unfolding heads_def length_list_update using assms(1) Cons
      by (intro mset_map_filter_update) (auto simp: nth_list_update)
    with 1 Cons assms(1) show ?thesis by simp
  qed
qed

text \<open>A merge: the entries' order \<open>le\<close> is the reverse of the elements' order \<open>ord\<close> (the heap is a max-heap), and an
  entry knows its source.\<close>

locale merge_order = heap_order le for le :: "'e \<Rightarrow> 'e \<Rightarrow> bool" +
  fixes mk :: "'a \<Rightarrow> nat \<Rightarrow> 'e" and src :: "'e \<Rightarrow> nat" and ord :: "'a \<Rightarrow> 'a \<Rightarrow> bool" and bound :: nat
  assumes src_mk: "i < bound \<Longrightarrow> src (mk x i) = i"
    and le_mk: "le (mk x i) (mk y j) \<longleftrightarrow> ord y x"
begin

lemma ord_trans: "ord x y \<Longrightarrow> ord y z \<Longrightarrow> ord x z"
  using le_mk le_trans by blast

lemma merge_pop:
  assumes "merge_ok le mk h srcs" "length srcs \<le> bound" "heap_pop le h = Some (e, h')"
  obtains i x xs where "src e = i" "i < length srcs" "srcs ! i = x # xs" "e = mk x i"
    "merge_ok le mk (case xs of [] \<Rightarrow> h' | y # _ \<Rightarrow> heap_push le (mk y i) h') (srcs[i := xs])"
proof -
  have m: "mset (heads mk srcs) = add_mset e (mset h')"
    using assms(1) mset_heap_pop [OF assms(3)] by (simp add: merge_ok_def)
  then have "e \<in> set (heads mk srcs)" by (metis set_mset_mset union_single_eq_member)
  then obtain i where i: "i < length srcs" "srcs ! i \<noteq> []" "e = mk (hd (srcs ! i)) i" by (auto simp: heads_def)
  then obtain x xs where x: "srcs ! i = x # xs" by (meson neq_Nil_conv)
  let ?h = "case xs of [] \<Rightarrow> h' | y # _ \<Rightarrow> heap_push le (mk y i) h'"
  have "heap_ok le h'" using assms(1,3) heap_ok_pop by (auto simp: merge_ok_def)
  then have "heap_ok le ?h" by (auto split: list.split intro: heap_ok_push)
  moreover have "mset ?h = mset (heads mk (srcs[i := xs]))"
    using heads_update [OF i(1) x, of mk] m i x by (auto split: list.splits)
  ultimately have "merge_ok le mk ?h (srcs[i := xs])" by (simp add: merge_ok_def)
  moreover have "src e = i" using i(1,3) assms(2) src_mk by simp
  ultimately show thesis using that i x by simp
qed

lemma merge_empty:
  assumes "merge_ok le mk [] srcs"
  shows "concat srcs = []"
proof -
  have "heads mk srcs = []" using assms by (simp add: merge_ok_def)
  then show ?thesis by (auto simp: heads_def filter_empty_conv in_set_conv_nth)
qed

lemma mset_concat_update:
  "i < length srcs \<Longrightarrow> srcs ! i = x # xs \<Longrightarrow> mset (concat srcs) = add_mset x (mset (concat (srcs[i := xs])))"
proof (induction srcs arbitrary: i)
  case (Cons s srcs)
  then show ?case by (cases i) auto
qed simp

lemma kmerge_step:
  assumes "heap_pop le h = Some (e, h')" "src e = i" "i < length srcs" "srcs ! i = x # xs"
  shows "kmerge le mk src h srcs =
    x # kmerge le mk src (case xs of [] \<Rightarrow> h' | y # _ \<Rightarrow> heap_push le (mk y i) h') (srcs[i := xs])"
  unfolding assms(2) [symmetric] using assms by (subst kmerge.simps) simp

lemma kmerge_mset:
  "merge_ok le mk h srcs \<Longrightarrow> length srcs \<le> bound \<Longrightarrow> mset (kmerge le mk src h srcs) = mset (concat srcs)"
proof (induction "length (concat srcs)" arbitrary: h srcs rule: less_induct)
  case less
  show ?case
  proof (cases "heap_pop le h")
    case None
    then have "h = []" by simp
    moreover have "kmerge le mk src [] srcs = []" by (subst kmerge.simps) simp
    ultimately show ?thesis using merge_empty less.prems by simp
  next
    case (Some p)
    then obtain e h' where pop: "heap_pop le h = Some (e, h')" by (cases p) auto
    from merge_pop [OF less.prems pop] obtain i x xs where i: "src e = i" "i < length srcs" "srcs ! i = x # xs"
      and ok: "merge_ok le mk (case xs of [] \<Rightarrow> h' | y # _ \<Rightarrow> heap_push le (mk y i) h') (srcs[i := xs])" by blast
    have "length (concat (srcs[i := xs])) < length (concat srcs)" using length_concat_update [OF i(2,3)] by simp
    from less.hyps [OF this ok] less.prems(2) kmerge_step [OF pop i] mset_concat_update [OF i(2,3)] show ?thesis by simp
  qed
qed

lemma pop_first:
  assumes "merge_ok le mk h srcs" "\<forall>s\<in>set srcs. sorted_wrt ord s" "heap_pop le h = Some (mk x i, h')"
    "y \<in> set (concat srcs)"
  shows "ord x y"
proof -
  from assms(4) obtain s where "s \<in> set srcs" "y \<in> set s" by auto
  then obtain j where j: "j < length srcs" "y \<in> set (srcs ! j)" by (metis in_set_conv_nth)
  then have "mk (hd (srcs ! j)) j \<in> set (heads mk srcs)" by (force simp: heads_def)
  then have "mk (hd (srcs ! j)) j \<in> set h" using assms(1) by (metis merge_ok_def set_mset_mset)
  with assms(1,3) have "le (mk (hd (srcs ! j)) j) (mk x i)" using heap_pop_max by (auto simp: merge_ok_def)
  then have "ord x (hd (srcs ! j))" by (simp add: le_mk)
  moreover have "hd (srcs ! j) = y \<or> ord (hd (srcs ! j)) y"
    using assms(2) j(2) nth_mem [OF j(1)] by (cases "srcs ! j") auto
  ultimately show ?thesis using ord_trans by blast
qed

lemma kmerge_sorted:
  "merge_ok le mk h srcs \<Longrightarrow> length srcs \<le> bound \<Longrightarrow> \<forall>s\<in>set srcs. sorted_wrt ord s \<Longrightarrow>
   sorted_wrt ord (kmerge le mk src h srcs)"
proof (induction "length (concat srcs)" arbitrary: h srcs rule: less_induct)
  case less
  show ?case
  proof (cases "heap_pop le h")
    case None
    then show ?thesis by (subst kmerge.simps) simp
  next
    case (Some p)
    then obtain e h' where pop: "heap_pop le h = Some (e, h')" by (cases p) auto
    from merge_pop [OF less.prems(1,2) pop] obtain i x xs
      where i: "src e = i" "i < length srcs" "srcs ! i = x # xs" "e = mk x i"
        and ok: "merge_ok le mk (case xs of [] \<Rightarrow> h' | y # _ \<Rightarrow> heap_push le (mk y i) h') (srcs[i := xs])" by blast
    let ?out = "kmerge le mk src (case xs of [] \<Rightarrow> h' | y # _ \<Rightarrow> heap_push le (mk y i) h') (srcs[i := xs])"
    have xs: "sorted_wrt ord xs" using less.prems(3) nth_mem [OF i(2)] i(3) by auto
    then have sub: "\<forall>s\<in>set (srcs[i := xs]). sorted_wrt ord s"
      using less.prems(3) set_update_subset_insert [of srcs i xs] by auto
    have len: "length (srcs[i := xs]) \<le> bound" using less.prems(2) by simp
    have "length (concat (srcs[i := xs])) < length (concat srcs)" using length_concat_update [OF i(2,3)] by simp
    with less.hyps ok len sub have "sorted_wrt ord ?out" by blast
    moreover have "set ?out \<subseteq> set (concat srcs)"
      using kmerge_mset [OF ok len] mset_concat_update [OF i(2,3)]
      by (metis mset_subset_eq_add_right set_mset_mono set_mset_mset add_mset_add_single union_commute)
    then have "\<forall>y\<in>set ?out. ord x y"
      using pop_first [OF less.prems(1,3), of x i h'] pop i(4) by blast
    ultimately show ?thesis using kmerge_step [OF pop i(1-3)] by simp
  qed
qed

end

text \<open>Filling an empty heap.\<close>

lemma mset_push_all: "mset (fold (heap_push le) es h) = mset es + mset h"
  by (induction es arbitrary: h) auto

lemma heap_ok_push_all: "heap_order le \<Longrightarrow> heap_ok le h \<Longrightarrow> heap_ok le (fold (heap_push le) es h)"
  by (induction es arbitrary: h) (auto intro: heap_order.heap_ok_push)

lemma merge_ok_init: "heap_order le \<Longrightarrow> merge_ok le mk (fold (heap_push le) (heads mk srcs) []) srcs"
  unfolding merge_ok_def using heap_ok_push_all [of le "[]"] by (simp add: mset_push_all heap_ok_def)

end
