(* ===== verification/Compaction.thy ===== *)
theory Compaction
  imports Gc Heap
begin

text \<open>
  \<^verbatim>\<open>src/compaction.rs\<close>: size-tiered compaction.  Candidate tables are read block by block, merged through a binary
  heap, deduplicated by \<open>(key, ts)\<close> and streamed into one new table; the candidates are dropped.
  Like garbage collection, a run maps the worker and the cache to their next states.
  Shown: the merge terminates and what it writes is the deduplication of the heap's merge; every version without a
  tombstone survives; but the heap is a max-heap, so the new table is written in descending order and point
  lookups no longer find its keys.
\<close>

section \<open>Block iterators\<close>

record SstBlockIterator =
  it_reader :: SstReader
  it_current_block :: nat
  it_block_records :: "InternalRecord list"
  it_record_pos :: nat
  it_now_us :: int

definition BlockIterator_new :: "SstReader \<Rightarrow> int \<Rightarrow> SstBlockIterator" where
  "BlockIterator_new rd now_us =
     \<lparr>it_reader = rd, it_current_block = 0, it_block_records = [], it_record_pos = 0, it_now_us = now_us\<rparr>"

text \<open>A stable sort in descending order of \<open>f\<close>.\<close>

definition sort_desc :: "('a \<Rightarrow> 'b::linorder) \<Rightarrow> 'a list \<Rightarrow> 'a list" where
  "sort_desc f xs = rev (sort_key f (rev xs))"

definition load_block :: "int \<Rightarrow> InternalRecord list \<Rightarrow> InternalRecord list" where
  "load_block now_us rs = sort_desc version (map forget_seq (filter (\<lambda>r. now_us < expire_at r) rs))"

text \<open>The read of a block goes without the cache, so it is \<open>read_block_inner\<close>.\<close>

function next_record :: "(bytes \<Rightarrow> nat \<Rightarrow> string + bytes) \<Rightarrow> SstBlockIterator \<Rightarrow> SstBlockIterator \<times> InternalRecord option" where
  "next_record decompress it =
     (if it_record_pos it < length (it_block_records it)
      then (it\<lparr>it_record_pos := it_record_pos it + 1\<rparr>, Some (it_block_records it ! it_record_pos it))
      else if block_count (it_reader it) \<le> it_current_block it then (it, None)
      else case read_block_inner decompress (it_reader it) (it_current_block it) of
             Inr rs \<Rightarrow> next_record decompress
               (it\<lparr>it_block_records := load_block (it_now_us it) rs, it_record_pos := 0,
                   it_current_block := it_current_block it + 1\<rparr>)
           | Inl _ \<Rightarrow> next_record decompress (it\<lparr>it_current_block := it_current_block it + 1\<rparr>))"
  by pat_completeness auto
termination
  by (relation "measure (\<lambda>(d, it). block_count (it_reader it) - it_current_block it)") auto

declare next_record.simps [simp del]

section \<open>The heap\<close>

record HeapEntry =
  he_record :: InternalRecord
  he_source :: nat

definition heap_entry :: "InternalRecord \<Rightarrow> nat \<Rightarrow> HeapEntry" where
  "heap_entry r i = \<lparr>he_record = r, he_source = i\<rparr>"

text \<open>\<^verbatim>\<open>Ord for HeapEntry\<close>: key, then timestamp, then the lower sequence number is greater.\<close>

definition heap_entry_le :: "HeapEntry \<Rightarrow> HeapEntry \<Rightarrow> bool" where
  "heap_entry_le a b \<longleftrightarrow> sort_ord (he_record a) \<le> sort_ord (he_record b)"

section \<open>The merge loop\<close>

text \<open>What the loop carries beside heap and iterators: \<open>last_dedup\<close>, \<open>records_written\<close> and the writer.\<close>

type_synonym merge_state = "(bytes \<times> int) option \<times> nat \<times> SstStreamWriter"

definition compact_step :: "(bytes \<Rightarrow> bytes) \<Rightarrow> InternalRecord \<Rightarrow> merge_state \<Rightarrow> merge_state" where
  "compact_step compress r = (\<lambda>(last_dedup, n, wr).
     if last_dedup \<noteq> Some (version r)
     then if rop r \<noteq> Delete \<and> rop r \<noteq> DeleteRange
          then (Some (version r), n + 1, write_record compress r wr)
          else (Some (version r), n, wr)
     else (last_dedup, n, wr))"

text \<open>What an iterator still yields; it bounds the loop.\<close>

definition block_yield :: "(bytes \<Rightarrow> nat \<Rightarrow> string + bytes) \<Rightarrow> SstReader \<Rightarrow> int \<Rightarrow> nat \<Rightarrow> InternalRecord list" where
  "block_yield decompress rd now_us i =
     (case read_block_inner decompress rd i of Inr rs \<Rightarrow> load_block now_us rs | Inl _ \<Rightarrow> [])"

definition it_rest :: "(bytes \<Rightarrow> nat \<Rightarrow> string + bytes) \<Rightarrow> SstBlockIterator \<Rightarrow> InternalRecord list" where
  "it_rest decompress it =
     drop (it_record_pos it) (it_block_records it)
     @ concat (map (block_yield decompress (it_reader it) (it_now_us it)) [it_current_block it..<block_count (it_reader it)])"

lemma next_record_rest:
  "it_rest decompress it = (case next_record decompress it of (it', None) \<Rightarrow> [] | (it', Some r) \<Rightarrow> r # it_rest decompress it')"
proof (induction decompress it rule: next_record.induct)
  case (1 decompress it)
  let ?p = "it_record_pos it" and ?b = "it_block_records it" and ?c = "it_current_block it"
  consider (rec) "?p < length ?b" | (stop) "\<not> ?p < length ?b" "block_count (it_reader it) \<le> ?c"
    | (load) "\<not> ?p < length ?b" "?c < block_count (it_reader it)" by fastforce
  then show ?case
  proof cases
    case rec
    then show ?thesis
      by (subst next_record.simps) (simp add: it_rest_def Cons_nth_drop_Suc [symmetric] del: Cons_nth_drop_Suc)
  next
    case stop
    then show ?thesis by (subst next_record.simps) (simp add: it_rest_def)
  next
    case load
    then have "[?c..<block_count (it_reader it)] = ?c # [Suc ?c..<block_count (it_reader it)]" by (simp add: upt_conv_Cons)
    then show ?thesis using 1 load
      by (subst next_record.simps) (auto simp: it_rest_def block_yield_def split: sum.splits)
  qed
qed

lemma next_record_None:
  "next_record decompress it = (it', None) \<Longrightarrow> it_rest decompress it' = []"
proof (induction decompress it rule: next_record.induct)
  case (1 decompress it)
  then show ?case
    by (subst (asm) (3) next_record.simps) (auto simp: it_rest_def split: if_splits sum.splits)
qed

lemma sum_list_update_le:
  fixes f :: "'a \<Rightarrow> nat"
  shows "i < length xs \<Longrightarrow> f y \<le> f (xs ! i) \<Longrightarrow> sum_list (map f (xs[i := y])) \<le> sum_list (map f xs)"
proof (induction xs arbitrary: i)
  case (Cons x xs)
  then show ?case by (cases i) auto
qed simp

lemma sum_list_update_less:
  fixes f :: "'a \<Rightarrow> nat"
  shows "i < length xs \<Longrightarrow> f y < f (xs ! i) \<Longrightarrow> sum_list (map f (xs[i := y])) < sum_list (map f xs)"
proof (induction xs arbitrary: i)
  case (Cons x xs)
  then show ?case by (cases i) auto
qed simp

definition its_left :: "(bytes \<Rightarrow> nat \<Rightarrow> string + bytes) \<Rightarrow> SstBlockIterator list \<Rightarrow> nat" where
  "its_left decompress its = sum_list (map (\<lambda>it. length (it_rest decompress it)) its)"

lemma loop_advance:
  assumes "heap_pop le h = Some (e, h')" "\<not> length its \<le> i" "(it, Some r) = next_record decompress (its ! i)"
  shows "Suc (length h' + its_left decompress (its[i := it])) < length h + its_left decompress its"
proof -
  have "it_rest decompress (its ! i) = r # it_rest decompress it"
    by (subst next_record_rest) (simp add: assms(3) [symmetric])
  then have "its_left decompress (its[i := it]) < its_left decompress its"
    unfolding its_left_def using assms(2) by (intro sum_list_update_less) auto
  with length_heap_pop [OF assms(1)] show ?thesis by simp
qed

lemma loop_exhaust:
  assumes "heap_pop le h = Some (e, h')" "\<not> length its \<le> i" "(it, None) = next_record decompress (its ! i)"
  shows "length h' + its_left decompress (its[i := it]) < length h + its_left decompress its"
proof -
  have "its_left decompress (its[i := it]) \<le> its_left decompress its"
    unfolding its_left_def using assms(2,3) next_record_None [of decompress "its ! i" it]
    by (intro sum_list_update_le) auto
  with length_heap_pop [OF assms(1)] show ?thesis by simp
qed

text \<open>Indexing \<^verbatim>\<open>iterators[entry.source]\<close> out of range would panic; \<open>None\<close> is that panic.\<close>

function compact_loop :: "(bytes \<Rightarrow> bytes) \<Rightarrow> (bytes \<Rightarrow> nat \<Rightarrow> string + bytes) \<Rightarrow> HeapEntry list \<Rightarrow> SstBlockIterator list
    \<Rightarrow> merge_state \<Rightarrow> merge_state option" where
  "compact_loop compress decompress heap its st =
     (case heap_pop heap_entry_le heap of
        None \<Rightarrow> Some st
      | Some (e, heap) \<Rightarrow>
          let st = compact_step compress (he_record e) st
          in if length its \<le> he_source e then None
             else case next_record decompress (its ! he_source e) of
               (it, Some r) \<Rightarrow> compact_loop compress decompress (heap_push heap_entry_le (heap_entry r (he_source e)) heap)
                 (its[he_source e := it]) st
             | (it, None) \<Rightarrow> compact_loop compress decompress heap (its[he_source e := it]) st)"
  by pat_completeness auto
termination
  by (relation "measure (\<lambda>(c, d, heap, its, st). length heap + its_left d its)") (auto simp: loop_advance loop_exhaust)

declare compact_loop.simps [simp del]

section \<open>The runner\<close>

record CompactionRunner =
  cr_block_size :: nat
  cr_bloom_bits_per_key :: nat
  cr_compaction_threshold :: nat

definition should_compact :: "CompactionRunner \<Rightarrow> WriteWorker \<Rightarrow> bool" where
  "should_compact cr w \<longleftrightarrow> cr_compaction_threshold cr \<le> length (sstables (mstate (ww_manifest w)))"

definition pick_compaction_candidates :: "ManifestState \<Rightarrow> nat list \<Rightarrow> nat list" where
  "pick_compaction_candidates st all_ids =
     (let sized = sort_key snd (List.map_filter (\<lambda>i. map_option (\<lambda>info. (i, sst_bytes info)) (map_of (sstables st) i)) all_ids)
      in if length sized < 2 then map fst sized
         else let min_size = snd (hd sized);
                  threshold = max min_size 1 * 4;
                  candidates = map fst (takeWhile (\<lambda>(_, bytes). bytes \<le> threshold) sized)
              in if 2 \<le> length candidates then candidates else map fst (take 2 sized))"

text \<open>The readers: a missing file or a table without blocks is skipped, a file that does not open is an error.\<close>

fun open_iterators :: "int \<Rightarrow> (nat \<rightharpoonup> bytes) \<Rightarrow> nat list \<Rightarrow> SstBlockIterator list result" where
  "open_iterators now_us ssts [] = Inr []"
| "open_iterators now_us ssts (i # ids) =
     (case ssts i of
        None \<Rightarrow> open_iterators now_us ssts ids
      | Some file \<Rightarrow>
          (case SstReader_open file i of
             Inl e \<Rightarrow> Inl e
           | Inr rd \<Rightarrow>
               if block_count rd = 0 then open_iterators now_us ssts ids
               else (case open_iterators now_us ssts ids of
                       Inl e \<Rightarrow> Inl e
                     | Inr its \<Rightarrow> Inr (BlockIterator_new rd now_us # its))))"

text \<open>The first record of every iterator goes into the heap.\<close>

fun prime_heap :: "(bytes \<Rightarrow> nat \<Rightarrow> string + bytes) \<Rightarrow> nat \<Rightarrow> SstBlockIterator list \<Rightarrow> HeapEntry list
    \<Rightarrow> SstBlockIterator list \<times> HeapEntry list" where
  "prime_heap decompress idx [] heap = ([], heap)"
| "prime_heap decompress idx (it # its) heap =
     (case next_record decompress it of
        (it', Some r) \<Rightarrow> map_prod (Cons it') id (prime_heap decompress (idx + 1) its (heap_push heap_entry_le (heap_entry r idx) heap))
      | (it', None) \<Rightarrow> map_prod (Cons it') id (prime_heap decompress (idx + 1) its heap))"

definition compact_info :: "nat \<Rightarrow> nat \<Rightarrow> nat \<Rightarrow> BlockInfo list \<Rightarrow> BloomFilter \<Rightarrow> SstInfo" where
  "compact_info sid recs n infos bl =
     \<lparr>sst_id = sid, sst_records = recs, sst_bytes = n,
      sst_min_ts = min_or0 (map blk_min_ts infos), sst_max_ts = max_or0 (map blk_max_ts infos),
      sst_min_expire = min_or0 (map blk_min_expire infos), sst_max_expire = max_or0 (map blk_max_expire infos),
      sst_bloom = Some bl\<rparr>"

definition estimated_records :: "ManifestState \<Rightarrow> nat list \<Rightarrow> nat" where
  "estimated_records st candidates = sum_list (map sst_records (List.map_filter (map_of (sstables st)) candidates))"

text \<open>The end of a run: nothing was written (every candidate goes), or the new table replaces the candidates.\<close>

definition compact_finish :: "'l lru_ops \<Rightarrow> (bytes \<Rightarrow> bytes) \<Rightarrow> (ManifestEntry \<Rightarrow> string) \<Rightarrow> nat list \<Rightarrow> nat \<Rightarrow> merge_state
    \<Rightarrow> WriteWorker \<times> 'l BlockCache \<Rightarrow> WriteWorker \<times> 'l BlockCache" where
  "compact_finish L compress ser candidates sid = (\<lambda>(last_dedup, n, wr) (w, c).
     if n = 0 then fold (gc_delete L ser) candidates (w, c)
     else let (file, bytes, infos, bl) = finish compress wr
          in (w\<lparr>ww_index := set_bloom sid bl (ix_add_sst sid infos (fold ix_remove_sst candidates (ww_index w))),
                ww_manifest := manifest_append ser (Compaction candidates [compact_info sid n bytes infos bl] [(sid, infos)])
                  (ww_manifest w),
                ww_ssts := fold (\<lambda>i m. m(i := None)) candidates ((ww_ssts w)(sid \<mapsto> file))\<rparr>,
              fold (invalidate_sst L) candidates c))"

text \<open>The result is an error, or the next state and whether a compaction happened; \<open>None\<close> would be the panic of the
  merge loop.\<close>

definition compaction_run :: "'l lru_ops \<Rightarrow> (bytes \<Rightarrow> bytes) \<Rightarrow> (bytes \<Rightarrow> nat \<Rightarrow> string + bytes) \<Rightarrow> (ManifestEntry \<Rightarrow> string)
    \<Rightarrow> int \<Rightarrow> CompactionRunner \<Rightarrow> WriteWorker \<times> 'l BlockCache \<Rightarrow> ((WriteWorker \<times> 'l BlockCache) \<times> bool) result option" where
  "compaction_run L compress decompress ser now_us cr = (\<lambda>(w, c).
     let st = mstate (ww_manifest w); sst_ids = sort (active_sst_ids st)
     in if \<not> should_compact cr w \<or> sst_ids = [] then Some (Inr ((w, c), False))
        else let candidates = pick_compaction_candidates st sst_ids
             in if candidates = [] then Some (Inr ((w, c), False))
                else case open_iterators now_us (ww_ssts w) candidates of
                       Inl e \<Rightarrow> Some (Inl e)
                     | Inr [] \<Rightarrow> Some (Inr ((w, c), False))
                     | Inr its \<Rightarrow>
                         (let (its, heap) = prime_heap decompress 0 its [];
                              sid = next_sst_id (ww_manifest w);
                              wr = StreamWriter_new (cr_block_size cr) (estimated_records st candidates) (cr_bloom_bits_per_key cr)
                          in map_option (\<lambda>r. Inr (compact_finish L compress ser candidates sid r (w, c), True))
                               (compact_loop compress decompress heap its (None, 0, wr))))"

section \<open>The loop is a k-way merge\<close>

interpretation comp: merge_order heap_entry_le heap_entry he_source "\<lambda>x y. sort_ord y \<le> sort_ord x" bound for bound
  by unfold_locales (auto simp: heap_entry_le_def heap_entry_def)

definition its_match :: "(bytes \<Rightarrow> nat \<Rightarrow> string + bytes) \<Rightarrow> SstBlockIterator list \<Rightarrow> InternalRecord list list \<Rightarrow> bool" where
  "its_match decompress its srcs \<longleftrightarrow>
     length its = length srcs \<and> (\<forall>i<length srcs. it_rest decompress (its ! i) = tl (srcs ! i))"

lemma compact_loop_merge:
  assumes "merge_ok heap_entry_le heap_entry heap srcs" "its_match decompress its srcs"
  shows "compact_loop compress decompress heap its st =
    Some (fold (compact_step compress) (kmerge heap_entry_le heap_entry he_source heap srcs) st)"
  using assms
proof (induction "length (concat srcs)" arbitrary: heap its srcs st rule: less_induct)
  case less
  show ?case
  proof (cases "heap_pop heap_entry_le heap")
    case None
    then show ?thesis by (subst compact_loop.simps, subst kmerge.simps) simp
  next
    case (Some p)
    then obtain e h' where pop: "heap_pop heap_entry_le heap = Some (e, h')" by (cases p) auto
    from comp.merge_pop [OF less.prems(1) order.refl pop] obtain i x xs
      where i: "he_source e = i" "i < length srcs" "srcs ! i = x # xs" "e = heap_entry x i"
        and ok: "merge_ok heap_entry_le heap_entry (case xs of [] \<Rightarrow> h' | y # _ \<Rightarrow> heap_push heap_entry_le (heap_entry y i) h') (srcs[i := xs])"
      by blast
    have len: "length (concat (srcs[i := xs])) < length (concat srcs)" using length_concat_update [OF i(2,3)] by simp
    have x: "he_record e = x" "i < length its" "it_rest decompress (its ! i) = xs"
      using i less.prems(2) by (auto simp: heap_entry_def its_match_def)
    obtain it' o' where n: "next_record decompress (its ! i) = (it', o')" by fastforce
    have r: "xs = (case o' of None \<Rightarrow> [] | Some r \<Rightarrow> r # it_rest decompress it')"
      using next_record_rest [of decompress "its ! i"] x(3) n by simp
    have "it_rest decompress it' = tl xs" using r next_record_None [of decompress "its ! i" it'] n by (cases o') auto
    then have m: "its_match decompress (its[i := it']) (srcs[i := xs])"
      using less.prems(2) i(2) by (auto simp: its_match_def nth_list_update)
    have "compact_loop compress decompress heap its st = compact_loop compress decompress
        (case xs of [] \<Rightarrow> h' | y # _ \<Rightarrow> heap_push heap_entry_le (heap_entry y i) h') (its[i := it']) (compact_step compress x st)"
      using pop i(1) x n r by (subst compact_loop.simps) (auto simp: Let_def split: option.splits)
    with less.hyps [OF len ok m] comp.kmerge_step [OF pop i(1-3)] show ?thesis by simp
  qed
qed

lemma next_record_tl: "it_rest decompress (fst (next_record decompress it)) = tl (it_rest decompress it)"
proof -
  obtain it' o' where n: "next_record decompress it = (it', o')" by fastforce
  then show ?thesis using next_record_rest [of decompress it] next_record_None [of decompress it it'] by (cases o') auto
qed

lemma prime_heap_spec:
  "prime_heap decompress idx its heap =
     (map (\<lambda>it. fst (next_record decompress it)) its,
      fold (heap_push heap_entry_le) (map (\<lambda>(j, s). heap_entry (hd s) j)
        (filter (\<lambda>(j, s). s \<noteq> []) (enumerate idx (map (it_rest decompress) its)))) heap)"
proof (induction decompress idx its heap rule: prime_heap.induct)
  case (2 decompress idx it its heap)
  obtain it' o' where n: "next_record decompress it = (it', o')" by fastforce
  have "it_rest decompress it = (case o' of None \<Rightarrow> [] | Some r \<Rightarrow> r # it_rest decompress it')"
    by (subst next_record_rest) (simp add: n)
  with 2 n show ?case by (cases o') simp_all
qed simp

lemma prime_heap_ok:
  assumes "prime_heap decompress 0 its [] = (its', heap)"
  shows "merge_ok heap_entry_le heap_entry heap (map (it_rest decompress) its)
    \<and> its_match decompress its' (map (it_rest decompress) its)"
  using assms merge_ok_init [OF comp.heap_order_axioms, of heap_entry "map (it_rest decompress) its"]
  by (auto simp: prime_heap_spec heads_enumerate its_match_def next_record_tl)

section \<open>What is written\<close>

fun compact_keep :: "(bytes \<times> int) option \<Rightarrow> InternalRecord list \<Rightarrow> InternalRecord list" where
  "compact_keep last_dedup [] = []"
| "compact_keep last_dedup (r # rs) =
     (if last_dedup \<noteq> Some (version r)
      then (if rop r \<noteq> Delete \<and> rop r \<noteq> DeleteRange then [r] else []) @ compact_keep (Some (version r)) rs
      else compact_keep last_dedup rs)"

lemma compact_steps:
  "snd (fold (compact_step compress) rs (l, n, wr)) =
     (n + length (compact_keep l rs), fold (write_record compress) (compact_keep l rs) wr)"
proof (induction rs arbitrary: l n wr)
  case (Cons r rs)
  have "compact_step compress r (l, n, wr) =
    (if l \<noteq> Some (version r) then if rop r \<noteq> Delete \<and> rop r \<noteq> DeleteRange
       then (Some (version r), n + 1, write_record compress r wr) else (Some (version r), n, wr)
     else (l, n, wr))" by (simp add: compact_step_def)
  with Cons.IH show ?case by auto
qed simp

lemma compact_keep_puts: "r \<in> set (compact_keep l rs) \<Longrightarrow> r \<in> set rs \<and> rop r = Put"
  by (induction l rs rule: compact_keep.induct) (auto split: if_splits intro: Op.exhaust)

lemma compact_keep_complete:
  assumes "r \<in> set rs" "l \<noteq> Some (version r)" "\<forall>x\<in>set rs. version x = version r \<longrightarrow> rop x = Put"
  shows "\<exists>x\<in>set (compact_keep l rs). version x = version r"
  using assms
proof (induction l rs rule: compact_keep.induct)
  case (2 l x rs)
  then show ?case by (cases "version x = version r") auto
qed simp

lemma compact_keep_desc:
  assumes "sorted_wrt (\<lambda>x y. sort_ord y \<le> sort_ord x) rs" "\<And>r v. l = Some v \<Longrightarrow> r \<in> set rs \<Longrightarrow> version r \<le> v"
  shows "sorted_wrt (\<lambda>x y. version y < version x) (compact_keep l rs)
    \<and> (\<forall>r\<in>set (compact_keep l rs). \<forall>v. l = Some v \<longrightarrow> version r < v)"
  using assms
proof (induction l rs rule: compact_keep.induct)
  case (2 l r rs)
  have le: "version x \<le> v" if "Some (version r) = Some v" "x \<in> set rs" for x v
    using 2(3) that by (auto intro: sort_ord_le_version)
  have ih: "sorted_wrt (\<lambda>x y. version y < version x) (compact_keep (Some (version r)) rs)
    \<and> (\<forall>x\<in>set (compact_keep (Some (version r)) rs). \<forall>v. Some (version r) = Some v \<longrightarrow> version x < v)" if "l \<noteq> Some (version r)"
    by (rule 2(1) [OF that _ le]) (use 2(3) in simp_all)
  show ?case
  proof (cases "l = Some (version r)")
    case True
    then show ?thesis using 2(2) 2(3,4) by simp
  next
    case False
    have "version r < v" if "l = Some v" for v using 2(4) [OF that, of r] False that by force
    then show ?thesis using ih [OF False] False by (auto intro: less_trans)
  qed
qed simp

text \<open>The streaming merge of all candidates.\<close>

lemma compact_loop_result:
  assumes "prime_heap decompress 0 its [] = (its', heap)"
  obtains out l where "compact_loop compress decompress heap its' (None, 0, wr) = Some (l, length out, fold (write_record compress) out wr)"
    "\<And>r. r \<in> set out \<Longrightarrow> r \<in> set (concat (map (it_rest decompress) its)) \<and> rop r = Put"
    "\<And>r. r \<in> set (concat (map (it_rest decompress) its)) \<Longrightarrow>
       \<forall>x\<in>set (concat (map (it_rest decompress) its)). version x = version r \<longrightarrow> rop x = Put \<Longrightarrow> \<exists>x\<in>set out. version x = version r"
    "(\<forall>it\<in>set its. sorted_wrt (\<lambda>x y. sort_ord y \<le> sort_ord x) (it_rest decompress it)) \<Longrightarrow> sorted_wrt (\<lambda>x y. version y < version x) out"
proof -
  let ?srcs = "map (it_rest decompress) its"
  let ?m = "kmerge heap_entry_le heap_entry he_source heap ?srcs"
  have ok: "merge_ok heap_entry_le heap_entry heap ?srcs" "its_match decompress its' ?srcs" using prime_heap_ok [OF assms] by auto
  have set: "set ?m = set (concat ?srcs)" using comp.kmerge_mset [OF ok(1) order.refl] by (metis set_mset_mset)
  let ?f = "fold (compact_step compress) ?m (None, 0, wr)"
  have "?f = (fst ?f, length (compact_keep None ?m), fold (write_record compress) (compact_keep None ?m) wr)"
    using compact_steps [of compress ?m None 0 wr] by (metis add_0 prod.collapse)
  moreover have "sorted_wrt (\<lambda>x y. version y < version x) (compact_keep None ?m)"
    if "\<forall>it\<in>set its. sorted_wrt (\<lambda>x y. sort_ord y \<le> sort_ord x) (it_rest decompress it)"
    using comp.kmerge_sorted [OF ok(1) order.refl] that compact_keep_desc [of ?m None] by simp
  ultimately show thesis
    using compact_loop_merge [OF ok, of compress "(None, 0, wr)"] compact_keep_puts [of _ None ?m] compact_keep_complete [of _ ?m None] set
    by (intro that [of "fst ?f" "compact_keep None ?m"]) simp_all
qed

section \<open>Candidates and their live records\<close>

definition run_candidates :: "WriteWorker \<Rightarrow> nat list" where
  "run_candidates w = pick_compaction_candidates (mstate (ww_manifest w)) (sort (active_sst_ids (mstate (ww_manifest w))))"

definition live_in :: "(bytes \<Rightarrow> nat \<Rightarrow> string + bytes) \<Rightarrow> int \<Rightarrow> (nat \<rightharpoonup> bytes) \<Rightarrow> nat list \<Rightarrow> InternalRecord set" where
  "live_in decompress now_us ssts ids =
     {forget_seq x | x i f. i \<in> set ids \<and> ssts i = Some f \<and> sst_holds decompress i f x \<and> now_us < expire_at x}"

definition cand_live :: "(bytes \<Rightarrow> nat \<Rightarrow> string + bytes) \<Rightarrow> int \<Rightarrow> WriteWorker \<Rightarrow> InternalRecord set" where
  "cand_live decompress now_us w = live_in decompress now_us (ww_ssts w) (run_candidates w)"

lemma live_in_Nil [simp]: "live_in decompress now_us ssts [] = {}"
  by (simp add: live_in_def)

lemma live_in_Cons:
  "live_in decompress now_us ssts (i # ids) = live_in decompress now_us ssts [i] \<union> live_in decompress now_us ssts ids"
  by (auto simp: live_in_def)

lemma set_load_block: "set (load_block now_us rs) = forget_seq ` {r \<in> set rs. now_us < expire_at r}"
  by (simp add: load_block_def sort_desc_def)

lemma set_it_rest_new:
  "set (it_rest decompress (BlockIterator_new rd now_us)) =
     {forget_seq x | x i rs. i < block_count rd \<and> read_block_inner decompress rd i = Inr rs \<and> x \<in> set rs \<and> now_us < expire_at x}"
  by (force simp: it_rest_def BlockIterator_new_def block_yield_def set_load_block split: sum.splits)

lemma open_iterators_live:
  "open_iterators now_us ssts ids = Inr its \<Longrightarrow> set (concat (map (it_rest decompress) its)) = live_in decompress now_us ssts ids"
proof (induction now_us ssts ids arbitrary: its rule: open_iterators.induct)
  case (2 now_us ssts i ids)
  note C = live_in_Cons [of decompress now_us ssts i ids]
  consider (none) "ssts i = None"
    | (empty) f rd where "ssts i = Some f" "SstReader_open f i = Inr rd" "block_count rd = 0"
    | (some) f rd its' where "ssts i = Some f" "SstReader_open f i = Inr rd" "block_count rd \<noteq> 0"
        "open_iterators now_us ssts ids = Inr its'" "its = BlockIterator_new rd now_us # its'"
    using 2(4) by (auto split: option.splits sum.splits if_splits)
  then show ?case
  proof cases
    case none
    then have "live_in decompress now_us ssts [i] = {}" by (simp add: live_in_def)
    then show ?thesis unfolding C using 2(1,4) none by simp
  next
    case empty
    then have "live_in decompress now_us ssts [i] = {}" by (auto simp: sst_holds_def live_in_def)
    then show ?thesis unfolding C using 2(2) [OF empty] 2(4) empty by simp
  next
    case some
    have "set (it_rest decompress (BlockIterator_new rd now_us)) = live_in decompress now_us ssts [i]"
      using some(1,2) by (auto simp: set_it_rest_new sst_holds_def live_in_def)
    then show ?thesis unfolding C using 2(3) [OF some(1-4)] some by simp
  qed
qed simp

lemma pick_candidates_known: "set (pick_compaction_candidates st ids) \<subseteq> dom (map_of (sstables st))"
proof -
  define sized where "sized = sort_key snd (List.map_filter (\<lambda>i. map_option (\<lambda>info. (i, sst_bytes info)) (map_of (sstables st) i)) ids)"
  have "set (pick_compaction_candidates st ids) \<subseteq> fst ` set sized"
    unfolding pick_compaction_candidates_def sized_def [symmetric] Let_def
    by (auto dest: set_takeWhileD in_set_takeD)
  moreover have "fst ` set sized \<subseteq> dom (map_of (sstables st))" by (auto simp: sized_def List.map_filter_def)
  ultimately show ?thesis by blast
qed

lemma fold_unset: "fold (\<lambda>i m. m(i := None)) ids m = m |` (- set ids)"
  by (induction ids arbitrary: m) (auto simp: restrict_map_def fun_eq_iff)

lemma fold_remove_ssts: "map_of (sstables (fold remove_sst ids st)) = map_of (sstables st) |` (- set ids)"
  by (induction ids arbitrary: st) (auto simp: restrict_map_def fun_eq_iff)

lemma compact_manifest:
  "map_of (sstables (mstate (manifest_append ser (Compaction ids [compact_info sid n bytes infos bl] bs) m))) =
     (map_of (sstables (mstate m)) |` (- set ids))(sid \<mapsto> compact_info sid n bytes infos bl)"
proof -
  have "sstables (fold set_blocks bs st) = sstables st" for st by (induction bs arbitrary: st) simp_all
  then show ?thesis by (simp add: manifest_append_def fold_remove_ssts compact_info_def)
qed

text \<open>The shape of a run that compacted.\<close>

lemma compaction_run_did:
  fixes ser :: "ManifestEntry \<Rightarrow> string"
  assumes "compaction_run L compress decompress ser now_us cr (w, c) = Some (Inr ((w', c'), True))"
  shows "\<exists>its. open_iterators now_us (ww_ssts w) (run_candidates w) = Inr its \<and> its \<noteq> []"
    and "open_iterators now_us (ww_ssts w) (run_candidates w) = Inr its \<Longrightarrow> prime_heap decompress 0 its [] = (its', heap) \<Longrightarrow>
      map_option (\<lambda>r. compact_finish L compress ser (run_candidates w) (next_sst_id (ww_manifest w)) r (w, c))
        (compact_loop compress decompress heap its' (None, 0, StreamWriter_new (cr_block_size cr)
          (estimated_records (mstate (ww_manifest w)) (run_candidates w)) (cr_bloom_bits_per_key cr))) = Some (w', c')"
proof -
  note run = assms [unfolded compaction_run_def prod.case Let_def, folded run_candidates_def]
  obtain its0 where i: "open_iterators now_us (ww_ssts w) (run_candidates w) = Inr its0"
    using run by (cases "open_iterators now_us (ww_ssts w) (run_candidates w)") (simp_all split: if_splits)
  then have ne: "its0 \<noteq> []" using run by (cases its0) (simp_all split: if_splits)
  show "\<exists>its. open_iterators now_us (ww_ssts w) (run_candidates w) = Inr its \<and> its \<noteq> []" using i ne by blast
  assume "open_iterators now_us (ww_ssts w) (run_candidates w) = Inr its" "prime_heap decompress 0 its [] = (its', heap)"
  with run i ne show "map_option (\<lambda>r. compact_finish L compress ser (run_candidates w) (next_sst_id (ww_manifest w)) r (w, c))
        (compact_loop compress decompress heap its' (None, 0, StreamWriter_new (cr_block_size cr)
          (estimated_records (mstate (ww_manifest w)) (run_candidates w)) (cr_bloom_bits_per_key cr))) = Some (w', c')"
    by (cases its) (auto split: if_splits)
qed

lemma compaction_run_cases:
  fixes ser :: "ManifestEntry \<Rightarrow> string"
  assumes "compaction_run L compress decompress ser now_us cr (w, c) = Some (Inr ((w', c'), True))"
  obtains its out l wr where "open_iterators now_us (ww_ssts w) (run_candidates w) = Inr its"
    "(w', c') = compact_finish L compress ser (run_candidates w) (next_sst_id (ww_manifest w))
       (l, length out, fold (write_record compress) out wr) (w, c)"
    "wr = StreamWriter_new (cr_block_size cr) (estimated_records (mstate (ww_manifest w)) (run_candidates w)) (cr_bloom_bits_per_key cr)"
    "\<forall>r\<in>set out. r \<in> cand_live decompress now_us w \<and> rop r = Put"
    "\<forall>r\<in>cand_live decompress now_us w.
       (\<forall>x\<in>cand_live decompress now_us w. version x = version r \<longrightarrow> rop x = Put) \<longrightarrow> (\<exists>x\<in>set out. version x = version r)"
    "(\<forall>it\<in>set its. sorted_wrt (\<lambda>x y. sort_ord y \<le> sort_ord x) (it_rest decompress it)) \<longrightarrow> sorted_wrt (\<lambda>x y. version y < version x) out"
proof -
  let ?wr = "StreamWriter_new (cr_block_size cr) (estimated_records (mstate (ww_manifest w)) (run_candidates w)) (cr_bloom_bits_per_key cr)"
  obtain its where its: "open_iterators now_us (ww_ssts w) (run_candidates w) = Inr its" "its \<noteq> []"
    using assms compaction_run_did [of L compress decompress ser now_us cr w c w' c'] by blast
  obtain its' heap where ph: "prime_heap decompress 0 its [] = (its', heap)" by fastforce
  have live: "set (concat (map (it_rest decompress) its)) = cand_live decompress now_us w"
    unfolding cand_live_def by (rule open_iterators_live [OF its(1)])
  show thesis
  proof (rule compact_loop_result [OF ph, of compress ?wr, unfolded live])
    fix out l
    assume res: "compact_loop compress decompress heap its' (None, 0, ?wr) = Some (l, length out, fold (write_record compress) out ?wr)"
      and out: "\<And>r. r \<in> set out \<Longrightarrow> r \<in> cand_live decompress now_us w \<and> rop r = Put"
        "\<And>r. r \<in> cand_live decompress now_us w \<Longrightarrow>
          \<forall>x\<in>cand_live decompress now_us w. version x = version r \<longrightarrow> rop x = Put \<Longrightarrow> \<exists>x\<in>set out. version x = version r"
        "\<forall>it\<in>set its. sorted_wrt (\<lambda>x y. sort_ord y \<le> sort_ord x) (it_rest decompress it) \<Longrightarrow> sorted_wrt (\<lambda>x y. version y < version x) out"
    have "(w', c') = compact_finish L compress ser (run_candidates w) (next_sst_id (ww_manifest w))
       (l, length out, fold (write_record compress) out ?wr) (w, c)"
      using compaction_run_did(2) [OF assms its(1) ph] res by simp
    then show thesis by (rule that [OF its(1) _ refl]) (use out in blast)+
  qed
qed

lemma compact_finish_written:
  fixes ser :: "ManifestEntry \<Rightarrow> string"
  assumes "(w', c') = compact_finish L compress ser ids sid (l, length out, fold (write_record compress) out (StreamWriter_new bs est bpk)) (w, c)"
    "out \<noteq> []" "sid \<notin> set ids"
  shows "ww_ssts w' = (ww_ssts w |` (- set ids))(sid \<mapsto> fst (sst_write compress out bs bpk))"
    "\<exists>info. map_of (sstables (mstate (ww_manifest w'))) = (map_of (sstables (mstate (ww_manifest w))) |` (- set ids))(sid \<mapsto> info)"
    "map_of (sst_blocks (ww_index w')) sid = Some (map (from_block_info sid) (fst (snd (snd (sst_write compress out bs bpk)))))"
proof -
  obtain bloom where f: "finish compress (fold (write_record compress) out (StreamWriter_new bs est bpk)) =
      (fst (sst_write compress out bs bpk), fst (snd (sst_write compress out bs bpk)),
       fst (snd (snd (sst_write compress out bs bpk))), bloom)"
    by (rule stream_writer_eq)
  have w: "w' = w\<lparr>ww_index := set_bloom sid bloom (ix_add_sst sid (fst (snd (snd (sst_write compress out bs bpk)))) (fold ix_remove_sst ids (ww_index w))),
      ww_manifest := manifest_append ser (Compaction ids [compact_info sid (length out) (fst (snd (sst_write compress out bs bpk)))
        (fst (snd (snd (sst_write compress out bs bpk)))) bloom] [(sid, fst (snd (snd (sst_write compress out bs bpk))))]) (ww_manifest w),
      ww_ssts := (ww_ssts w)(sid \<mapsto> fst (sst_write compress out bs bpk)) |` (- set ids)\<rparr>"
    using assms(1,2) by (simp add: compact_finish_def f fold_unset)
  show "ww_ssts w' = (ww_ssts w |` (- set ids))(sid \<mapsto> fst (sst_write compress out bs bpk))"
    using assms(3) by (auto simp: w restrict_map_def)
  show "\<exists>info. map_of (sstables (mstate (ww_manifest w'))) = (map_of (sstables (mstate (ww_manifest w))) |` (- set ids))(sid \<mapsto> info)"
    unfolding w by (simp add: compact_manifest) blast
  show "map_of (sst_blocks (ww_index w')) sid = Some (map (from_block_info sid) (fst (snd (snd (sst_write compress out bs bpk)))))"
    unfolding w by (simp add: set_bloom_def ix_add_sst_def Let_def)
qed

lemma run_sid_fresh:
  "next_sst_id (ww_manifest w) \<notin> set (run_candidates w)"
  using pick_candidates_known [of "mstate (ww_manifest w)"] next_sst_id_fresh [of "ww_manifest w"]
  by (auto simp: run_candidates_def dest: subsetD)

lemma compaction_total:
  fixes ser :: "ManifestEntry \<Rightarrow> string"
  shows "\<exists>res. compaction_run L compress decompress ser now_us cr (w, c) = Some res"
proof (cases "open_iterators now_us (ww_ssts w) (run_candidates w)")
  case (Inr its)
  obtain its' heap where ph: "prime_heap decompress 0 its [] = (its', heap)" by fastforce
  show ?thesis
    by (rule compact_loop_result [OF ph, of compress "StreamWriter_new (cr_block_size cr)
        (estimated_records (mstate (ww_manifest w)) (run_candidates w)) (cr_bloom_bits_per_key cr)"])
      (use Inr ph in \<open>auto simp: compaction_run_def run_candidates_def Let_def split: list.split\<close>)
qed (simp add: compaction_run_def run_candidates_def Let_def)

lemma compaction_run_keeps:
  fixes ser :: "ManifestEntry \<Rightarrow> string"
  assumes "lz4_ok compress decompress" "flushable compress (cr_block_size cr) (cand_live decompress now_us w)"
    "compaction_run L compress decompress ser now_us cr (w, c) = Some (Inr ((w', c'), True))"
  defines "sid \<equiv> next_sst_id (ww_manifest w)"
  shows "i \<notin> set (run_candidates w) \<Longrightarrow> i \<noteq> sid \<Longrightarrow> ww_ssts w' i = ww_ssts w i
      \<and> map_of (sstables (mstate (ww_manifest w'))) i = map_of (sstables (mstate (ww_manifest w))) i"
    and "map_of (sstables (mstate (ww_manifest w'))) sid \<noteq> None \<Longrightarrow> ww_ssts w' sid = Some f \<Longrightarrow>
      sst_holds decompress sid f x \<Longrightarrow> x \<in> cand_live decompress now_us w \<and> rop x = Put"
    and "z \<in> cand_live decompress now_us w \<Longrightarrow> \<forall>y\<in>cand_live decompress now_us w. version y = version z \<longrightarrow> rop y = Put \<Longrightarrow>
      \<exists>y f. version y = version z \<and> map_of (sstables (mstate (ww_manifest w'))) sid \<noteq> None
        \<and> ww_ssts w' sid = Some f \<and> sst_holds decompress sid f y"
proof -
  obtain its out l wr where
    its: "open_iterators now_us (ww_ssts w) (run_candidates w) = Inr its"
    and fin: "(w', c') = compact_finish L compress ser (run_candidates w) sid
       (l, length out, fold (write_record compress) out wr) (w, c)"
    and wr: "wr = StreamWriter_new (cr_block_size cr) (estimated_records (mstate (ww_manifest w)) (run_candidates w)) (cr_bloom_bits_per_key cr)"
    and out: "\<forall>r\<in>set out. r \<in> cand_live decompress now_us w \<and> rop r = Put"
      "\<forall>r\<in>cand_live decompress now_us w.
        (\<forall>x\<in>cand_live decompress now_us w. version x = version r \<longrightarrow> rop x = Put) \<longrightarrow> (\<exists>x\<in>set out. version x = version r)"
    and srt: "(\<forall>it\<in>set its. sorted_wrt (\<lambda>x y. sort_ord y \<le> sort_ord x) (it_rest decompress it)) \<longrightarrow> sorted_wrt (\<lambda>x y. version y < version x) out"
    unfolding sid_def by (rule compaction_run_cases [OF assms(3)])
  have fresh: "sid \<notin> set (run_candidates w)" "map_of (sstables (mstate (ww_manifest w))) sid = None"
    unfolding sid_def using run_sid_fresh next_sst_id_fresh by auto
  have same: "forget_seq r = r" if "r \<in> set out" for r
    using bspec [OF out(1) that] by (auto simp: cand_live_def live_in_def forget_seq_def)
  have sub: "set out \<subseteq> cand_live decompress now_us w" using out(1) by blast
  consider (none) "out = []" | (some) "out \<noteq> []" by blast
  then have "(i \<notin> set (run_candidates w) \<longrightarrow> i \<noteq> sid \<longrightarrow> ww_ssts w' i = ww_ssts w i
      \<and> map_of (sstables (mstate (ww_manifest w'))) i = map_of (sstables (mstate (ww_manifest w))) i)
    \<and> (\<forall>f x. map_of (sstables (mstate (ww_manifest w'))) sid \<noteq> None \<longrightarrow> ww_ssts w' sid = Some f \<longrightarrow>
      sst_holds decompress sid f x \<longrightarrow> x \<in> cand_live decompress now_us w \<and> rop x = Put)
    \<and> (\<forall>r\<in>set out. \<exists>f. map_of (sstables (mstate (ww_manifest w'))) sid \<noteq> None
        \<and> ww_ssts w' sid = Some f \<and> sst_holds decompress sid f r)" for i
  proof cases
    case none
    then have "fold (gc_delete L ser) (run_candidates w) (w, c) = (w', c')" using fin by (simp add: compact_finish_def)
    from gc_deletes(5,6) [OF this] none fresh show ?thesis by (simp add: restrict_map_def)
  next
    case some
    note eff = compact_finish_written [OF fin [unfolded wr] some fresh(1)]
    have "x \<in> set out" if "sst_holds decompress sid (fst (sst_write compress out (cr_block_size cr) (cr_bloom_bits_per_key cr))) x" for x
      using sst_write_holds_only [OF assms(1,2) sub that] same by auto
    moreover have "sst_holds decompress sid (fst (sst_write compress out (cr_block_size cr) (cr_bloom_bits_per_key cr))) r" if "r \<in> set out" for r
      using sst_write_holds [OF assms(1,2) sub that] same [OF that] by simp
    ultimately show ?thesis using eff out(1) by (auto simp: restrict_map_def)
  qed
  then show "i \<notin> set (run_candidates w) \<Longrightarrow> i \<noteq> sid \<Longrightarrow> ww_ssts w' i = ww_ssts w i
      \<and> map_of (sstables (mstate (ww_manifest w'))) i = map_of (sstables (mstate (ww_manifest w))) i"
    and "map_of (sstables (mstate (ww_manifest w'))) sid \<noteq> None \<Longrightarrow> ww_ssts w' sid = Some f \<Longrightarrow>
      sst_holds decompress sid f x \<Longrightarrow> x \<in> cand_live decompress now_us w \<and> rop x = Put"
    and "z \<in> cand_live decompress now_us w \<Longrightarrow> \<forall>y\<in>cand_live decompress now_us w. version y = version z \<longrightarrow> rop y = Put \<Longrightarrow>
      \<exists>y f. version y = version z \<and> map_of (sstables (mstate (ww_manifest w'))) sid \<noteq> None
        \<and> ww_ssts w' sid = Some f \<and> sst_holds decompress sid f y"
    using bspec [OF out(2), of z] by blast+
qed


section \<open>The new table is written in descending order\<close>

lemma sorted_sort_desc: "sorted_wrt (\<lambda>x y. f y \<le> f x) (sort_desc f xs)"
proof -
  have "sorted_wrt (\<lambda>x y. f x \<le> f y) (sort_key f (rev xs))" using sorted_sort_key [of f "rev xs"] by (simp add: sorted_wrt_map)
  then show ?thesis by (simp add: sort_desc_def sorted_wrt_rev)
qed

lemma load_block_desc: "sorted_wrt (\<lambda>x y. sort_ord y \<le> sort_ord x) (load_block now_us rs)"
proof -
  have "sorted_wrt (\<lambda>x y. version y \<le> version x) (load_block now_us rs)" unfolding load_block_def by (rule sorted_sort_desc)
  then show ?thesis
    by (rule sorted_wrt_mono_rel [rotated])
      (auto simp: set_load_block sort_ord_def version_def forget_seq_def)
qed

lemma single_block_desc:
  assumes "block_count rd \<le> 1"
  shows "sorted_wrt (\<lambda>x y. sort_ord y \<le> sort_ord x) (it_rest decompress (BlockIterator_new rd now_us))"
proof -
  have "block_count rd = 0 \<or> block_count rd = 1" using assms by auto
  then show ?thesis by (auto simp: it_rest_def BlockIterator_new_def block_yield_def load_block_desc split: sum.split)
qed

lemma open_iterators_new:
  "open_iterators now_us ssts ids = Inr its \<Longrightarrow>
   \<forall>it\<in>set its. \<exists>i f rd. i \<in> set ids \<and> ssts i = Some f \<and> SstReader_open f i = Inr rd \<and> it = BlockIterator_new rd now_us"
  by (induction now_us ssts ids arbitrary: its rule: open_iterators.induct)
    (force split: option.splits sum.splits if_splits)+

lemma search_inverted_block:
  assumes "bm_max_key m < bm_min_key m"
  shows "binary_search_block [m] k = None"
  using assms by (auto simp: binary_search_block_def bsb_loop.simps)

text \<open>C36. Compaction inverts its output: if every candidate has a single block, the new table's records come in strictly
  descending \<open>(key, ts)\<close> order.  When they fit one block and have two different keys, the block's recorded smallest
  key is above its largest, and the index's search over the new table's blocks finds no block for any key: point
  lookups no longer see the compacted records.\<close>

theorem compaction_output_unreachable:
  assumes "compaction_run L compress decompress ser now_us cr (w, c) = Some (Inr ((w', c'), True))"
    and "\<forall>i\<in>set (run_candidates w). \<forall>f rd. ww_ssts w i = Some f \<longrightarrow> SstReader_open f i = Inr rd \<longrightarrow> block_count rd \<le> 1"
    and "map_of (sstables (mstate (ww_manifest w'))) (next_sst_id (ww_manifest w)) \<noteq> None"
  shows "\<exists>out. ww_ssts w' (next_sst_id (ww_manifest w)) = Some (fst (sst_write compress out (cr_block_size cr) (cr_bloom_bits_per_key cr)))
    \<and> set out \<subseteq> cand_live decompress now_us w
    \<and> (\<forall>r\<in>cand_live decompress now_us w. (\<forall>x\<in>cand_live decompress now_us w. version x = version r \<longrightarrow> rop x = Put) \<longrightarrow>
         (\<exists>x\<in>set out. version x = version r))
    \<and> sorted_wrt (\<lambda>x y. version y < version x) out
    \<and> (length out \<le> cr_block_size cr \<longrightarrow> key (hd out) \<noteq> key (last out) \<longrightarrow>
         (\<exists>blocks. map_of (sst_blocks (ww_index w')) (next_sst_id (ww_manifest w)) = Some blocks
            \<and> (\<forall>k. binary_search_block blocks k = None)))"
proof -
  let ?sid = "next_sst_id (ww_manifest w)"
  obtain its out l wr where
    its: "open_iterators now_us (ww_ssts w) (run_candidates w) = Inr its"
    and fin: "(w', c') = compact_finish L compress ser (run_candidates w) ?sid
       (l, length out, fold (write_record compress) out wr) (w, c)"
    and wr: "wr = StreamWriter_new (cr_block_size cr) (estimated_records (mstate (ww_manifest w)) (run_candidates w)) (cr_bloom_bits_per_key cr)"
    and out: "\<forall>r\<in>set out. r \<in> cand_live decompress now_us w \<and> rop r = Put"
      "\<forall>r\<in>cand_live decompress now_us w.
        (\<forall>x\<in>cand_live decompress now_us w. version x = version r \<longrightarrow> rop x = Put) \<longrightarrow> (\<exists>x\<in>set out. version x = version r)"
    and srt: "(\<forall>it\<in>set its. sorted_wrt (\<lambda>x y. sort_ord y \<le> sort_ord x) (it_rest decompress it)) \<longrightarrow> sorted_wrt (\<lambda>x y. version y < version x) out"
    by (rule compaction_run_cases [OF assms(1)])
  have fresh: "?sid \<notin> set (run_candidates w)" "map_of (sstables (mstate (ww_manifest w))) ?sid = None"
    using run_sid_fresh next_sst_id_fresh by auto
  have ne: "out \<noteq> []"
  proof
    assume "out = []"
    then have "fold (gc_delete L ser) (run_candidates w) (w, c) = (w', c')" using fin by (simp add: compact_finish_def)
    from gc_deletes(5) [OF this] fresh assms(3) show False by (simp add: restrict_map_def)
  qed
  have desc: "sorted_wrt (\<lambda>x y. version y < version x) out"
    using open_iterators_new [OF its] assms(2) single_block_desc by (intro mp [OF srt]) fastforce
  note eff = compact_finish_written [OF fin [unfolded wr] ne fresh(1)]
  have "\<forall>k. binary_search_block (map (from_block_info ?sid) (fst (snd (snd (sst_write compress out (cr_block_size cr) (cr_bloom_bits_per_key cr)))))) k = None"
    if len: "length out \<le> cr_block_size cr" and two: "key (hd out) \<noteq> key (last out)"
  proof -
    have "chunks (max (cr_block_size cr) 1) out = [out]" using ne len by (simp add: chunks_step)
    then have "map (from_block_info ?sid) (fst (snd (snd (sst_write compress out (cr_block_size cr) (cr_bloom_bits_per_key cr)))))
        = [from_block_info ?sid (block_info 0 out)]" by (simp add: sst_write_eq)
    moreover have "key (last out) < key (hd out)"
    proof -
      from ne obtain x xs where out: "out = x # xs" by (cases out) auto
      with two have "xs \<noteq> []" by auto
      with desc out have "version (last xs) < version x" by simp
      with two out \<open>xs \<noteq> []\<close> show ?thesis by (auto simp: version_def)
    qed
    ultimately show ?thesis using ne search_inverted_block by (cases out) (simp_all add: from_block_info_def block_info_def)
  qed
  moreover have "set out \<subseteq> cand_live decompress now_us w" using out(1) by blast
  ultimately show ?thesis using eff(1,3) desc out(2) by (intro exI [of _ out]) simp
qed

section \<open>A concrete run\<close>

lemma compaction_run_true:
  fixes ser :: "ManifestEntry \<Rightarrow> string"
  assumes "should_compact cr w" "run_candidates w \<noteq> []" "open_iterators now_us (ww_ssts w) (run_candidates w) = Inr its" "its \<noteq> []"
  shows "\<exists>w' c'. compaction_run L compress decompress ser now_us cr (w, c) = Some (Inr ((w', c'), True))"
proof -
  obtain its' heap where ph: "prime_heap decompress 0 its [] = (its', heap)" by fastforce
  have ids: "sort (active_sst_ids (mstate (ww_manifest w))) \<noteq> []"
    using assms(2) by (auto simp: run_candidates_def pick_compaction_candidates_def Let_def List.map_filter_def)
  have "\<exists>m. compact_loop compress decompress heap its' (None, 0, StreamWriter_new (cr_block_size cr)
      (estimated_records (mstate (ww_manifest w)) (run_candidates w)) (cr_bloom_bits_per_key cr)) = Some m"
    by (rule compact_loop_result [OF ph]) blast
  then show ?thesis
    using assms ids ph by (cases its) (auto simp: compaction_run_def run_candidates_def Let_def)
qed

definition put_rec :: "byte \<Rightarrow> InternalRecord" where
  "put_rec b = from_record (Record_new [b] 5 []) 0"

definition two_tables :: WriteWorker where
  "two_tables = (worker_init unary_de Config_default)
     \<lparr>ww_manifest := fold (\<lambda>i. manifest_append unary_ser (Flush i (flush_info i [put_rec (of_nat i)] 70 (with_bits_per_key 1 1)) []))
        [1, 2] (Manifest_open unary_de None),
      ww_ssts := (\<lambda>i. if i = 1 \<or> i = 2 then Some (concat (map (block_bytes (\<lambda>d. d)) [[put_rec (of_nat i)]])) else None)\<rparr>"

lemma two_tables_candidates: "run_candidates two_tables = [1, 2]" "next_sst_id (ww_manifest two_tables) = 3"
  "should_compact \<lparr>cr_block_size = 4, cr_bloom_bits_per_key = 10, cr_compaction_threshold = 2\<rparr> two_tables"
  by (simp_all add: run_candidates_def two_tables_def pick_compaction_candidates_def flush_info_def manifest_append_def
      add_sst_def set_blocks_def activate_def Manifest_open_def ManifestState_default_def List.map_filter_def next_sst_id_def should_compact_def)

lemma put_rec_chunk: "chunk_ok (\<lambda>d. d) [put_rec b]"
  by (simp add: chunk_ok_def put_rec_def sst_rec_ok_def Record_new_def encode_records_def encode_sst_record_def
      i64_def i64_min_def i64_max_def)

lemma two_tables_reader:
  assumes "i = 1 \<or> i = 2"
  obtains f rd where "ww_ssts two_tables i = Some f" "SstReader_open f i = Inr rd" "block_count rd = 1"
    "read_block_inner (\<lambda>d n. Inr d) rd 0 = Inr [put_rec (of_nat i)]"
proof -
  have "forget_seq (put_rec b) = put_rec b" for b by (simp add: forget_seq_def put_rec_def from_record_def)
  then show thesis
    using sst_file_blocks [OF one_delete_ok(2), of "[[put_rec (of_nat i)]]" i] put_rec_chunk assms
    by (auto simp: two_tables_def intro: that)
qed

lemma two_tables_holds:
  assumes "i = 1 \<or> i = 2" "ww_ssts two_tables i = Some f"
  shows "sst_holds (\<lambda>d n. Inr d) i f x \<longleftrightarrow> x = put_rec (of_nat i)"
proof -
  obtain f' rd where "ww_ssts two_tables i = Some f'" "SstReader_open f' i = Inr rd" "block_count rd = 1"
    "read_block_inner (\<lambda>d n. Inr d) rd 0 = Inr [put_rec (of_nat i)]"
    by (rule two_tables_reader [OF assms(1)])
  with assms(2) show ?thesis by (auto simp: sst_holds_def)
qed

lemma two_tables_live: "cand_live (\<lambda>d n. Inr d) 0 two_tables = {put_rec 1, put_rec 2}"
proof -
  have 1: "x \<in> live_in (\<lambda>d n. Inr d) 0 (ww_ssts two_tables) [i] \<longleftrightarrow> x = put_rec (of_nat i)" if i: "i = 1 \<or> i = 2" for i x
  proof -
    obtain f rd where f: "ww_ssts two_tables i = Some f" by (rule two_tables_reader [OF i])
    have "forget_seq (put_rec b) = put_rec b" "0 < expire_at (put_rec b)" for b
      by (simp_all add: forget_seq_def put_rec_def from_record_def Record_new_def i64_max_def)
    then show ?thesis using f two_tables_holds [OF i f] by (auto simp: live_in_def)
  qed
  have "cand_live (\<lambda>d n. Inr d) 0 two_tables = live_in (\<lambda>d n. Inr d) 0 (ww_ssts two_tables) [1] \<union> live_in (\<lambda>d n. Inr d) 0 (ww_ssts two_tables) [2]"
    unfolding cand_live_def two_tables_candidates by (rule live_in_Cons)
  with 1 [of 1] 1 [of 2] show ?thesis by auto
qed

lemma two_tables_run:
  obtains w' c' where "compaction_run list_lru (\<lambda>d. d) (\<lambda>d n. Inr d) unary_ser 0
      \<lparr>cr_block_size = 4, cr_bloom_bits_per_key = 10, cr_compaction_threshold = 2\<rparr>
      (two_tables, with_block_size list_lru 120 128 8192) = Some (Inr ((w', c'), True))"
proof -
  obtain f1 rd1 where 1: "ww_ssts two_tables 1 = Some f1" "SstReader_open f1 1 = Inr rd1" "block_count rd1 = 1"
    by (rule two_tables_reader [of 1]) simp_all
  obtain f2 rd2 where 2: "ww_ssts two_tables 2 = Some f2" "SstReader_open f2 2 = Inr rd2" "block_count rd2 = 1"
    by (rule two_tables_reader [of 2]) simp_all
  have "open_iterators 0 (ww_ssts two_tables) [1, 2] = Inr [BlockIterator_new rd1 0, BlockIterator_new rd2 0]"
    using 1 2 by simp
  then show thesis
    using that compaction_run_true [of _ two_tables 0, unfolded two_tables_candidates(1), OF two_tables_candidates(3)] by blast
qed

lemma two_tables_flushable: "flushable (\<lambda>d. d) 4 {put_rec 1, put_rec 2}"
  by (rule flushable_small [where m = 26])
    (auto simp: put_rec_def sst_rec_ok_def encode_sst_record_def Record_new_def i64_def i64_min_def i64_max_def)


theorem compaction_output_unreachable_witness:
  "\<exists>w' c' blocks. compaction_run list_lru (\<lambda>d. d) (\<lambda>d n. Inr d) unary_ser 0
      \<lparr>cr_block_size = 4, cr_bloom_bits_per_key = 10, cr_compaction_threshold = 2\<rparr>
      (two_tables, with_block_size list_lru 120 128 8192) = Some (Inr ((w', c'), True))
    \<and> map_of (sst_blocks (ww_index w')) 3 = Some blocks \<and> (\<forall>k. binary_search_block blocks k = None)"
proof -
  let ?cr = "\<lparr>cr_block_size = 4, cr_bloom_bits_per_key = 10, cr_compaction_threshold = 2\<rparr>"
  obtain w' c' where run: "compaction_run list_lru (\<lambda>d. d) (\<lambda>d n. Inr d) unary_ser 0 ?cr
      (two_tables, with_block_size list_lru 120 128 8192) = Some (Inr ((w', c'), True))" by (rule two_tables_run)
  have v: "version (put_rec b) = ([b], 5)" "rop (put_rec b) = Put" "key (put_rec b) = [b]" for b
    by (simp_all add: put_rec_def version_def Record_new_def)
  have fl: "flushable (\<lambda>d. d) (cr_block_size ?cr) (cand_live (\<lambda>d n. Inr d) 0 two_tables)"
    using two_tables_flushable by (simp add: two_tables_live)
  have mf: "map_of (sstables (mstate (ww_manifest w'))) (next_sst_id (ww_manifest two_tables)) \<noteq> None"
    using compaction_run_keeps(3) [OF one_delete_ok(2) fl run, of "put_rec 1"] v by (auto simp: two_tables_live)
  have blk: "\<forall>i\<in>set (run_candidates two_tables). \<forall>f rd. ww_ssts two_tables i = Some f \<longrightarrow> SstReader_open f i = Inr rd \<longrightarrow> block_count rd \<le> 1"
  proof (intro ballI allI impI)
    fix i f rd assume i: "i \<in> set (run_candidates two_tables)" and f: "ww_ssts two_tables i = Some f" "SstReader_open f i = Inr rd"
    then have "i = 1 \<or> i = 2" by (simp add: two_tables_candidates)
    then obtain f' rd' where "ww_ssts two_tables i = Some f'" "SstReader_open f' i = Inr rd'" "block_count rd' = 1"
      by (rule two_tables_reader)
    with f show "block_count rd \<le> 1" by simp
  qed
  obtain out where out: "set out \<subseteq> {put_rec 1, put_rec 2}" "\<exists>x\<in>set out. version x = ([1], 5)" "\<exists>x\<in>set out. version x = ([2], 5)"
    "sorted_wrt (\<lambda>x y. version y < version x) out"
    "length out \<le> 4 \<longrightarrow> key (hd out) \<noteq> key (last out) \<longrightarrow>
         (\<exists>blocks. map_of (sst_blocks (ww_index w')) 3 = Some blocks \<and> (\<forall>k. binary_search_block blocks k = None))"
    using compaction_output_unreachable [OF run blk mf] v unfolding two_tables_live two_tables_candidates(2) by auto
  from out(1-3) v have "set out = {put_rec 1, put_rec 2}" by auto
  moreover have "distinct out" using out(4) by (auto simp: distinct_conv_nth sorted_wrt_iff_nth_less) (metis linorder_neqE_nat order_less_irrefl)
  moreover have "put_rec 1 \<noteq> put_rec 2" using v(3) [of 1] v(3) [of 2] by auto
  ultimately have len: "length out = 2" using distinct_card [of out] by simp
  then obtain a b where ab: "out = [a, b]" by (auto simp: length_Suc_conv numeral_2_eq_2)
  with out(1,4) v have "key a \<noteq> key b" by (auto simp: version_def)
  with out(5) ab run show ?thesis by auto
qed

end
