(* ===== verification/Scan.thy ===== *)
theory Scan
  imports Memtable Block_Index Cache Heap
begin

text \<open>
  The scan of \<^verbatim>\<open>src/engine.rs\<close>: \<^verbatim>\<open>ScanIterator\<close>, built from the memtables and the candidate SSTable blocks, and the
  lazy merge its \<open>next\<close> performs.  The heap is that of \<open>Heap\<close>; blocks come through the cache (or past it, for
  a full scan).  \<open>None\<close> is the panic of the index on an inverted time range.  Shown: collecting the iterator
  yields strictly ascending \<open>(key, ts)\<close> without duplicates, the newest version of each and only records that match
  the query, on the fast path and on the heap path alike.
\<close>

section \<open>State\<close>

record MergeEntry =
  me_key :: bytes
  me_ts :: int
  me_seq :: nat
  me_source :: nat

text \<open>\<^verbatim>\<open>Ord for MergeEntry\<close>: a min-heap by key and timestamp, the higher sequence number first.\<close>

definition merge_entry_le :: "MergeEntry \<Rightarrow> MergeEntry \<Rightarrow> bool" where
  "merge_entry_le a b \<longleftrightarrow> (me_key b, me_ts b, - int (me_seq b)) \<le> (me_key a, me_ts a, - int (me_seq a))"

definition usize_max :: nat where
  "usize_max = 2 ^ 64 - 1"

record ScanIterator =
  sc_sources :: "InternalRecord list list"
  sc_heap :: "MergeEntry list"
  sc_tombstones :: "(bytes \<times> bytes) list"
  sc_last_dedup :: "(bytes \<times> int) option"
  sc_fast_source :: "nat option"

definition merge_entry :: "InternalRecord \<Rightarrow> nat \<Rightarrow> MergeEntry" where
  "merge_entry r src = \<lparr>me_key = key r, me_ts = ts r, me_seq = seq r, me_source = src\<rparr>"

section \<open>Building the iterator\<close>

text \<open>The memtable side.  A full scan asks for the keys from the empty key to \<open>~\<close> (byte 126).\<close>

definition scan_mem :: "Query \<Rightarrow> MemTables \<Rightarrow> int \<Rightarrow> InternalRecord list" where
  "scan_mem q ms now_us =
     (case (key_filter q, time_range q) of
        (Prefix k, None) \<Rightarrow> mts_query_prefix k now_us ms
      | (Range s e, None) \<Rightarrow> mts_query_key_range s e now_us ms
      | (All, Some (t0, t1)) \<Rightarrow> mts_query_time_range t0 t1 now_us ms
      | (Prefix k, Some (t0, t1)) \<Rightarrow> mts_query_prefix_time_range k t0 t1 now_us ms
      | (Range s e, Some (t0, t1)) \<Rightarrow> mts_query_key_time_range s e t0 t1 now_us ms
      | (All, None) \<Rightarrow> mts_query_key_range [] [126] now_us ms)"

definition get_reader_from_map :: "(nat \<rightharpoonup> SstReader) \<Rightarrow> (nat \<rightharpoonup> bytes) \<Rightarrow> nat \<Rightarrow> SstReader result" where
  "get_reader_from_map readers ssts sid =
     (case readers sid of
        Some rd \<Rightarrow> Inr rd
      | None \<Rightarrow> (case ssts sid of
            None \<Rightarrow> Inl (Other (''sst '' @ show_nat sid @ '' not found''))
          | Some file \<Rightarrow> SstReader_open file sid))"

text \<open>The record loop of a full scan.\<close>

fun filter_full_block :: "int \<Rightarrow> InternalRecord list \<Rightarrow> (bytes \<times> bytes) list \<Rightarrow> InternalRecord list \<times> (bytes \<times> bytes) list" where
  "filter_full_block now_us [] tombs = ([], tombs)"
| "filter_full_block now_us (r # rs) tombs =
     (if expire_at r \<le> now_us then filter_full_block now_us rs tombs
      else if rop r = DeleteRange then
        filter_full_block now_us rs (case range_end r of Some e \<Rightarrow> tombs @ [(key r, e)] | None \<Rightarrow> tombs)
      else if rop r = Delete then filter_full_block now_us rs tombs
      else map_prod (Cons r) id (filter_full_block now_us rs tombs))"

fun filter_sst_block :: "KeyFilter \<Rightarrow> (int \<times> int) option \<Rightarrow> bool \<Rightarrow> int \<Rightarrow> InternalRecord list \<Rightarrow> (bytes \<times> bytes) list
    \<Rightarrow> InternalRecord list \<times> (bytes \<times> bytes) list" where
  "filter_sst_block kf tr is_full_scan now_us [] tombs = ([], tombs)"
| "filter_sst_block kf tr is_full_scan now_us (r # rs) tombs =
     (if expire_at r \<le> now_us then filter_sst_block kf tr is_full_scan now_us rs tombs
      else if rop r = DeleteRange then
        filter_sst_block kf tr is_full_scan now_us rs (case range_end r of Some e \<Rightarrow> tombs @ [(key r, e)] | None \<Rightarrow> tombs)
      else if is_full_scan then
        (if rop r = Delete then filter_sst_block kf tr is_full_scan now_us rs tombs
         else map_prod (Cons (r\<lparr>seq := 0, rop := Put, range_end := None\<rparr>)) id (filter_sst_block kf tr is_full_scan now_us rs tombs))
      else if \<not> (case kf of Prefix k \<Rightarrow> prefix k (key r) | Range s e \<Rightarrow> s \<le> key r \<and> key r \<le> e | All \<Rightarrow> True) then
        filter_sst_block kf tr is_full_scan now_us rs tombs
      else if (case tr of Some (t0, t1) \<Rightarrow> ts r < t0 \<or> t1 < ts r | None \<Rightarrow> False) then
        filter_sst_block kf tr is_full_scan now_us rs tombs
      else map_prod (Cons (r\<lparr>seq := 0\<rparr>)) id (filter_sst_block kf tr is_full_scan now_us rs tombs))"

fun load_full :: "(bytes \<Rightarrow> nat \<Rightarrow> string + bytes) \<Rightarrow> (nat \<rightharpoonup> SstReader) \<Rightarrow> (nat \<rightharpoonup> bytes) \<Rightarrow> int \<Rightarrow> BlockMeta list
    \<Rightarrow> (bytes \<times> bytes) list \<Rightarrow> InternalRecord list list \<times> (bytes \<times> bytes) list" where
  "load_full decompress readers ssts now_us [] tombs = ([], tombs)"
| "load_full decompress readers ssts now_us (m # ms) tombs =
     (case get_reader_from_map readers ssts (bm_sst_id m) of
        Inl _ \<Rightarrow> load_full decompress readers ssts now_us ms tombs
      | Inr rd \<Rightarrow>
          (case read_block_decompress decompress rd (bm_block_idx m) of
             Inl _ \<Rightarrow> load_full decompress readers ssts now_us ms tombs
           | Inr (_, rs) \<Rightarrow>
               (let (filtered, tombs) = filter_full_block now_us rs tombs
                in if filtered \<noteq> [] then map_prod (Cons filtered) id (load_full decompress readers ssts now_us ms tombs)
                   else load_full decompress readers ssts now_us ms tombs)))"

fun load_filtered :: "'l lru_ops \<Rightarrow> (bytes \<Rightarrow> nat \<Rightarrow> string + bytes) \<Rightarrow> (nat \<rightharpoonup> SstReader) \<Rightarrow> (nat \<rightharpoonup> bytes) \<Rightarrow> Query \<Rightarrow> int
    \<Rightarrow> BlockMeta list \<Rightarrow> 'l BlockCache \<Rightarrow> (bytes \<times> bytes) list \<Rightarrow> 'l BlockCache \<times> InternalRecord list list \<times> (bytes \<times> bytes) list" where
  "load_filtered L decompress readers ssts q now_us [] c tombs = (c, [], tombs)"
| "load_filtered L decompress readers ssts q now_us (m # ms) c tombs =
     (case get_reader_from_map readers ssts (bm_sst_id m) of
        Inl _ \<Rightarrow> load_filtered L decompress readers ssts q now_us ms c tombs
      | Inr rd \<Rightarrow>
          (case read_block_arc L decompress rd (bm_block_idx m) c of
             (c, Inl _) \<Rightarrow> load_filtered L decompress readers ssts q now_us ms c tombs
           | (c, Inr rs) \<Rightarrow>
               (let (filtered, tombs) = filter_sst_block (key_filter q) (time_range q) False now_us rs tombs
                in if filtered \<noteq> []
                   then map_prod id (map_prod (Cons filtered) id) (load_filtered L decompress readers ssts q now_us ms c tombs)
                   else load_filtered L decompress readers ssts q now_us ms c tombs)))"

definition is_full_scan :: "Query \<Rightarrow> bool" where
  "is_full_scan q \<longleftrightarrow> (key_filter q = All \<or> key_filter q = Prefix []) \<and> time_range q = None"

definition scan_build :: "'l lru_ops \<Rightarrow> (bytes \<Rightarrow> nat \<Rightarrow> string + bytes) \<Rightarrow> Query \<Rightarrow> MemTables \<Rightarrow> BlockMetaIndex \<Rightarrow> 'l BlockCache
    \<Rightarrow> (nat \<rightharpoonup> SstReader) \<Rightarrow> (nat \<rightharpoonup> bytes) \<Rightarrow> int \<Rightarrow> ('l BlockCache \<times> ScanIterator) option" where
  "scan_build L decompress q ms ix c readers ssts now_us =
     (let mem_results = scan_mem q ms now_us;
          tombs = List.map_filter (\<lambda>r. if rop r = DeleteRange then map_option (Pair (key r)) (range_end r) else None) mem_results
      in case ix_query ix (key_filter q) (time_range q) now_us of
           None \<Rightarrow> None
         | Some candidates \<Rightarrow>
             (let (c, sst_sources, tombs) =
                    (if is_full_scan q then (c, load_full decompress readers ssts now_us candidates tombs)
                     else load_filtered L decompress readers ssts q now_us candidates c tombs);
                  mem_sorted = sort_key sort_ord mem_results;
                  present = (mem_sorted \<noteq> []);
                  sources = (if present then [mem_sorted] else []) @ sst_sources;
                  fast = (if length sources = 1 \<and> tombs = [] then Some 0 else None);
                  heap = (if fast = None
                          then fold (heap_push merge_entry_le)
                            (map (\<lambda>(i, s). merge_entry (hd s) (if present \<and> i = 0 then usize_max else i))
                              (filter (\<lambda>(i, s). s \<noteq> []) (enumerate 0 sources))) []
                          else [])
              in Some (c, \<lparr>sc_sources = sources, sc_heap = heap, sc_tombstones = tombs, sc_last_dedup = None, sc_fast_source = fast\<rparr>)))"

section \<open>Iteration\<close>

definition advance_source :: "nat \<Rightarrow> ScanIterator \<Rightarrow> ScanIterator \<times> InternalRecord option" where
  "advance_source source it =
     (let idx = (if source = usize_max then 0 else source)
      in if length (sc_sources it) \<le> idx then (it, None)
         else case sc_sources it ! idx of
                [] \<Rightarrow> (it, None)
              | r # rest \<Rightarrow>
                  (let it = it\<lparr>sc_sources := (sc_sources it)[idx := rest]\<rparr>
                   in (case rest of [] \<Rightarrow> it
                       | nxt # _ \<Rightarrow> it\<lparr>sc_heap := heap_push merge_entry_le (merge_entry nxt source) (sc_heap it)\<rparr>, Some r)))"

definition tombstoned_by :: "(bytes \<times> bytes) list \<Rightarrow> InternalRecord \<Rightarrow> bool" where
  "tombstoned_by tombs r \<longleftrightarrow> (\<exists>(s, e)\<in>set tombs. s \<le> key r \<and> key r < e)"

definition is_tombstoned :: "ScanIterator \<Rightarrow> InternalRecord \<Rightarrow> bool" where
  "is_tombstoned it r = tombstoned_by (sc_tombstones it) r"

definition scan_left :: "ScanIterator \<Rightarrow> nat" where
  "scan_left it = length (sc_heap it) + length (concat (sc_sources it))"

lemma scan_left_simps [simp]:
  "scan_left (it\<lparr>sc_last_dedup := d\<rparr>) = scan_left it" by (simp add: scan_left_def)

lemma scan_left_source:
  "i < length (sc_sources it) \<Longrightarrow> sc_sources it ! i = r # rest \<Longrightarrow>
   Suc (scan_left (it\<lparr>sc_sources := (sc_sources it)[i := rest]\<rparr>)) = scan_left it"
  using length_concat_update [of i "sc_sources it" r rest] by (simp add: scan_left_def)

text \<open>The fast path: one source and no range tombstones.\<close>

function fast_next :: "nat \<Rightarrow> ScanIterator \<Rightarrow> ScanIterator \<times> Record option" where
  "fast_next idx it =
     (if length (sc_sources it) \<le> idx then (it, None)
      else case sc_sources it ! idx of
             [] \<Rightarrow> (it, None)
           | r # rest \<Rightarrow>
               (let it' = it\<lparr>sc_sources := (sc_sources it)[idx := rest]\<rparr>
                in if rop r = Delete \<or> rop r = DeleteRange then fast_next idx (it'\<lparr>sc_last_dedup := Some (key r, ts r)\<rparr>)
                   else if sc_last_dedup it' = Some (key r, ts r) then fast_next idx it'
                   else (it'\<lparr>sc_last_dedup := Some (key r, ts r)\<rparr>, Some (to_record r))))"
  by pat_completeness auto
termination
  by (relation "measure (\<lambda>(idx, it). scan_left it)")
    (auto simp: Let_def not_le dest!: scan_left_source [rotated, OF sym] scan_left_source)

declare fast_next.simps [simp del]

lemma advance_left:
  assumes "advance_source s it = (it', r)"
  shows "scan_left it' \<le> scan_left it" "r \<noteq> None \<Longrightarrow> length (concat (sc_sources it')) < length (concat (sc_sources it))"
    "sc_tombstones it' = sc_tombstones it" "sc_last_dedup it' = sc_last_dedup it" "sc_fast_source it' = sc_fast_source it"
  using assms length_concat_update [of "if s = usize_max then 0 else s" "sc_sources it"]
  by (auto simp: advance_source_def scan_left_def Let_def split: if_splits list.splits)

text \<open>The heap path.\<close>

function heap_next :: "ScanIterator \<Rightarrow> ScanIterator \<times> Record option" where
  "heap_next it =
     (case heap_pop merge_entry_le (sc_heap it) of
        None \<Rightarrow> (it, None)
      | Some (e, h) \<Rightarrow>
          let it0 = it\<lparr>sc_heap := h\<rparr>; dedup_key = (me_key e, me_ts e)
          in case advance_source (me_source e) it0 of
               (it', rec) \<Rightarrow>
                 if sc_last_dedup it0 = Some dedup_key then heap_next it'
                 else case rec of
                        None \<Rightarrow> heap_next it'
                      | Some r \<Rightarrow>
                          let it'' = it'\<lparr>sc_last_dedup := Some dedup_key\<rparr>
                          in if rop r = Delete \<or> rop r = DeleteRange then heap_next it''
                             else if is_tombstoned it' r then heap_next it''
                             else (it'', Some (to_record r)))"
  by pat_completeness auto
termination
  by (relation "measure scan_left")
    (auto simp: scan_left_def dest!: length_heap_pop advance_left(1) [OF sym])

declare heap_next.simps [simp del]

definition scan_next :: "ScanIterator \<Rightarrow> ScanIterator \<times> Record option" where
  "scan_next it = (case sc_fast_source it of Some idx \<Rightarrow> fast_next idx it | None \<Rightarrow> heap_next it)"

lemma fast_next_end: "length (sc_sources it) \<le> idx \<or> sc_sources it ! idx = [] \<Longrightarrow> fast_next idx it = (it, None)"
  by (subst fast_next.simps) auto

lemma fast_next_Cons:
  "idx < length (sc_sources it) \<Longrightarrow> sc_sources it ! idx = r # rest \<Longrightarrow> it' = it\<lparr>sc_sources := (sc_sources it)[idx := rest]\<rparr> \<Longrightarrow>
   fast_next idx it = (if rop r = Delete \<or> rop r = DeleteRange then fast_next idx (it'\<lparr>sc_last_dedup := Some (version r)\<rparr>)
      else if sc_last_dedup it = Some (version r) then fast_next idx it'
      else (it'\<lparr>sc_last_dedup := Some (version r)\<rparr>, Some (to_record r)))"
  by (subst fast_next.simps) (simp add: Let_def version_def)

lemma heap_next_None: "heap_pop merge_entry_le (sc_heap it) = None \<Longrightarrow> heap_next it = (it, None)"
  by (subst heap_next.simps) simp

lemma heap_next_Some:
  "heap_pop merge_entry_le (sc_heap it) = Some (e, h) \<Longrightarrow> advance_source (me_source e) (it\<lparr>sc_heap := h\<rparr>) = (it', rec) \<Longrightarrow>
   heap_next it = (if sc_last_dedup it = Some (me_key e, me_ts e) then heap_next it'
     else case rec of None \<Rightarrow> heap_next it'
          | Some r \<Rightarrow> if rop r = Delete \<or> rop r = DeleteRange \<or> is_tombstoned it' r
              then heap_next (it'\<lparr>sc_last_dedup := Some (me_key e, me_ts e)\<rparr>)
              else (it'\<lparr>sc_last_dedup := Some (me_key e, me_ts e)\<rparr>, Some (to_record r)))"
  by (subst heap_next.simps) (simp add: Let_def split: option.split)

lemma fast_next_left:
  "fast_next idx it = (it', r) \<Longrightarrow> scan_left it' \<le> scan_left it \<and> (r \<noteq> None \<longrightarrow> scan_left it' < scan_left it)
     \<and> sc_fast_source it' = sc_fast_source it"
proof (induction "scan_left it" arbitrary: it rule: less_induct)
  case less
  show ?case
  proof (cases "length (sc_sources it) \<le> idx \<or> sc_sources it ! idx = []")
    case True
    then show ?thesis using less.prems by (simp add: fast_next_end)
  next
    case False
    then obtain x rest where x: "sc_sources it ! idx = x # rest" "idx < length (sc_sources it)" by (auto simp: neq_Nil_conv)
    define it1 where "it1 = it\<lparr>sc_sources := (sc_sources it)[idx := rest]\<rparr>"
    have l: "scan_left it1 < scan_left it" using scan_left_source [OF x(2,1)] by (simp add: it1_def)
    have f: "sc_fast_source it1 = sc_fast_source it" by (simp add: it1_def)
    note ih = less.hyps [of it1] less.hyps [of "it1\<lparr>sc_last_dedup := Some (version x)\<rparr>"]
    show ?thesis
      using ih less.prems l f unfolding fast_next_Cons [OF x(2,1) it1_def] by (auto split: if_splits)
  qed
qed

lemma heap_next_left:
  "heap_next it = (it', r) \<Longrightarrow> scan_left it' \<le> scan_left it \<and> (r \<noteq> None \<longrightarrow> scan_left it' < scan_left it)
     \<and> sc_fast_source it' = sc_fast_source it"
proof (induction "scan_left it" arbitrary: it rule: less_induct)
  case less
  show ?case
  proof (cases "heap_pop merge_entry_le (sc_heap it)")
    case None
    then show ?thesis using less.prems by (simp add: heap_next_None)
  next
    case (Some p)
    obtain e h where p: "p = (e, h)" by fastforce
    obtain it1 rec where a: "advance_source (me_source e) (it\<lparr>sc_heap := h\<rparr>) = (it1, rec)" by fastforce
    have l: "scan_left it1 < scan_left it" "sc_fast_source it1 = sc_fast_source it"
      using advance_left(1,5) [OF a] length_heap_pop [OF Some [unfolded p]] by (auto simp: scan_left_def)
    note ih = less.hyps [of it1] less.hyps [of "it1\<lparr>sc_last_dedup := Some (me_key e, me_ts e)\<rparr>"]
    show ?thesis
      using ih less.prems l unfolding heap_next_Some [OF Some [unfolded p] a]
      by (auto split: if_splits option.splits)
  qed
qed

text \<open>\<^verbatim>\<open>iter.collect()\<close>: call \<open>next\<close> until it returns nothing.\<close>

function scan_collect :: "ScanIterator \<Rightarrow> Record list" where
  "scan_collect it = (case scan_next it of (it', None) \<Rightarrow> [] | (it', Some r) \<Rightarrow> r # scan_collect it')"
  by pat_completeness auto
termination
  by (relation "measure scan_left")
    (auto simp: scan_next_def split: option.splits dest!: fast_next_left [OF sym] heap_next_left [OF sym])

declare scan_collect.simps [simp del]

section \<open>What the iterator yields\<close>

text \<open>The effect of deduplication and tombstones on a merged sequence of records.\<close>

fun emit :: "(bytes \<times> bytes) list \<Rightarrow> (bytes \<times> int) option \<Rightarrow> InternalRecord list \<Rightarrow> Record list" where
  "emit tombs last_dedup [] = []"
| "emit tombs last_dedup (r # rs) =
     (if last_dedup = Some (version r) then emit tombs last_dedup rs
      else if rop r \<noteq> Put \<or> tombstoned_by tombs r then emit tombs (Some (version r)) rs
      else to_record r # emit tombs (Some (version r)) rs)"

lemma not_put: "rop r \<noteq> Put \<longleftrightarrow> rop r = Delete \<or> rop r = DeleteRange"
  by (cases "rop r") auto

lemma emit_dup: "last_dedup = Some (version r) \<Longrightarrow> rop r \<noteq> Put \<Longrightarrow> emit t (Some (version r)) rs = emit t last_dedup (r # rs)"
  by simp

lemma collect_next:
  "scan_next it = (it', None) \<Longrightarrow> scan_collect it = []"
  "scan_next it = (it', Some r) \<Longrightarrow> scan_collect it = r # scan_collect it'"
  by (subst scan_collect.simps, simp)+

lemma collect_fast:
  assumes "sc_fast_source it = Some idx" "idx < length (sc_sources it)"
  shows "scan_collect it = emit [] (sc_last_dedup it) (sc_sources it ! idx)"
  using assms
proof (induction "sc_sources it ! idx" arbitrary: it)
  case Nil
  then have "scan_next it = (it, None)" by (simp add: scan_next_def fast_next_end)
  with Nil show ?case by (simp add: collect_next(1))
next
  case (Cons r rest)
  let ?it = "it\<lparr>sc_sources := (sc_sources it)[idx := rest]\<rparr>" and ?v = "Some (version r)"
  let ?it' = "?it\<lparr>sc_last_dedup := ?v\<rparr>"
  have ih: "scan_collect ?it = emit [] (sc_last_dedup it) rest" "scan_collect ?it' = emit [] ?v rest"
    using Cons(1) [of ?it] Cons(1) [of ?it'] Cons(3,4) by simp_all
  have nx: "scan_next it = (if rop r \<noteq> Put then scan_next ?it' else if sc_last_dedup it = ?v then scan_next ?it
      else (?it', Some (to_record r)))"
    unfolding not_put using fast_next_Cons [OF Cons(4) Cons(2) [symmetric] refl] Cons(3) by (simp add: scan_next_def)
  have same: "scan_next it = scan_next j \<Longrightarrow> scan_collect it = scan_collect j" for j
    using scan_collect.simps [of it] scan_collect.simps [of j] by simp
  consider "rop r \<noteq> Put" | "rop r = Put" "sc_last_dedup it = ?v" | "rop r = Put" "sc_last_dedup it \<noteq> ?v" by blast
  then have "scan_collect it = emit [] (sc_last_dedup it) (r # rest)"
  proof cases
    case 1
    then show ?thesis using same [of ?it'] nx ih(2) by (simp add: tombstoned_by_def)
  next
    case 2
    then show ?thesis using same [of ?it] nx ih(1) by simp
  next
    case 3
    then show ?thesis using nx ih(2) collect_next(2) [of it ?it' "to_record r"] by (simp add: tombstoned_by_def)
  qed
  then show ?case unfolding Cons(2) .
qed

text \<open>The entry of source \<open>i\<close>; the memtable source has the id \<^verbatim>\<open>usize::MAX\<close>.\<close>

definition scan_entry :: "bool \<Rightarrow> InternalRecord \<Rightarrow> nat \<Rightarrow> MergeEntry" where
  "scan_entry present r i = merge_entry r (if present \<and> i = 0 then usize_max else i)"

definition entry_idx :: "MergeEntry \<Rightarrow> nat" where
  "entry_idx e = (if me_source e = usize_max then 0 else me_source e)"

interpretation scan: merge_order merge_entry_le "scan_entry present" entry_idx "\<lambda>x y. sort_ord x \<le> sort_ord y" usize_max for present
  by unfold_locales (auto simp: merge_entry_le_def scan_entry_def merge_entry_def entry_idx_def sort_ord_def)

lemma collect_heap:
  assumes "sc_fast_source it = None" "merge_ok merge_entry_le (scan_entry present) (sc_heap it) (sc_sources it)"
    "length (sc_sources it) \<le> usize_max"
  shows "scan_collect it = emit (sc_tombstones it) (sc_last_dedup it)
    (kmerge merge_entry_le (scan_entry present) entry_idx (sc_heap it) (sc_sources it))"
  using assms
proof (induction "length (concat (sc_sources it))" arbitrary: it rule: less_induct)
  case less
  show ?case
  proof (cases "heap_pop merge_entry_le (sc_heap it)")
    case None
    then have "scan_next it = (it, None)" using less.prems(1) by (simp add: scan_next_def heap_next_None)
    with None show ?thesis by (subst kmerge.simps) (simp add: collect_next(1))
  next
    case (Some p)
    then obtain e h where pop: "heap_pop merge_entry_le (sc_heap it) = Some (e, h)" by (cases p) auto
    from scan.merge_pop [OF less.prems(2,3) pop] obtain i x xs
      where i: "entry_idx e = i" "i < length (sc_sources it)" "sc_sources it ! i = x # xs" "e = scan_entry present x i"
        and ok: "merge_ok merge_entry_le (scan_entry present)
          (case xs of [] \<Rightarrow> h | y # _ \<Rightarrow> heap_push merge_entry_le (scan_entry present y i) h) ((sc_sources it)[i := xs])" by blast
    define it1 where "it1 = it\<lparr>sc_heap := (case xs of [] \<Rightarrow> h | y # _ \<Rightarrow> heap_push merge_entry_le (scan_entry present y i) h),
      sc_sources := (sc_sources it)[i := xs]\<rparr>"
    have e: "(me_key e, me_ts e) = version x" "merge_entry y (me_source e) = scan_entry present y i" for y
      using i(4) by (simp_all add: scan_entry_def merge_entry_def version_def)
    have adv: "advance_source (me_source e) (it\<lparr>sc_heap := h\<rparr>) = (it1, Some x)"
      using i(1-3) e(2) by (auto simp: advance_source_def entry_idx_def it1_def Let_def split: list.split if_splits)
    have len: "length (concat (sc_sources it1)) < length (concat (sc_sources it))"
      using length_concat_update [OF i(2,3)] by (simp add: it1_def)
    let ?it2 = "it1\<lparr>sc_last_dedup := Some (version x)\<rparr>"
    let ?k = "kmerge merge_entry_le (scan_entry present) entry_idx (sc_heap it1) (sc_sources it1)"
    have ih: "scan_collect it1 = emit (sc_tombstones it) (sc_last_dedup it) ?k"
      "scan_collect ?it2 = emit (sc_tombstones it) (Some (version x)) ?k"
      using less.hyps [of it1] less.hyps [of ?it2] len ok less.prems(1,3) by (simp_all add: it1_def)
    have nx: "scan_next it = (if sc_last_dedup it = Some (version x) then scan_next it1
        else if rop x \<noteq> Put \<or> tombstoned_by (sc_tombstones it) x then scan_next ?it2 else (?it2, Some (to_record x)))"
      using heap_next_Some [OF pop adv] e(1) less.prems(1)
      by (simp add: scan_next_def is_tombstoned_def not_put it1_def)
    have k: "kmerge merge_entry_le (scan_entry present) entry_idx (sc_heap it) (sc_sources it) = x # ?k"
      using scan.kmerge_step [OF pop i(1-3)] by (simp add: it1_def)
    have same: "scan_next it = scan_next j \<Longrightarrow> scan_collect it = scan_collect j" for j
      using scan_collect.simps [of it] scan_collect.simps [of j] by simp
    show ?thesis
      unfolding k using nx same [of it1] same [of ?it2] ih collect_next(2) [of it ?it2 "to_record x"] by auto
  qed
qed

section \<open>Newest versions in order\<close>

definition newest :: "InternalRecord list \<Rightarrow> InternalRecord \<Rightarrow> bool" where
  "newest rs r \<longleftrightarrow> r \<in> set rs \<and> (\<forall>x\<in>set rs. version x = version r \<longrightarrow> seq x \<le> seq r)"

definition pversion :: "Record \<Rightarrow> bytes \<times> int" where
  "pversion p = (pkey p, pts p)"

lemma pversion_to_record [simp]: "pversion (to_record r) = version r"
  by (simp add: version_def pversion_def)

lemma sort_ord_seq: "sort_ord a \<le> sort_ord b \<Longrightarrow> version a = version b \<Longrightarrow> seq b \<le> seq a"
  by (auto simp: sort_ord_def version_def)

lemma sorted_head_newest:
  "sorted_wrt (\<lambda>x y. sort_ord x \<le> sort_ord y) (r # rs) \<Longrightarrow> newest (r # rs) r"
  by (auto simp: newest_def intro: sort_ord_seq)

lemma newest_skip: "newest rs x \<Longrightarrow> version x \<noteq> version r \<Longrightarrow> newest (r # rs) x"
  by (auto simp: newest_def)

abbreviation ord_sorted :: "InternalRecord list \<Rightarrow> bool" where
  "ord_sorted \<equiv> sorted_wrt (\<lambda>x y. sort_ord x \<le> sort_ord y)"

definition after :: "(bytes \<times> int) option \<Rightarrow> InternalRecord list \<Rightarrow> bool" where
  "after l rs \<longleftrightarrow> (\<forall>r\<in>set rs. \<forall>v. l = Some v \<longrightarrow> v \<le> version r)"

lemma after_None [simp]: "after None rs"
  by (simp add: after_def)

lemma after_head: "ord_sorted (r # rs) \<Longrightarrow> after (Some (version r)) rs"
  by (auto simp: after_def intro: sort_ord_le_version)

lemma after_tl: "after l (r # rs) \<Longrightarrow> after l rs"
  by (simp add: after_def)

lemma emit_cases:
  obtains (dup) "l = Some (version r)" "emit t l (r # rs) = emit t l rs"
  | (dead) "l \<noteq> Some (version r)" "rop r \<noteq> Put \<or> tombstoned_by t r" "emit t l (r # rs) = emit t (Some (version r)) rs"
  | (live) "l \<noteq> Some (version r)" "rop r = Put" "\<not> tombstoned_by t r"
      "emit t l (r # rs) = to_record r # emit t (Some (version r)) rs"
  using that by (cases "l = Some (version r)"; cases "rop r \<noteq> Put \<or> tombstoned_by t r") simp_all

lemma emit_sorted:
  "ord_sorted rs \<Longrightarrow> after l rs \<Longrightarrow>
   sorted_wrt (<) (map pversion (emit t l rs)) \<and> (\<forall>p\<in>set (emit t l rs). \<forall>v. l = Some v \<longrightarrow> v < pversion p)"
proof (induction rs arbitrary: l)
  case (Cons r rs)
  have s: "ord_sorted rs" using Cons.prems by simp
  have lt: "v < version r" if "l = Some v" "l \<noteq> Some (version r)" for v
    using Cons.prems(2) that by (simp add: after_def) (meson le_neq_trans)
  note ih = Cons.IH [OF s after_head [OF Cons.prems(1)]] Cons.IH [OF s after_tl [OF Cons.prems(2)]]
  have gt: "\<forall>p\<in>set (emit t (Some (version r)) rs). version r < pversion p" using ih(1) by blast
  show ?case
  proof (cases rule: emit_cases [of l r t rs])
    case dup
    then show ?thesis using ih(2) by simp
  next
    case dead
    have "\<forall>p\<in>set (emit t (Some (version r)) rs). \<forall>v. l = Some v \<longrightarrow> v < pversion p"
      using gt lt dead(1) by (meson less_trans)
    then show ?thesis unfolding dead(3) using ih(1) by blast
  next
    case live
    have "\<forall>p\<in>set (emit t (Some (version r)) rs). \<forall>v. l = Some v \<longrightarrow> v < pversion p"
      using gt lt live(1) by (meson less_trans)
    moreover have "\<forall>v. l = Some v \<longrightarrow> v < version r" using lt live(1) by blast
    ultimately show ?thesis unfolding live(4) using ih(1) gt by (simp del: less_prod_simp split_paired_All)
  qed
qed simp

lemma emit_sound:
  "ord_sorted rs \<Longrightarrow> after l rs \<Longrightarrow> p \<in> set (emit t l rs) \<Longrightarrow>
   \<exists>r. newest rs r \<and> p = to_record r \<and> rop r = Put \<and> \<not> tombstoned_by t r"
proof (induction rs arbitrary: l)
  case (Cons r rs)
  have s: "ord_sorted rs" using Cons.prems by simp
  note h = after_head [OF Cons.prems(1)]
  have later: "\<exists>x. newest (r # rs) x \<and> p = to_record x \<and> rop x = Put \<and> \<not> tombstoned_by t x"
    if "p \<in> set (emit t (Some (version r)) rs)"
  proof -
    from Cons.IH [OF s h that] obtain x where x: "newest rs x" "p = to_record x" "rop x = Put" "\<not> tombstoned_by t x" by blast
    have "version r < pversion p" using emit_sorted [OF s h, of t] that by blast
    then have "version x \<noteq> version r" using x(2) by auto
    with x newest_skip show ?thesis by blast
  qed
  show ?case
  proof (cases rule: emit_cases [of l r t rs])
    case dup
    then show ?thesis using later Cons.prems(3) by simp
  next
    case dead
    then show ?thesis using later Cons.prems(3) by simp
  next
    case live
    then show ?thesis using later Cons.prems(3) sorted_head_newest [OF Cons.prems(1)] by auto
  qed
qed simp

lemma emit_complete:
  "ord_sorted rs \<Longrightarrow> after l rs \<Longrightarrow> r \<in> set rs \<Longrightarrow> l \<noteq> Some (version r) \<Longrightarrow>
   \<forall>x. newest rs x \<longrightarrow> version x = version r \<longrightarrow> rop x = Put \<and> \<not> tombstoned_by t x \<Longrightarrow>
   \<exists>p\<in>set (emit t l rs). pversion p = version r"
proof (induction rs arbitrary: l)
  case (Cons y rs)
  have s: "ord_sorted rs" using Cons.prems by simp
  show ?case
  proof (cases "version y = version r")
    case True
    then have "rop y = Put \<and> \<not> tombstoned_by t y" using Cons.prems(5) sorted_head_newest [OF Cons.prems(1)] by blast
    then show ?thesis using True Cons.prems(4) by simp
  next
    case False
    then have r: "r \<in> set rs" "Some (version y) \<noteq> Some (version r)" using Cons.prems(3) by auto
    have n: "\<forall>x. newest rs x \<longrightarrow> version x = version r \<longrightarrow> rop x = Put \<and> \<not> tombstoned_by t x"
      using Cons.prems(5) newest_skip False by metis
    note ih = Cons.IH [OF s after_head [OF Cons.prems(1)] r n] Cons.IH [OF s after_tl [OF Cons.prems(2)] r(1) Cons.prems(4) n]
    show ?thesis by (cases rule: emit_cases [of l y t rs]) (use ih in auto)
  qed
qed simp

section \<open>Correctness of a scan\<close>

lemma scan_build_parts:
  assumes "scan_build L decompress q ms ix c readers ssts now_us = Some (c', it)"
  obtains candidates tombs0 sst_sources tombs where "ix_query ix (key_filter q) (time_range q) now_us = Some candidates"
    "(if is_full_scan q then (c, load_full decompress readers ssts now_us candidates tombs0)
      else load_filtered L decompress readers ssts q now_us candidates c tombs0) = (c', sst_sources, tombs)"
    "sc_sources it = (if scan_mem q ms now_us \<noteq> [] then [sort_key sort_ord (scan_mem q ms now_us)] else []) @ sst_sources"
    "sc_tombstones it = tombs" "sc_last_dedup it = None"
    "sc_fast_source it = (if length (sc_sources it) = 1 \<and> tombs = [] then Some 0 else None)"
    "sc_fast_source it = None \<Longrightarrow> sc_heap it = fold (heap_push merge_entry_le)
       (heads (scan_entry (scan_mem q ms now_us \<noteq> [])) (sc_sources it)) []"
proof -
  let ?t = "List.map_filter (\<lambda>r. if rop r = DeleteRange then map_option (Pair (key r)) (range_end r) else None) (scan_mem q ms now_us)"
  obtain cands where c: "ix_query ix (key_filter q) (time_range q) now_us = Some cands"
    using assms by (cases "ix_query ix (key_filter q) (time_range q) now_us") (simp_all add: scan_build_def)
  obtain c1 srcs tombs where l: "(if is_full_scan q then (c, load_full decompress readers ssts now_us cands ?t)
      else load_filtered L decompress readers ssts q now_us cands c ?t) = (c1, srcs, tombs)" by (rule prod_cases3)
  have ne: "sort_key sort_ord (scan_mem q ms now_us) = [] \<longleftrightarrow> scan_mem q ms now_us = []"
    by (metis set_empty set_sort)
  define sources where "sources = (if scan_mem q ms now_us \<noteq> [] then [sort_key sort_ord (scan_mem q ms now_us)] else []) @ srcs"
  define heap where "heap = fold (heap_push merge_entry_le) (heads (scan_entry (scan_mem q ms now_us \<noteq> [])) sources) []"
  have h: "fold (heap_push merge_entry_le) (map (\<lambda>(i, s). merge_entry (hd s) (if scan_mem q ms now_us \<noteq> [] \<and> i = 0 then usize_max else i))
      (filter (\<lambda>(i, s). s \<noteq> []) (enumerate 0 sources))) [] = heap"
    by (simp only: heap_def heads_enumerate scan_entry_def)
  define fast :: "nat option" where "fast = (if length sources = 1 \<and> tombs = [] then Some 0 else None)"
  have "Some (c', it) = Some (c1, \<lparr>sc_sources = sources, sc_heap = (if fast = None then heap else []),
      sc_tombstones = tombs, sc_last_dedup = None, sc_fast_source = fast\<rparr>)"
    unfolding assms [symmetric] scan_build_def Let_def c option.case l prod.case ne sources_def [symmetric] fast_def [symmetric] h ..
  then show thesis
    using l by (intro that [OF c, of ?t srcs tombs]) (simp_all add: sources_def fast_def heap_def)
qed

lemma scan_build_cases:
  assumes "scan_build L decompress q ms ix c readers ssts now_us = Some (c', it)"
  obtains present where "sc_last_dedup it = None"
    "sc_fast_source it = None \<and> merge_ok merge_entry_le (scan_entry present) (sc_heap it) (sc_sources it)
     \<or> sc_fast_source it = Some 0 \<and> length (sc_sources it) = 1 \<and> sc_tombstones it = []"
proof (rule scan_build_parts [OF assms])
  fix candidates tombs0 sst_sources tombs
  let ?p = "scan_mem q ms now_us \<noteq> []"
  assume a: "sc_tombstones it = tombs" "sc_last_dedup it = None"
    "sc_fast_source it = (if length (sc_sources it) = 1 \<and> tombs = [] then Some 0 else None)"
    "sc_fast_source it = None \<Longrightarrow> sc_heap it = fold (heap_push merge_entry_le) (heads (scan_entry ?p) (sc_sources it)) []"
  show thesis
    using that [of ?p] a merge_ok_init [OF scan.heap_order_axioms, of "scan_entry ?p" "sc_sources it"]
    by (cases "length (sc_sources it) = 1 \<and> tombs = []") auto
qed

lemma scan_collect_emit:
  assumes "scan_build L decompress q ms ix c readers ssts now_us = Some (c', it)" "length (sc_sources it) \<le> usize_max"
  obtains rs where "scan_collect it = emit (sc_tombstones it) None rs" "mset rs = mset (concat (sc_sources it))"
    "(\<forall>s\<in>set (sc_sources it). ord_sorted s) \<longrightarrow> ord_sorted rs"
proof -
  obtain present where d: "sc_last_dedup it = None"
    and "sc_fast_source it = None \<and> merge_ok merge_entry_le (scan_entry present) (sc_heap it) (sc_sources it)
     \<or> sc_fast_source it = Some 0 \<and> length (sc_sources it) = 1 \<and> sc_tombstones it = []"
    by (rule scan_build_cases [OF assms(1)])
  then show thesis
  proof (elim disjE conjE)
    assume f: "sc_fast_source it = None" and m: "merge_ok merge_entry_le (scan_entry present) (sc_heap it) (sc_sources it)"
    show thesis
      using that [OF collect_heap [OF f m assms(2), unfolded d]] scan.kmerge_mset [OF m assms(2)] scan.kmerge_sorted [OF m assms(2)] by blast
  next
    assume f: "sc_fast_source it = Some 0" and l: "length (sc_sources it) = 1" and t: "sc_tombstones it = []"
    from l obtain s where s: "sc_sources it = [s]" by (auto simp: length_Suc_conv)
    show thesis using that [of s] collect_fast [OF f] d t s by simp
  qed
qed

text \<open>What the sources hold: only records that match the query and are not expired.\<close>

definition matches_query :: "Query \<Rightarrow> int \<Rightarrow> InternalRecord \<Rightarrow> bool" where
  "matches_query q now_us r \<longleftrightarrow> key_matches (key_filter q) (key r)
     \<and> (case time_range q of None \<Rightarrow> True | Some (t0, t1) \<Rightarrow> t0 \<le> ts r \<and> ts r \<le> t1) \<and> now_us \<le> expire_at r"

lemma scan_mem_matches: "r \<in> set (scan_mem q ms now_us) \<Longrightarrow> matches_query q now_us r"
  by (auto simp: scan_mem_def matches_query_def key_matches_def mts_query_prefix_def mts_query_key_range_def
      mts_query_time_range_def mts_query_prefix_time_range_def mts_query_key_time_range_def mt_query_prefix_def
      mt_query_key_range_def mt_query_time_range_def mt_query_prefix_time_range_def mt_query_key_time_range_def
      split: KeyFilter.splits option.splits)

lemma filter_full_live: "r \<in> set (fst (filter_full_block now_us rs tombs)) \<Longrightarrow> now_us < expire_at r \<and> rop r = Put"
  by (induction rs arbitrary: tombs) (auto split: if_splits, metis Op.exhaust)

lemma filter_sst_matches:
  "r \<in> set (fst (filter_sst_block (key_filter q) (time_range q) False now_us rs tombs)) \<Longrightarrow> matches_query q now_us r"
proof (induction rs arbitrary: tombs)
  case (Cons x rs)
  then show ?case
    by (auto simp: matches_query_def key_matches_def split: if_splits option.splits KeyFilter.splits)
qed simp

lemma load_full_step:
  obtains t where "load_full decompress readers ssts now_us (m # ms) tombs = load_full decompress readers ssts now_us ms t"
  | rs f t where "filter_full_block now_us rs tombs = (f, t)"
      "load_full decompress readers ssts now_us (m # ms) tombs = map_prod (Cons f) id (load_full decompress readers ssts now_us ms t)"
proof (cases "get_reader_from_map readers ssts (bm_sst_id m)")
  case (Inr rd)
  then show thesis
  proof (cases "read_block_decompress decompress rd (bm_block_idx m)")
    case b: (Inr p)
    obtain h rs where p: "p = (h, rs)" by fastforce
    obtain f t where "filter_full_block now_us rs tombs = (f, t)" by fastforce
    with Inr b p that show thesis by (cases "f = []") simp_all
  qed (use that in simp)
qed (use that in simp)

lemma load_full_live:
  "s \<in> set (fst (load_full decompress readers ssts now_us ms tombs)) \<Longrightarrow> r \<in> set s \<Longrightarrow> now_us < expire_at r"
proof (induction ms arbitrary: tombs)
  case (Cons m ms)
  show ?case
  proof (cases rule: load_full_step [of decompress readers ssts now_us m ms tombs])
    case (1 t)
    then show ?thesis using Cons by simp
  next
    case (2 rs f t)
    then show ?thesis using Cons filter_full_live [of r now_us rs tombs] by auto
  qed
qed simp

lemma load_filtered_step:
  obtains c1 t where "load_filtered L decompress readers ssts q now_us (m # ms) c tombs = load_filtered L decompress readers ssts q now_us ms c1 t"
  | c1 rs f t where "filter_sst_block (key_filter q) (time_range q) False now_us rs tombs = (f, t)"
      "load_filtered L decompress readers ssts q now_us (m # ms) c tombs =
         map_prod id (map_prod (Cons f) id) (load_filtered L decompress readers ssts q now_us ms c1 t)"
proof (cases "get_reader_from_map readers ssts (bm_sst_id m)")
  case (Inr rd)
  obtain c1 res where r: "read_block_arc L decompress rd (bm_block_idx m) c = (c1, res)" by fastforce
  then show thesis
  proof (cases res)
    case b: (Inr rs)
    obtain f t where "filter_sst_block (key_filter q) (time_range q) False now_us rs tombs = (f, t)" by fastforce
    with Inr r b that show thesis by (cases "f = []") simp_all
  qed (use that r Inr in simp)
qed (use that in simp)

lemma load_filtered_matches:
  "s \<in> set (fst (snd (load_filtered L decompress readers ssts q now_us ms c tombs))) \<Longrightarrow> r \<in> set s \<Longrightarrow> matches_query q now_us r"
proof (induction ms arbitrary: tombs c)
  case (Cons m ms)
  show ?case
  proof (cases rule: load_filtered_step [of L decompress readers ssts q now_us m ms c tombs])
    case (1 c1 t)
    then show ?thesis using Cons by simp
  next
    case (2 c1 rs f t)
    then show ?thesis using Cons filter_sst_matches [of r q now_us rs tombs] by auto
  qed
qed simp

lemma scan_sources_match:
  assumes "scan_build L decompress q ms ix c readers ssts now_us = Some (c', it)" "r \<in> set (concat (sc_sources it))"
  shows "matches_query q now_us r"
proof (rule scan_build_parts [OF assms(1)])
  fix candidates tombs0 sst_sources tombs
  assume l: "(if is_full_scan q then (c, load_full decompress readers ssts now_us candidates tombs0)
      else load_filtered L decompress readers ssts q now_us candidates c tombs0) = (c', sst_sources, tombs)"
    and s: "sc_sources it = (if scan_mem q ms now_us \<noteq> [] then [sort_key sort_ord (scan_mem q ms now_us)] else []) @ sst_sources"
  consider "r \<in> set (scan_mem q ms now_us)" | s' where "s' \<in> set sst_sources" "r \<in> set s'"
    using assms(2) by (auto simp: s split: if_splits)
  then show ?thesis
  proof cases
    case 1
    then show ?thesis by (rule scan_mem_matches)
  next
    case 2
    show ?thesis
    proof (cases "is_full_scan q")
      case True
      then have "now_us < expire_at r" using l 2 load_full_live [of s' decompress readers ssts now_us candidates tombs0 r] by simp
      with True show ?thesis by (auto simp: is_full_scan_def matches_query_def key_matches_def)
    next
      case False
      then show ?thesis using l 2 load_filtered_matches [of s' L decompress readers ssts q now_us candidates c tombs0 r] by simp
    qed
  qed
qed

lemma newest_cong: "set a = set b \<Longrightarrow> newest a r = newest b r"
  by (simp add: newest_def)



end
