(* ===== verification/Engine.thy ===== *)
theory Engine
  imports Compaction Scan
begin

text \<open>
  \<^verbatim>\<open>src/engine.rs\<close>: the engine that ties the components together: opening and recovery, the write calls, point lookups,
  queries, deletes, patching, flush, garbage collection, compaction, maintenance and closing.
  The engine shares memtables, manifest, index and SST directory with the worker (they are \<^verbatim>\<open>Arc\<close>s of the same objects),
  so its state is the worker's state, the sequence counter, the block cache and the open readers.  Each call is one
  step by one thread: a write commits a group of one submission.  The third-party codecs and the LRU are
  the record \<open>externals\<close>, the clock is the argument \<open>now_us\<close>.
\<close>

section \<open>State\<close>

record 'l externals =
  ev_lru :: "'l lru_ops"
  ev_compress :: "bytes \<Rightarrow> bytes"
  ev_decompress :: "bytes \<Rightarrow> nat \<Rightarrow> string + bytes"
  ev_ser :: "ManifestEntry \<Rightarrow> string"
  ev_de :: "string \<Rightarrow> ManifestEntry option"

record 'l Engine =
  en_worker :: WriteWorker
  en_seq_counter :: nat
  en_cache :: "'l BlockCache"
  en_readers :: "nat \<rightharpoonup> SstReader"

abbreviation en_config :: "'l Engine \<Rightarrow> Config" where
  "en_config e \<equiv> ww_config (en_worker e)"

section \<open>Writing\<close>

text \<open>\<^verbatim>\<open>seq_counter.fetch_add(n)\<close> on an \<^verbatim>\<open>AtomicU64\<close>.\<close>

definition fetch_add :: "nat \<Rightarrow> 'l Engine \<Rightarrow> nat \<times> 'l Engine" where
  "fetch_add n e = (en_seq_counter e, e\<lparr>en_seq_counter := (en_seq_counter e + n) mod 2 ^ 64\<rparr>)"

text \<open>The expiry a TTL gives: \<^verbatim>\<open>ts.saturating_add((t as i64).saturating_mul(1_000_000))\<close>.\<close>

definition ttl_expire :: "nat \<Rightarrow> int \<Rightarrow> int" where
  "ttl_expire t tstamp = saturating_add tstamp (saturating_mul (u64_as_i64 t) 1000000)"

definition convert_records :: "Record list \<Rightarrow> nat option \<Rightarrow> 'l Engine \<Rightarrow> 'l Engine \<times> InternalRecord list" where
  "convert_records batch ttl_secs e =
     (let ttl = (case ttl_secs of Some t \<Rightarrow> Some t | None \<Rightarrow> default_ttl_secs (en_config e));
          (base, e) = fetch_add (length batch) e
      in (e, map (\<lambda>(i, r). \<lparr>seq = (base + i) mod 2 ^ 64, rop = Put, key = pkey r, ts = pts r,
                expire_at = (case ttl of Some t \<Rightarrow> ttl_expire t (pts r) | None \<Rightarrow> pexpire_at r),
                val = pval r, range_end = None\<rparr>) (enumerate 0 batch)))"

text \<open>\<^verbatim>\<open>do_write\<close>; \<open>None\<close> is a commit that does not return.\<close>

definition do_write :: "'l externals \<Rightarrow> int \<Rightarrow> InternalRecord list \<Rightarrow> 'l Engine \<Rightarrow> 'l Engine option" where
  "do_write ext now_us recs e =
     (let batch_max_seq = (if recs = [] then 0 else seq (last recs));
          sub = \<lparr>sub_records = recs, sub_wal_buf = fst (encode_batch recs), sub_batch_max_seq = batch_max_seq,
                 sub_sync_mode = wal_sync_mode (en_config e)\<rparr>
      in map_option (\<lambda>w. e\<lparr>en_worker := w\<rparr>)
           (process_batch_group (ev_compress ext) (ev_ser ext) now_us [sub] (en_worker e)))"

definition write_batch_owned_ttl :: "'l externals \<Rightarrow> int \<Rightarrow> Record list \<Rightarrow> nat option \<Rightarrow> 'l Engine \<Rightarrow> 'l Engine option" where
  "write_batch_owned_ttl ext now_us batch ttl_secs e =
     (if batch = [] then Some e
      else let (e, recs) = convert_records batch ttl_secs e in do_write ext now_us recs e)"

definition write_batch_sync :: "'l externals \<Rightarrow> int \<Rightarrow> Record list \<Rightarrow> 'l Engine \<Rightarrow> 'l Engine option" where
  "write_batch_sync ext now_us batch e =
     (if batch = [] then Some e
      else let (e, recs) = convert_records batch None e in do_write ext now_us recs e)"

definition write_batch_ttl :: "'l externals \<Rightarrow> int \<Rightarrow> Record list \<Rightarrow> nat option \<Rightarrow> 'l Engine \<Rightarrow> 'l Engine option" where
  "write_batch_ttl ext now_us batch ttl_secs e =
     (if batch = [] then Some e
      else let ttl = (case ttl_secs of Some t \<Rightarrow> Some t | None \<Rightarrow> default_ttl_secs (en_config e));
               (base, e) = fetch_add (length batch) e;
               recs = map (\<lambda>(i, r). (from_record r ((base + i) mod 2 ^ 64))
                        \<lparr>expire_at := (case ttl of Some t \<Rightarrow> ttl_expire t (pts r) | None \<Rightarrow> pexpire_at r)\<rparr>) (enumerate 0 batch)
           in do_write ext now_us recs e)"

definition write_batch :: "'l externals \<Rightarrow> int \<Rightarrow> Record list \<Rightarrow> 'l Engine \<Rightarrow> 'l Engine option" where
  "write_batch ext now_us batch e = write_batch_ttl ext now_us batch None e"

definition write_batch_owned :: "'l externals \<Rightarrow> int \<Rightarrow> Record list \<Rightarrow> 'l Engine \<Rightarrow> 'l Engine option" where
  "write_batch_owned ext now_us batch e = write_batch_owned_ttl ext now_us batch None e"

definition delete_batch :: "'l externals \<Rightarrow> int \<Rightarrow> (bytes \<times> int) list \<Rightarrow> 'l Engine \<Rightarrow> 'l Engine option" where
  "delete_batch ext now_us keys_ts e =
     (if keys_ts = [] then Some e
      else let (base, e) = fetch_add (length keys_ts) e
           in do_write ext now_us (map (\<lambda>(i, k, t). delete_rec k t ((base + i) mod 2 ^ 64)) (enumerate 0 keys_ts)) e)"

definition delete_range :: "'l externals \<Rightarrow> int \<Rightarrow> bytes \<Rightarrow> bytes \<Rightarrow> 'l Engine \<Rightarrow> 'l Engine option" where
  "delete_range ext now_us start_key end_key e =
     (let (s, e) = fetch_add 1 e in do_write ext now_us [delete_range_rec start_key end_key s] e)"

definition write_internal :: "'l externals \<Rightarrow> int \<Rightarrow> InternalRecord list \<Rightarrow> 'l Engine \<Rightarrow> 'l Engine option" where
  "write_internal ext now_us recs e =
     (if recs = [] then Some e
      else let (base, e) = fetch_add (length recs) e
           in do_write ext now_us (map (\<lambda>(i, r). r\<lparr>seq := (base + i) mod 2 ^ 64\<rparr>) (enumerate 0 recs)) e)"

section \<open>Point lookups\<close>

definition get_reader :: "nat \<Rightarrow> 'l Engine \<Rightarrow> 'l Engine \<times> SstReader result" where
  "get_reader sid e =
     (case en_readers e sid of
        Some rd \<Rightarrow> (e, Inr rd)
      | None \<Rightarrow> (case ww_ssts (en_worker e) sid of
            None \<Rightarrow> (e, Inl (Other (''sst '' @ show_nat sid @ '' not found'')))
          | Some file \<Rightarrow> (case SstReader_open file sid of
                Inl err \<Rightarrow> (e, Inl err)
              | Inr rd \<Rightarrow> (e\<lparr>en_readers := (en_readers e)(sid \<mapsto> rd)\<rparr>, Inr rd))))"

definition find_in_records :: "InternalRecord list \<Rightarrow> bytes \<Rightarrow> int \<Rightarrow> int \<Rightarrow> Record option" where
  "find_in_records rs k t now_us =
     (case binary_search_by (\<lambda>r. cmp_of (key r, ts r) (k, t)) rs of
        None \<Rightarrow> None
      | Some idx \<Rightarrow>
          (let r = rs ! idx
           in if now_us < expire_at r \<and> rop r \<noteq> Delete
              then Some \<lparr>pkey = k, pts = ts r, pexpire_at = expire_at r, pval = val r\<rparr> else None))"

definition block_search :: "'l externals \<Rightarrow> bytes \<Rightarrow> int \<Rightarrow> int \<Rightarrow> nat \<Rightarrow> nat \<Rightarrow> 'l Engine \<Rightarrow> 'l Engine \<times> Record option" where
  "block_search ext k t now_us sid idx e =
     (case get_reader sid e of
        (e, Inl _) \<Rightarrow> (e, None)
      | (e, Inr rd) \<Rightarrow>
          (case read_block_cached (ev_lru ext) rd idx (en_cache e) of
             (c, Some cached) \<Rightarrow> (e\<lparr>en_cache := c\<rparr>, find_in_records cached k t now_us)
           | (c, None) \<Rightarrow>
               (case read_block_decompress (ev_decompress ext) rd idx of
                  Inl _ \<Rightarrow> (e\<lparr>en_cache := c\<rparr>, None)
                | Inr (_, rs) \<Rightarrow>
                    (e\<lparr>en_cache := cache_insert (ev_lru ext) \<lparr>ck_sst_id = sid, ck_block_idx = idx\<rparr> rs c\<rparr>,
                     find_in_records rs k t now_us))))"

text \<open>\<^verbatim>\<open>query_point_inline\<close> with a closure that changes state: the loop of \<open>point_loop\<close>, threading it.\<close>

fun point_loop_st :: "BlockMetaIndex \<Rightarrow> bytes \<Rightarrow> int \<Rightarrow> (BlockMeta \<Rightarrow> 's \<Rightarrow> 's \<times> 'a option) \<Rightarrow> (nat \<times> BlockMeta list) list
    \<Rightarrow> 's \<Rightarrow> 's \<times> 'a option" where
  "point_loop_st ix k now_us f [] s = (s, None)"
| "point_loop_st ix k now_us f ((sid, blocks) # rest) s =
     (if \<not> bloom_may_contain ix sid k then point_loop_st ix k now_us f rest s
      else case binary_search_block blocks k of
             None \<Rightarrow> point_loop_st ix k now_us f rest s
           | Some m \<Rightarrow>
               if is_expired now_us m then point_loop_st ix k now_us f rest s
               else case f m s of (s, Some r) \<Rightarrow> (s, Some r) | (s, None) \<Rightarrow> point_loop_st ix k now_us f rest s)"

text \<open>\<^verbatim>\<open>get_bytes\<close>; \<^verbatim>\<open>get_sync\<close> has the same statements on the bytes of a string.\<close>

definition get_bytes :: "'l externals \<Rightarrow> int \<Rightarrow> bytes \<Rightarrow> int \<Rightarrow> 'l Engine \<Rightarrow> 'l Engine \<times> Record option" where
  "get_bytes ext now_us k t e =
     (case mts_get k t now_us (ww_memtables (en_worker e)) of
        Some r \<Rightarrow> (e, if rop r \<noteq> Delete then Some (to_record r) else None)
      | None \<Rightarrow>
          (let ix = ww_index (en_worker e)
           in case single_sst_point ix k now_us of
                Some (sid, idx) \<Rightarrow> block_search ext k t now_us sid idx e
              | None \<Rightarrow> point_loop_st ix k now_us (\<lambda>m. block_search ext k t now_us (bm_sst_id m) (bm_block_idx m)) (sst_blocks ix) e))"

definition get_sync :: "'l externals \<Rightarrow> int \<Rightarrow> bytes \<Rightarrow> int \<Rightarrow> 'l Engine \<Rightarrow> 'l Engine \<times> Record option" where
  "get_sync ext now_us k t e = get_bytes ext now_us k t e"

definition get :: "'l externals \<Rightarrow> int \<Rightarrow> bytes \<Rightarrow> int \<Rightarrow> 'l Engine \<Rightarrow> 'l Engine \<times> Record option result" where
  "get ext now_us k t e = map_prod id Inr (get_sync ext now_us k t e)"

text \<open>The loop of \<^verbatim>\<open>block_search_latest\<close>.\<close>

definition best_of :: "bytes \<Rightarrow> int \<Rightarrow> InternalRecord list \<Rightarrow> InternalRecord option" where
  "best_of k now_us rs =
     fold (\<lambda>r best. if key r = k \<and> now_us < expire_at r \<and> rop r \<noteq> Delete then better best (Some r) else best) rs None"

definition block_search_latest :: "'l externals \<Rightarrow> bytes \<Rightarrow> int \<Rightarrow> nat \<Rightarrow> nat \<Rightarrow> 'l Engine \<Rightarrow> 'l Engine \<times> Record option" where
  "block_search_latest ext k now_us sid idx e =
     (case get_reader sid e of
        (e, Inl _) \<Rightarrow> (e, None)
      | (e, Inr rd) \<Rightarrow>
          (case read_block_decompress (ev_decompress ext) rd idx of
             Inl _ \<Rightarrow> (e, None)
           | Inr (_, rs) \<Rightarrow>
               (e, map_option (\<lambda>r. \<lparr>pkey = k, pts = ts r, pexpire_at = expire_at r, pval = val r\<rparr>) (best_of k now_us rs))))"

definition get_latest :: "'l externals \<Rightarrow> int \<Rightarrow> bytes \<Rightarrow> 'l Engine \<Rightarrow> 'l Engine \<times> Record option" where
  "get_latest ext now_us k e =
     (let mem_latest = mts_get_latest k now_us (ww_memtables (en_worker e));
          ix = ww_index (en_worker e);
          (e, sst_latest) = point_loop_st ix k now_us (\<lambda>m. block_search_latest ext k now_us (bm_sst_id m) (bm_block_idx m)) (sst_blocks ix) e
      in (e, case (mem_latest, sst_latest) of
               (Some m, Some s) \<Rightarrow> if pts s \<le> ts m then Some (to_record m) else Some s
             | (Some m, None) \<Rightarrow> Some (to_record m)
             | (None, Some s) \<Rightarrow> Some s
             | (None, None) \<Rightarrow> None))"

text \<open>The message of \<^verbatim>\<open>format!("record not found: key={}, ts={}", key, ts)\<close>; a key is the bytes of a string.\<close>

definition show_int :: "int \<Rightarrow> string" where
  "show_int i = (if i < 0 then CHR ''-'' # show_nat (nat (- i)) else show_nat (nat i))"

definition not_found_msg :: "bytes \<Rightarrow> int \<Rightarrow> string" where
  "not_found_msg k t = ''record not found: key='' @ map (\<lambda>b. char_of (unat b)) k @ '', ts='' @ show_int t"

definition patch_record :: "'l externals \<Rightarrow> int \<Rightarrow> bytes \<Rightarrow> int \<Rightarrow> bytes option \<Rightarrow> nat option \<Rightarrow> 'l Engine
    \<Rightarrow> ('l Engine \<times> Record result) option" where
  "patch_record ext now_us k t new_value new_ttl_secs e =
     (case get_sync ext now_us k t e of
        (e, None) \<Rightarrow> Some (e, Inl (Other (not_found_msg k t)))
      | (e, Some r) \<Rightarrow>
          (let r = (case new_value of Some v \<Rightarrow> r\<lparr>pval := v\<rparr> | None \<Rightarrow> r);
               r = (case new_ttl_secs of Some ttl \<Rightarrow> r\<lparr>pexpire_at := ttl_expire ttl (pts r)\<rparr> | None \<Rightarrow> r)
           in map_option (\<lambda>e. (e, Inr r)) (write_batch ext now_us [r] e)))"

section \<open>Queries and scans\<close>

text \<open>A scan borrows the memtables, the index, the cache and a snapshot of the readers; it changes the cache only.
  \<open>None\<close> is the index's panic.\<close>

definition engine_scan :: "'l externals \<Rightarrow> int \<Rightarrow> Query \<Rightarrow> 'l Engine \<Rightarrow> ('l Engine \<times> ScanIterator) option" where
  "engine_scan ext now_us q e =
     map_option (\<lambda>(c, it). (e\<lparr>en_cache := c\<rparr>, it))
       (scan_build (ev_lru ext) (ev_decompress ext) q (ww_memtables (en_worker e)) (ww_index (en_worker e)) (en_cache e)
          (en_readers e) (ww_ssts (en_worker e)) now_us)"

definition engine_query :: "'l externals \<Rightarrow> int \<Rightarrow> Query \<Rightarrow> 'l Engine \<Rightarrow> ('l Engine \<times> Record list) option" where
  "engine_query ext now_us q e = map_option (\<lambda>(e, it). (e, scan_collect it)) (engine_scan ext now_us q e)"

definition query_by_prefix :: "'l externals \<Rightarrow> int \<Rightarrow> bytes \<Rightarrow> 'l Engine \<Rightarrow> ('l Engine \<times> Record list) option" where
  "query_by_prefix ext now_us k e = engine_query ext now_us (Query_prefix k) e"

definition query_by_key_range :: "'l externals \<Rightarrow> int \<Rightarrow> bytes \<Rightarrow> bytes \<Rightarrow> 'l Engine \<Rightarrow> ('l Engine \<times> Record list) option" where
  "query_by_key_range ext now_us a b e = engine_query ext now_us (Query_key_range a b) e"

definition query_time_range :: "'l externals \<Rightarrow> int \<Rightarrow> int \<Rightarrow> int \<Rightarrow> 'l Engine \<Rightarrow> ('l Engine \<times> Record list) option" where
  "query_time_range ext now_us t0 t1 e = engine_query ext now_us (Query_time_range t0 t1) e"

definition query_prefix_time_range :: "'l externals \<Rightarrow> int \<Rightarrow> bytes \<Rightarrow> int \<Rightarrow> int \<Rightarrow> 'l Engine
    \<Rightarrow> ('l Engine \<times> Record list) option" where
  "query_prefix_time_range ext now_us k t0 t1 e = engine_query ext now_us (Query_prefix_time_range k t0 t1) e"

definition query_key_time_range :: "'l externals \<Rightarrow> int \<Rightarrow> bytes \<Rightarrow> bytes \<Rightarrow> int \<Rightarrow> int \<Rightarrow> 'l Engine
    \<Rightarrow> ('l Engine \<times> Record list) option" where
  "query_key_time_range ext now_us a b t0 t1 e = engine_query ext now_us (Query_key_time_range a b t0 t1) e"

definition scan_opt :: "'l externals \<Rightarrow> int \<Rightarrow> ScanRange \<Rightarrow> 'l Engine \<Rightarrow> ('l Engine \<times> ScanIterator) option" where
  "scan_opt ext now_us rng e =
     (let (kf, tr) = to_query_params rng in engine_scan ext now_us \<lparr>key_filter = kf, time_range = tr\<rparr> e)"

text \<open>\<^verbatim>\<open>scan\<close>; the read options are not used by the code.\<close>

definition scan_default :: "'l externals \<Rightarrow> int \<Rightarrow> ScanRange \<Rightarrow> 'l Engine \<Rightarrow> ('l Engine \<times> ScanIterator) option" where
  "scan_default ext now_us rng e = scan_opt ext now_us rng e"

definition scan_prefix :: "'l externals \<Rightarrow> int \<Rightarrow> bytes \<Rightarrow> 'l Engine \<Rightarrow> ('l Engine \<times> ScanIterator) option" where
  "scan_prefix ext now_us p e = scan_default ext now_us (ScanRange_prefix p) e"

definition scan_prefix_time_range :: "'l externals \<Rightarrow> int \<Rightarrow> bytes \<Rightarrow> int \<Rightarrow> int \<Rightarrow> 'l Engine \<Rightarrow> ('l Engine \<times> ScanIterator) option" where
  "scan_prefix_time_range ext now_us p t0 t1 e = scan_default ext now_us (ScanRange_prefix_time_range p t0 t1) e"

section \<open>Maintenance\<close>

definition engine_flush :: "'l externals \<Rightarrow> int \<Rightarrow> 'l Engine \<Rightarrow> 'l Engine" where
  "engine_flush ext now_us e = e\<lparr>en_worker := do_flush (ev_compress ext) (ev_ser ext) now_us (en_worker e)\<rparr>"

definition evict_stale_readers :: "'l Engine \<Rightarrow> 'l Engine" where
  "evict_stale_readers e =
     e\<lparr>en_readers := en_readers e |` (fst ` set (sstables (mstate (ww_manifest (en_worker e)))))\<rparr>"

definition trigger_gc :: "'l externals \<Rightarrow> nat list \<Rightarrow> int \<Rightarrow> 'l Engine \<Rightarrow> 'l Engine \<times> nat" where
  "trigger_gc ext order now_us e =
     (let ((w, c), purged) = gc_run (ev_lru ext) (ev_ser ext) order now_us (en_worker e, en_cache e)
      in (evict_stale_readers (e\<lparr>en_worker := w, en_cache := c\<rparr>), purged))"

definition runner_of :: "Config \<Rightarrow> CompactionRunner" where
  "runner_of cfg = \<lparr>cr_block_size = block_size cfg, cr_bloom_bits_per_key = bloom_bits_per_key cfg,
     cr_compaction_threshold = compaction_threshold cfg\<rparr>"

definition trigger_compaction :: "'l externals \<Rightarrow> int \<Rightarrow> 'l Engine \<Rightarrow> ('l Engine \<times> bool) result option" where
  "trigger_compaction ext now_us e =
     map_option (\<lambda>res. case res of
         Inl err \<Rightarrow> Inl err
       | Inr ((w, c), did) \<Rightarrow> Inr (evict_stale_readers (e\<lparr>en_worker := w, en_cache := c\<rparr>), did))
       (compaction_run (ev_lru ext) (ev_compress ext) (ev_decompress ext) (ev_ser ext) now_us (runner_of (en_config e))
          (en_worker e, en_cache e))"

definition close :: "'l externals \<Rightarrow> int \<Rightarrow> 'l Engine \<Rightarrow> 'l Engine" where
  "close ext now_us e =
     (let e = engine_flush ext now_us e; w = en_worker e
      in e\<lparr>en_worker := w\<lparr>ww_wal := wal_flush (ww_wal w)\<rparr>\<rparr>)"

text \<open>\<^verbatim>\<open>shutdown\<close> first stops the maintenance thread, which is not part of this state.\<close>

definition shutdown :: "'l externals \<Rightarrow> int \<Rightarrow> 'l Engine \<Rightarrow> 'l Engine" where
  "shutdown ext now_us e = close ext now_us e"

text \<open>One round of the maintenance thread; the four arguments say which timers have run out.  \<open>order\<close> is the
  iteration order of the hash map of tables, for the collector and for a snapshot.\<close>

definition maintenance_compact :: "'l externals \<Rightarrow> (ManifestState \<Rightarrow> nat list) \<Rightarrow> int \<Rightarrow> 'l Engine \<Rightarrow> 'l Engine option" where
  "maintenance_compact ext order now_us e =
     (if compaction_threshold (en_config e) \<le> length (sstables (mstate (ww_manifest (en_worker e))))
      then case compaction_run (ev_lru ext) (ev_compress ext) (ev_decompress ext) (ev_ser ext) now_us (runner_of (en_config e))
             (en_worker e, en_cache e) of
             None \<Rightarrow> None
           | Some (Inl _) \<Rightarrow> Some e
           | Some (Inr ((w, c), did)) \<Rightarrow>
               (let e = e\<lparr>en_worker := w, en_cache := c\<rparr>
                in Some (if did
                   then let e = evict_stale_readers e; w = en_worker e
                        in e\<lparr>en_worker := w\<lparr>ww_manifest := maybe_snapshot (ev_ser ext) (order (mstate (ww_manifest w))) (ww_manifest w)\<rparr>\<rparr>
                   else e))
      else Some e)"

definition maintenance_tick :: "'l externals \<Rightarrow> (ManifestState \<Rightarrow> nat list) \<Rightarrow> int \<Rightarrow> bool \<Rightarrow> bool \<Rightarrow> bool \<Rightarrow> bool \<Rightarrow> 'l Engine
    \<Rightarrow> 'l Engine option" where
  "maintenance_tick ext order now_us flush_due compact_due gc_due sync_due e =
     (let e = (if flush_due then engine_flush ext now_us e else e)
      in map_option (\<lambda>e.
           let e = (if gc_due
                    then let ((w, c), n) = gc_run (ev_lru ext) (ev_ser ext) (order (mstate (ww_manifest (en_worker e)))) now_us
                               (en_worker e, en_cache e);
                             e = e\<lparr>en_worker := w, en_cache := c\<rparr>
                         in if n > 0 then evict_stale_readers e else e
                    else e)
           in if sync_due then e\<lparr>en_worker := (en_worker e)\<lparr>ww_wal := wal_sync_all (ww_wal (en_worker e))\<rparr>\<rparr> else e)
         (if compact_due then maintenance_compact ext order now_us e else Some e))"

section \<open>Opening\<close>

text \<open>What is on disk: the log directory, the manifest file and the SSTable files; \<open>None\<close> for a data directory that does not
  exist.\<close>

record disk =
  d_wal :: wal_dir
  d_manifest :: "string option"
  d_ssts :: "nat \<rightharpoonup> bytes"

text \<open>The loop of \<^verbatim>\<open>rebuild_bloom_for_sst\<close> that reads every block; its message also prints the cause, which is left out here.\<close>

fun read_all_blocks :: "(bytes \<Rightarrow> nat \<Rightarrow> string + bytes) \<Rightarrow> SstReader \<Rightarrow> nat list \<Rightarrow> InternalRecord list result" where
  "read_all_blocks decompress rd [] = Inr []"
| "read_all_blocks decompress rd (i # is) =
     (case read_block_inner decompress rd i of
        Inl err \<Rightarrow> Inl (Other (''rebuild_bloom: failed to read block '' @ show_nat i @ '' of sst '' @ show_nat (rd_sst_id rd)))
      | Inr rs \<Rightarrow> (case read_all_blocks decompress rd is of Inl err \<Rightarrow> Inl err | Inr rest \<Rightarrow> Inr (rs @ rest)))"

definition rebuild_bloom_for_sst :: "'l externals \<Rightarrow> (nat \<rightharpoonup> bytes) \<Rightarrow> nat \<Rightarrow> nat \<Rightarrow> Manifest \<times> BlockMetaIndex
    \<Rightarrow> (Manifest \<times> BlockMetaIndex) result" where
  "rebuild_bloom_for_sst ext ssts sid bits_per_key = (\<lambda>(mf, ix).
     case ssts sid of
       None \<Rightarrow> Inl (Other (''rebuild_bloom: sst '' @ show_nat sid @ '' file missing''))
     | Some file \<Rightarrow>
         (case SstReader_open file sid of
            Inl err \<Rightarrow> Inl err
          | Inr rd \<Rightarrow>
              (case read_all_blocks (ev_decompress ext) rd [0..<block_count rd] of
                 Inl err \<Rightarrow> Inl err
               | Inr rs \<Rightarrow>
                   (let new_bloom = from_keys_with_bits (unique_keys None rs) bits_per_key
                    in Inr (manifest_append (ev_ser ext) (UpdateBloom sid new_bloom) mf, set_bloom sid new_bloom ix)))))"

definition open_index :: "Config \<Rightarrow> ManifestState \<Rightarrow> BlockMetaIndex" where
  "open_index cfg st =
     fold (\<lambda>i ix. case (map_of (sstables st) i, map_of (block_infos st) i) of
              (Some info, Some blocks) \<Rightarrow>
                (let ix = ix_add_sst i blocks ix
                 in case sst_bloom info of Some b \<Rightarrow> set_bloom i b ix | None \<Rightarrow> ix)
            | _ \<Rightarrow> ix)
       (active_sst_ids st) (Index_new (time_bucket_secs cfg))"

definition stale_ssts :: "ManifestState \<Rightarrow> nat list" where
  "stale_ssts st = filter (\<lambda>i. case map_of (sstables st) i of
       Some info \<Rightarrow> (case sst_bloom info of Some b \<Rightarrow> hash_version b \<noteq> CURRENT_HASH_VERSION | None \<Rightarrow> False)
     | None \<Rightarrow> False) (active_sst_ids st)"

definition rebuild_stale :: "'l externals \<Rightarrow> (nat \<rightharpoonup> bytes) \<Rightarrow> nat \<Rightarrow> nat list \<Rightarrow> Manifest \<times> BlockMetaIndex \<Rightarrow> Manifest \<times> BlockMetaIndex" where
  "rebuild_stale ext ssts bits_per_key ids s =
     fold (\<lambda>i (mf, ix). case rebuild_bloom_for_sst ext ssts i bits_per_key (mf, ix) of
             Inr s \<Rightarrow> s | Inl _ \<Rightarrow> (mf, remove_bloom i ix)) ids s"

text \<open>\<open>stack_size\<close> is the size of an \<^verbatim>\<open>InternalRecord\<close>, for the cache capacity.  The maintenance thread that \<^verbatim>\<open>auto_background\<close>
  starts is \<open>maintenance_tick\<close>.\<close>

definition engine_open :: "'l externals \<Rightarrow> nat \<Rightarrow> Config \<Rightarrow> disk option \<Rightarrow> 'l Engine result" where
  "engine_open ext stack_size cfg od =
     (case validate cfg of
        Inl err \<Rightarrow> Inl err
      | Inr _ \<Rightarrow>
          if od = None \<and> \<not> create_if_missing cfg then Inl (Io (''data directory does not exist: '' @ data_dir cfg))
          else
            (let d = (case od of Some d \<Rightarrow> d | None \<Rightarrow> \<lparr>d_wal = [], d_manifest = None, d_ssts = Map.empty\<rparr>);
                 wal = Wal_open (d_wal d) (wal_segment_size_mb cfg);
                 mf = Manifest_open (ev_de ext) (d_manifest d);
                 st = mstate mf;
                 (mf, ix) = rebuild_stale ext (d_ssts d) (bloom_bits_per_key cfg) (stale_ssts st) (mf, open_index cfg st);
                 (wal, wal_records) = replay_from (last_flushed_seq (mstate mf)) wal;
                 mts = fold mts_insert wal_records
                   (MemTables_new (max_frozen_memtables cfg) (memtable_size_mb cfg * 1024 * 1024));
                 max_sst_id = foldr max (map fst (sstables (mstate mf))) 0
             in Inr \<lparr>en_worker = \<lparr>ww_config = cfg, ww_wal = wal, ww_memtables = mts, ww_manifest = mf, ww_index = ix,
                      ww_ssts = d_ssts d\<rparr>,
                    en_seq_counter = (max_sst_id + 1) * 1000000,
                    en_cache = with_block_size (ev_lru ext) stack_size (block_cache_capacity_mb cfg) (block_size cfg),
                    en_readers = Map.empty\<rparr>))"

end
