(* ===== verification/Engine_Correct.thy ===== *)
theory Engine_Correct
  imports Engine
begin

text \<open>
  Properties of the whole engine: what a write numbers and when it expires, that a write is read back, that a flushed
  table answers point lookups (and when it does not), and that opening after a crash finds every acknowledged write.
\<close>

section \<open>Concrete engines for examples\<close>

definition plain_ext :: "(nat \<times> (CacheKey \<times> InternalRecord list) list) externals" where
  "plain_ext = \<lparr>ev_lru = list_lru, ev_compress = \<lambda>d. d, ev_decompress = \<lambda>d n. Inr d, ev_ser = unary_ser, ev_de = unary_de\<rparr>"

definition idle_engine :: "Config \<Rightarrow> (nat \<times> (CacheKey \<times> InternalRecord list) list) Engine" where
  "idle_engine cfg = \<lparr>en_worker = worker_init unary_de cfg, en_seq_counter = 1000000,
     en_cache = with_block_size list_lru 120 128 8192, en_readers = Map.empty\<rparr>"

section \<open>Sequence numbers and expiry\<close>

lemma saturating_mul_ttl:
  assumes "t < 2 ^ 63"
  shows "saturating_mul (u64_as_i64 t) 1000000 = min i64_max (int t * 1000000)"
  using assms by (simp add: saturating_mul_def sat_i64_def u64_as_i64_def Let_def i64_min_def i64_max_def)

lemma ttl_expire_small:
  assumes "t < 2 ^ 63" "i64 s"
  shows "s \<le> ttl_expire t s" "t \<le> max_bucket \<Longrightarrow> ttl_expire t s = min i64_max (s + int t * 1000000)"
proof -
  show "s \<le> ttl_expire t s"
    using assms by (auto simp: ttl_expire_def saturating_mul_ttl saturating_add_def sat_i64_def i64_def i64_min_def i64_max_def)
  assume "t \<le> max_bucket"
  then have "int t * 1000000 \<le> i64_max" by (simp add: max_bucket_def i64_max_def)
  then show "ttl_expire t s = min i64_max (s + int t * 1000000)"
    using assms by (auto simp: ttl_expire_def saturating_mul_ttl saturating_add_def sat_i64_def i64_def i64_min_def i64_max_def)
qed

lemma ttl_expire_huge:
  assumes "2 ^ 63 \<le> t" "t < 2 ^ 64" "i64 s"
  shows "ttl_expire t s \<le> s"
proof -
  have "u64_as_i64 t < 0" using assms(1,2) by (simp add: u64_as_i64_def Let_def)
  then have "saturating_mul (u64_as_i64 t) 1000000 \<le> 0" by (simp add: saturating_mul_def sat_i64_def i64_min_def)
  then show ?thesis using assms(3) by (auto simp: ttl_expire_def saturating_add_def sat_i64_def i64_def)
qed

text \<open>C23. A batch gets consecutive fresh sequence numbers in order and the counter moves past them (as long as the 64-bit counter
  does not overflow); with a TTL of \<open>t\<close> seconds, the expiry of every record stays in the \<^verbatim>\<open>i64\<close> range, is exactly
  \<open>ts + t\<close> seconds (capped) for a TTL that passes validation, never lies before the timestamp for \<open>t < 2^63\<close>, and
  lies at or before the timestamp for larger \<open>t\<close>, which the cast to \<^verbatim>\<open>i64\<close> makes negative.\<close>

theorem convert_records_bounds:
  assumes "convert_records batch (Some t) e = (e', recs)" "en_seq_counter e + length batch < 2 ^ 64"
    and "t < 2 ^ 64" "\<forall>r\<in>set batch. i64 (pts r)"
  shows "map seq recs = [en_seq_counter e..<en_seq_counter e + length batch]
    \<and> en_seq_counter e' = en_seq_counter e + length batch
    \<and> length recs = length batch
    \<and> (\<forall>i<length batch. version (recs ! i) = pversion (batch ! i) \<and> val (recs ! i) = pval (batch ! i) \<and> i64 (expire_at (recs ! i))
         \<and> (t \<le> max_bucket \<longrightarrow> expire_at (recs ! i) = min i64_max (pts (batch ! i) + int t * 1000000))
         \<and> (t < 2 ^ 63 \<longrightarrow> pts (batch ! i) \<le> expire_at (recs ! i))
         \<and> (2 ^ 63 \<le> t \<longrightarrow> expire_at (recs ! i) \<le> pts (batch ! i)))"
proof -
  let ?c = "en_seq_counter e"
  have recs: "recs = map (\<lambda>(i, r). \<lparr>seq = (?c + i) mod 2 ^ 64, rop = Put, key = pkey r, ts = pts r,
      expire_at = ttl_expire t (pts r), val = pval r, range_end = None\<rparr>) (enumerate 0 batch)"
    and e': "e' = e\<lparr>en_seq_counter := (?c + length batch) mod 2 ^ 64\<rparr>"
    using assms(1) by (simp_all add: convert_records_def fetch_add_def Let_def)
  have nth: "recs ! i = \<lparr>seq = ?c + i, rop = Put, key = pkey (batch ! i), ts = pts (batch ! i),
      expire_at = ttl_expire t (pts (batch ! i)), val = pval (batch ! i), range_end = None\<rparr>" if "i < length batch" for i
    using that assms(2) by (simp add: recs nth_enumerate_eq)
  have len: "length recs = length batch" by (simp add: recs)
  have "map seq recs = [?c..<?c + length batch]"
    by (rule nth_equalityI) (simp_all add: len nth)
  moreover have "t < 2 ^ 63" if "t \<le> max_bucket" using that by (simp add: max_bucket_def)
  ultimately show ?thesis
    using e' assms len nth ttl_expire_small ttl_expire_huge
    by (simp add: version_def pversion_def ttl_expire_def)
qed

theorem convert_records_bounds_witness:
  "map seq (snd (convert_records [Record_new [1] 5 [7], Record_new [2] 6 [8]] (Some 3) (idle_engine Config_default)))
     = [1000000, 1000001]
   \<and> expire_at (snd (convert_records [Record_new [1] 5 [7], Record_new [2] 6 [8]] (Some 3) (idle_engine Config_default)) ! 1)
     = 3000006"
proof -
  let ?b = "[Record_new [1] 5 [7], Record_new [2] 6 [8]]" and ?e = "idle_engine Config_default"
  obtain e' recs where c: "convert_records ?b (Some 3) ?e = (e', recs)" by fastforce
  have r: "\<forall>r\<in>set ?b. i64 (pts r)" by (simp add: Record_new_def i64_def i64_min_def i64_max_def)
  have n: "en_seq_counter ?e + length ?b < 2 ^ 64" by (simp add: idle_engine_def)
  have "map seq recs = [1000000..<1000002]" "expire_at (recs ! 1) = 3000006"
    using convert_records_bounds [OF c n _ r] by (simp_all add: idle_engine_def Record_new_def max_bucket_def i64_max_def)
  then show ?thesis by (simp add: c upt_conv_Cons)
qed

section \<open>Reading back a write\<close>

lemma active_insert [simp]: "active (mts_insert r ms) = mt_insert r (active ms)"
  by (simp add: mts_insert_def)

lemma insert_get:
  assumes "i < length rs" "\<forall>j. i < j \<longrightarrow> j < length rs \<longrightarrow> version (rs ! j) \<noteq> version (rs ! i)"
  shows "mt_get (key (rs ! i)) (ts (rs ! i)) (active (fold mts_insert rs ms)) = Some (rs ! i)"
proof -
  have "\<exists>n<length (records (active (fold mts_insert rs ms))). point_index (active (fold mts_insert rs ms)) (version (rs ! i)) = Some n
      \<and> records (active (fold mts_insert rs ms)) ! n = rs ! i"
    using assms
  proof (induction rs rule: rev_induct)
    case (snoc r rs)
    show ?case
    proof (cases "i = length rs")
      case True
      then show ?thesis by (simp add: version_def)
    next
      case False
      then have i: "i < length rs" using snoc.prems(1) by simp
      have new: "version r \<noteq> version (rs ! i)" using snoc.prems(2) i by (force simp: nth_append)
      have "\<forall>j. i < j \<longrightarrow> j < length rs \<longrightarrow> version (rs ! j) \<noteq> version (rs ! i)"
        using snoc.prems(2) i by (simp add: nth_append) (metis less_SucI)
      from snoc.IH [OF i this] obtain n where "n < length (records (active (fold mts_insert rs ms)))"
        "point_index (active (fold mts_insert rs ms)) (version (rs ! i)) = Some n"
        "records (active (fold mts_insert rs ms)) ! n = rs ! i" by blast
      then show ?thesis using i new by (intro exI [of _ n]) (auto simp: nth_append version_def)
    qed
  qed simp
  then show ?thesis by (auto simp: mt_get_def version_def)
qed

lemma do_write_cases:
  assumes "do_write ext now_us recs e = Some e'" "records (active (ww_memtables (en_worker e'))) \<noteq> []"
  shows "\<exists>ms. ww_memtables (en_worker e') = fold mts_insert recs ms"
proof -
  let ?sub = "\<lparr>sub_records = recs, sub_wal_buf = fst (encode_batch recs), sub_batch_max_seq = if recs = [] then 0 else seq (last recs),
                 sub_sync_mode = wal_sync_mode (en_config e)\<rparr>"
  obtain v where v: "flush_while (ev_compress ext) (ev_ser ext) now_us (en_worker e) = Some v"
    and e': "e' = e\<lparr>en_worker := let w = process_batch_inner ?sub v;
           w = (if \<exists>s\<in>set [?sub]. sub_sync_mode s = Always then w\<lparr>ww_wal := wal_sync_all (ww_wal w)\<rparr> else w)
       in if should_flush (ww_memtables w) then do_flush (ev_compress ext) (ev_ser ext) now_us w else w\<rparr>"
    using assms(1) by (auto simp: do_write_def process_batch_group_def Let_def)
  have "ww_memtables (en_worker e') = fold mts_insert recs (ww_memtables v)"
    using assms(2) unfolding e'
    by (auto simp: Let_def do_flush_memtables freeze_pop_fields process_batch_inner_def split: if_splits)
  then show ?thesis by blast
qed

text \<open>The owned and the borrowed write call do the same.\<close>

lemma write_batch_owned_ttl_eq: "write_batch_owned_ttl ext now_us batch ttl e = write_batch_ttl ext now_us batch ttl e"
  by (simp add: write_batch_owned_ttl_def write_batch_ttl_def convert_records_def fetch_add_def from_record_def Let_def
      split: option.split)



section \<open>Range deletes and point lookups\<close>

text \<open>Point lookups do not see range deletes.  After \<open>delete_range\<close> (not followed by a flush), a record that a point lookup found
  in memory is still found, although the scans hide it; and a lookup of the start key at timestamp 0
  returns the tombstone itself as a record with an empty value.\<close>

theorem get_ignores_delete_range:
  assumes "delete_range ext now_us a b e = Some e'" "\<not> frozen_backpressure (ww_memtables (en_worker e))"
    and "mts_reach (ww_memtables (en_worker e))" "records (active (ww_memtables (en_worker e'))) \<noteq> []"
    and "mts_get k t now' (ww_memtables (en_worker e)) = Some r" "rop r = Put" "(k, t) \<noteq> (a, 0)" "now' \<le> i64_max"
  shows "get_bytes ext now' k t e' = (e', Some (to_record r))
    \<and> get_bytes ext now' a 0 e' = (e', Some \<lparr>pkey = a, pts = 0, pexpire_at = i64_max, pval = []\<rparr>)"
proof -
  let ?ms = "ww_memtables (en_worker e)" and ?c = "en_seq_counter e"
  define d where "d = delete_range_rec a b ?c"
  have d: "version d = (a, 0)" "expire_at d = i64_max" "rop d = DeleteRange"
      "to_record d = \<lparr>pkey = a, pts = 0, pexpire_at = i64_max, pval = []\<rparr>"
    by (simp_all add: d_def delete_range_rec_def version_def to_record_def)
  have fw: "flush_while (ev_compress ext) (ev_ser ext) now_us (en_worker e) = Some (en_worker e)"
    using assms(2) by (subst flush_while.simps) simp
  have m: "ww_memtables (en_worker e') = mts_insert d ?ms"
    using assms(1,4) fw
    by (auto simp: delete_range_def do_write_def process_batch_group_def process_batch_inner_def fetch_add_def Let_def
        do_flush_memtables freeze_pop_fields d_def split: if_splits)
  have "\<And>i. point_index (active ?ms) (k, t) = Some i \<Longrightarrow> i < length (records (active ?ms))"
    using mts_reach_ok [OF assms(3)] by (auto simp: mts_ok_def mt_ok_def)
  then have "mt_get k t (mt_insert d (active ?ms)) = mt_get k t (active ?ms)"
    using assms(7) d(1) by (auto simp: mt_get_def nth_append version_def split: option.split)
  then have "mts_get k t now' (mts_insert d ?ms) = Some r" using assms(5) by (simp add: mts_get_def mts_insert_def)
  moreover have "mts_get a 0 now' (mts_insert d ?ms) = Some d"
    using assms(8) d by (simp add: mts_get_def mt_get_def version_def)
  ultimately show ?thesis using assms(6) d by (simp add: get_bytes_def m)
qed

theorem get_ignores_delete_range_witness:
  "\<exists>e e'. mts_get [5] 7 0 (ww_memtables (en_worker e)) = Some (from_record (Record_new [5] 7 [9]) 1)
    \<and> delete_range plain_ext 0 [1] [8] e = Some e'
    \<and> get_bytes plain_ext 0 [5] 7 e' = (e', Some (to_record (from_record (Record_new [5] 7 [9]) 1)))"
proof -
  let ?r = "from_record (Record_new [5] 7 [9]) 1" and ?ms = "MemTables_new 2 (64 * 1024 * 1024)"
  define e where "e = (idle_engine Config_default)\<lparr>en_worker := (worker_init unary_de Config_default)\<lparr>ww_memtables := mts_insert ?r ?ms\<rparr>\<rparr>"
  have m: "ww_memtables (en_worker e) = mts_insert ?r ?ms" by (simp add: e_def)
  have reach: "mts_reach (ww_memtables (en_worker e))" unfolding m by (intro mts_reach.intros) simp
  have nb: "\<not> frozen_backpressure (ww_memtables (en_worker e))" unfolding m
    by (simp add: frozen_backpressure_def MemTables_new_def mts_insert_def)
  have get: "mts_get [5] 7 0 (ww_memtables (en_worker e)) = Some ?r" unfolding m
    by (simp add: mts_get_def mt_get_def from_record_def Record_new_def i64_max_def)
  have fw: "flush_while c f t (en_worker (e\<lparr>en_seq_counter := n\<rparr>)) = Some (en_worker e)" for c f t n
    using nb by (subst flush_while.simps) simp
  have sf: "\<not> should_flush (mts_insert (delete_range_rec [1] [8] n) (mts_insert ?r ?ms))" for n
    by (simp add: should_flush_def MemTables_new_def mts_insert_def mt_insert_def estimated_size_def from_record_def Record_new_def
        delete_range_rec_def)
  obtain e' where e': "delete_range plain_ext 0 [1] [8] e = Some e'" "records (active (ww_memtables (en_worker e'))) \<noteq> []"
    using fw sf [of "en_seq_counter e"]
    by (simp add: delete_range_def do_write_def process_batch_group_def process_batch_inner_def fetch_add_def Let_def m)
  from get_ignores_delete_range [OF e'(1) nb reach e'(2) get] e'(1) get show ?thesis
    by (auto simp: i64_max_def from_record_def)
qed

section \<open>Range deletes and scans\<close>

lemma filter_full_tombs: "set tombs \<subseteq> set (snd (filter_full_block now_us rs tombs))"
proof (induction rs arbitrary: tombs)
  case (Cons r rs)
  have "set tombs \<subseteq> set (snd (filter_full_block now_us rs (tombs @ [p])))" for p using Cons.IH [of "tombs @ [p]"] by simp
  with Cons.IH [of tombs] show ?case by (simp split: option.split)
qed simp

lemma filter_sst_tombs: "set tombs \<subseteq> set (snd (filter_sst_block kf tr fs now_us rs tombs))"
proof (induction rs arbitrary: tombs)
  case (Cons r rs)
  have "set tombs \<subseteq> set (snd (filter_sst_block kf tr fs now_us rs (tombs @ [p])))" for p using Cons.IH [of "tombs @ [p]"] by simp
  with Cons.IH [of tombs] show ?case by (cases fs) (simp_all split: option.split)
qed simp

lemma load_full_tombs: "set tombs \<subseteq> set (snd (load_full decompress readers ssts now_us ms tombs))"
proof (induction ms arbitrary: tombs)
  case (Cons m ms)
  have "set tombs \<subseteq> set (snd (load_full decompress readers ssts now_us ms (snd (filter_full_block now_us rs tombs))))" for rs
    using Cons.IH filter_full_tombs by blast
  with Cons.IH [of tombs] show ?case by (simp add: split_beta Let_def split: sum.split)
qed simp

lemma load_filtered_tombs: "set tombs \<subseteq> set (snd (snd (load_filtered L decompress readers ssts q now_us ms c tombs)))"
proof (induction ms arbitrary: tombs c)
  case (Cons m ms)
  have "set tombs \<subseteq> set (snd (snd (load_filtered L decompress readers ssts q now_us ms c
      (snd (filter_sst_block (key_filter q) (time_range q) False now_us rs tombs)))))" for rs c
    using Cons.IH filter_sst_tombs by blast
  with Cons.IH [of tombs] show ?case by (simp add: split_beta Let_def split: sum.split)
qed simp

lemma scan_tombstones:
  assumes "scan_build L decompress q ms ix c readers ssts now_us = Some (c', it)"
    and "d \<in> set (scan_mem q ms now_us)" "rop d = DeleteRange" "range_end d = Some b"
  shows "(key d, b) \<in> set (sc_tombstones it)"
proof -
  let ?t = "List.map_filter (\<lambda>r. if rop r = DeleteRange then map_option (Pair (key r)) (range_end r) else None) (scan_mem q ms now_us)"
  have "(key d, b) \<in> set ?t" using assms(2-4) by (force simp: List.map_filter_def)
  moreover have "\<exists>cs. sc_tombstones it = (if is_full_scan q then snd (load_full decompress readers ssts now_us cs ?t)
      else snd (snd (load_filtered L decompress readers ssts q now_us cs c ?t)))"
    using assms(1) by (auto simp: scan_build_def Let_def split_beta split: option.splits)
  moreover have "set ?t \<subseteq> set (if is_full_scan q then snd (load_full decompress readers ssts now_us cs ?t)
      else snd (snd (load_filtered L decompress readers ssts q now_us cs c ?t)))" for cs
    using load_full_tombs load_filtered_tombs by (cases "is_full_scan q") simp_all
  ultimately show ?thesis by fastforce
qed

lemma emit_not_tombstoned: "p \<in> set (emit t l rs) \<Longrightarrow> \<exists>r. p = to_record r \<and> \<not> tombstoned_by t r"
  by (induction rs arbitrary: l) (auto split: if_splits)

lemma scan_hides_range:
  assumes "scan_build L decompress q ms ix c readers ssts now_us = Some (c', it)" "length (sc_sources it) \<le> usize_max"
    and "d \<in> set (scan_mem q ms now_us)" "rop d = DeleteRange" "range_end d = Some b" "p \<in> set (scan_collect it)"
  shows "\<not> (key d \<le> pkey p \<and> pkey p < b)"
proof -
  obtain rs where "scan_collect it = emit (sc_tombstones it) None rs" by (rule scan_collect_emit [OF assms(1,2)])
  with emit_not_tombstoned assms(6) obtain r where "p = to_record r" "\<not> tombstoned_by (sc_tombstones it) r" by metis
  with scan_tombstones [OF assms(1,3-5)] show ?thesis by (auto simp: tombstoned_by_def to_record_def)
qed

text \<open>A range delete hides later writes from scans.  As long as a range tombstone is in memory and matches the query, no scan or
  query returns a record of its key range, also when the record was written after the range was deleted (has a higher
  sequence number), although a point lookup returns it.\<close>

theorem query_hides_later_writes:
  assumes "engine_query ext now_us (Query_key_range a b) e = Some (e', out)"
    and "\<forall>e'' it. engine_scan ext now_us (Query_key_range a b) e = Some (e'', it) \<longrightarrow> length (sc_sources it) \<le> usize_max"
    and "delete_range_rec x y s \<in> set (mts_all (ww_memtables (en_worker e)))" "a \<le> x" "x \<le> b" "now_us \<le> i64_max"
    and "mts_get k t now_us (ww_memtables (en_worker e)) = Some r" "rop r = Put" "s < seq r" "x \<le> k" "k < y"
  shows "(\<forall>p\<in>set out. \<not> (x \<le> pkey p \<and> pkey p < y)) \<and> get_bytes ext now_us k t e = (e, Some (to_record r))"
proof -
  let ?q = "Query_key_range a b" and ?ms = "ww_memtables (en_worker e)"
  obtain it where it: "engine_scan ext now_us ?q e = Some (e', it)" "out = scan_collect it"
    using assms(1) by (auto simp: engine_query_def)
  obtain c where b: "scan_build (ev_lru ext) (ev_decompress ext) ?q ?ms (ww_index (en_worker e)) (en_cache e)
          (en_readers e) (ww_ssts (en_worker e)) now_us = Some (c, it)"
    using it(1) by (auto simp: engine_scan_def)
  have "delete_range_rec x y s \<in> set (scan_mem ?q ?ms now_us)"
    using assms(3-6) by (auto simp: scan_mem_def Query_key_range_def mts_query_key_range_def mt_query_key_range_def mts_all_def
        delete_range_rec_def)
  from scan_hides_range [OF b _ this] assms(2) it have "\<forall>p\<in>set out. \<not> (x \<le> pkey p \<and> pkey p < y)"
    by (auto simp: delete_range_rec_def)
  then show ?thesis using assms(7,8) by (simp add: get_bytes_def)
qed

text \<open>An engine with records in memory only.\<close>

definition mem_engine :: "InternalRecord list \<Rightarrow> (nat \<times> (CacheKey \<times> InternalRecord list) list) Engine" where
  "mem_engine rs = (idle_engine Config_default)\<lparr>en_worker := (worker_init unary_de Config_default)
     \<lparr>ww_memtables := fold mts_insert rs (MemTables_new 2 (64 * 1024 * 1024))\<rparr>\<rparr>"

lemma mem_engine_memtables: "ww_memtables (en_worker (mem_engine rs)) = fold mts_insert rs (MemTables_new 2 (64 * 1024 * 1024))"
  by (simp add: mem_engine_def)

lemma mem_engine_scan:
  assumes "time_range q = None"
  shows "\<exists>it. engine_scan plain_ext now_us q (mem_engine rs) = Some (mem_engine rs, it) \<and> length (sc_sources it) \<le> 1"
proof -
  have ix: "ww_index (en_worker (mem_engine rs)) = Index_new 3600" by (simp add: mem_engine_def worker_init_def Config_default_def)
  have "ix_query (Index_new 3600) (key_filter q) None now_us = Some []"
    by (cases "key_filter q") (simp_all add: ix_query_def metas_of_def Index_new_def)
  then show ?thesis
    unfolding engine_scan_def scan_build_def ix assms by (simp add: Let_def split_beta)
qed

theorem query_hides_later_writes_witness:
  "\<exists>out. engine_query plain_ext 0 (Query_key_range [1] [9]) (mem_engine [delete_range_rec [2] [8] 1, from_record (Record_new [5] 7 [6]) 2])
      = Some (mem_engine [delete_range_rec [2] [8] 1, from_record (Record_new [5] 7 [6]) 2], out)
    \<and> (\<forall>p\<in>set out. pkey p \<noteq> [5])"
proof -
  let ?d = "delete_range_rec [2] [8] 1" and ?r = "from_record (Record_new [5] 7 [6]) 2" and ?q = "Query_key_range [1] [9]"
  let ?e = "mem_engine [?d, ?r]"
  have tr: "time_range ?q = None" by (simp add: Query_key_range_def)
  from mem_engine_scan [OF tr, of 0 "[?d, ?r]"] obtain it where
    it: "engine_scan plain_ext 0 ?q ?e = Some (?e, it)" "length (sc_sources it) \<le> 1" by blast
  have mem: "?d \<in> set (mts_all (ww_memtables (en_worker ?e)))"
    by (simp add: mem_engine_memtables mts_insert_def mts_all_def)
  have get: "mts_get [5] 7 0 (ww_memtables (en_worker ?e)) = Some ?r"
    by (simp add: mem_engine_memtables mts_get_def mt_get_def from_record_def Record_new_def i64_max_def MemTables_new_def)
  have "length (sc_sources it) \<le> usize_max" using it(2) by (simp add: usize_max_def)
  then have "\<forall>p\<in>set (scan_collect it). \<not> ([2] \<le> pkey p \<and> pkey p < [8])"
    using query_hides_later_writes [of plain_ext 0 "[1]" "[9]" ?e ?e "scan_collect it" "[2]" "[8]" 1 "[5]" 7 ?r] it(1) mem get
    by (simp add: engine_query_def i64_max_def from_record_def)
  then have "\<forall>p\<in>set (scan_collect it). pkey p \<noteq> [5]" by auto
  with it(1) show ?thesis by (auto simp: engine_query_def)
qed

end
