(* ===== verification/Recovery.thy ===== *)
theory Recovery
  imports Engine_Correct
begin

text \<open>
  The engine across a restart: histories of engine calls on an empty directory (writes, deletes, flushes and reads), the
  invariant that every call keeps, and what \<^verbatim>\<open>Engine::open\<close> finds on the disk such a history leaves behind a crash.
\<close>

section \<open>Reads leave the durable state alone\<close>

definition same_core :: "'l Engine \<Rightarrow> 'l Engine \<Rightarrow> bool" where
  "same_core e e' \<longleftrightarrow> en_worker e' = en_worker e \<and> en_seq_counter e' = en_seq_counter e"

lemma same_core_trans: "same_core a b \<Longrightarrow> same_core b c \<Longrightarrow> same_core a c"
  by (simp add: same_core_def)

lemma get_reader_core: "same_core e (fst (get_reader sid e))"
  by (auto simp: same_core_def get_reader_def split: option.split sum.split)

lemma block_search_core: "same_core e (fst (block_search ext k t now_us sid idx e))"
  using get_reader_core [of e sid]
  by (auto simp: same_core_def block_search_def split: prod.splits sum.splits option.splits)

lemma block_search_latest_core: "same_core e (fst (block_search_latest ext k now_us sid idx e))"
  using get_reader_core [of e sid]
  by (auto simp: same_core_def block_search_latest_def split: prod.splits sum.splits)

lemma point_loop_st_core:
  assumes "\<And>m e. same_core e (fst (f m e))"
  shows "same_core e (fst (point_loop_st ix k now_us f bs e))"
proof (induction bs arbitrary: e)
  case Nil
  then show ?case by (simp add: same_core_def)
next
  case (Cons b bs)
  have "same_core e (fst (point_loop_st ix k now_us f bs (fst (f m e))))" for m
    using same_core_trans [OF assms Cons.IH] .
  then show ?case
    using Cons.IH assms [of e] by (cases b) (auto split: option.splits prod.splits; metis fst_conv)
qed

lemma reads_core:
  "same_core e (fst (get_bytes ext now_us k t e))" "same_core e (fst (get_latest ext now_us k e))"
  "engine_scan ext now_us q e = Some (e', it) \<Longrightarrow> same_core e e'"
proof -
  show "same_core e (fst (get_bytes ext now_us k t e))"
    by (auto simp: get_bytes_def Let_def block_search_core point_loop_st_core split: option.split) (simp_all add: same_core_def)
  show "same_core e (fst (get_latest ext now_us k e))"
    using point_loop_st_core [OF block_search_latest_core] by (simp add: get_latest_def Let_def split_beta)
  show "same_core e e'" if "engine_scan ext now_us q e = Some (e', it)"
    using that by (auto simp: engine_scan_def same_core_def)
qed

section \<open>Histories\<close>

text \<open>The records a call writes fit the log format and the counter does not overflow.\<close>

definition fits :: "InternalRecord set \<Rightarrow> 'l Engine \<Rightarrow> InternalRecord list \<Rightarrow> bool" where
  "fits R e recs \<longleftrightarrow> list_all wal_rec_ok recs \<and> set recs \<subseteq> R \<and> en_seq_counter e + length recs < 2 ^ 64"

text \<open>\<open>C\<close> collects the records of the write calls that returned, \<open>T\<close> is the latest clock value.\<close>

inductive en_reach :: "'l externals \<Rightarrow> nat \<Rightarrow> Config \<Rightarrow> InternalRecord set \<Rightarrow> 'l Engine \<Rightarrow> InternalRecord set \<Rightarrow> int \<Rightarrow> bool"
  for ext stack_size cfg R where
  er_open: "engine_open ext stack_size cfg None = Inr e \<Longrightarrow> en_reach ext stack_size cfg R e {} T"
| er_write: "en_reach ext stack_size cfg R e C T \<Longrightarrow> T \<le> now_us \<Longrightarrow> recs = snd (convert_records batch ttl e) \<Longrightarrow> fits R e recs \<Longrightarrow>
    write_batch_ttl ext now_us batch ttl e = Some e' \<Longrightarrow> en_reach ext stack_size cfg R e' (C \<union> set recs) now_us"
| er_delete: "en_reach ext stack_size cfg R e C T \<Longrightarrow> T \<le> now_us \<Longrightarrow>
    recs = map (\<lambda>(i, k, t). delete_rec k t (en_seq_counter e + i)) (enumerate 0 keys_ts) \<Longrightarrow> fits R e recs \<Longrightarrow>
    delete_batch ext now_us keys_ts e = Some e' \<Longrightarrow> en_reach ext stack_size cfg R e' (C \<union> set recs) now_us"
| er_delete_range: "en_reach ext stack_size cfg R e C T \<Longrightarrow> T \<le> now_us \<Longrightarrow>
    recs = [delete_range_rec k k' (en_seq_counter e)] \<Longrightarrow> fits R e recs \<Longrightarrow>
    delete_range ext now_us k k' e = Some e' \<Longrightarrow> en_reach ext stack_size cfg R e' (C \<union> set recs) now_us"
| er_internal: "en_reach ext stack_size cfg R e C T \<Longrightarrow> T \<le> now_us \<Longrightarrow>
    recs = map (\<lambda>(i, r). r\<lparr>seq := en_seq_counter e + i\<rparr>) (enumerate 0 rs) \<Longrightarrow> fits R e recs \<Longrightarrow>
    write_internal ext now_us rs e = Some e' \<Longrightarrow> en_reach ext stack_size cfg R e' (C \<union> set recs) now_us"
| er_flush: "en_reach ext stack_size cfg R e C T \<Longrightarrow> T \<le> now_us \<Longrightarrow> en_reach ext stack_size cfg R (engine_flush ext now_us e) C now_us"
| er_read: "en_reach ext stack_size cfg R e C T \<Longrightarrow>
    e' = fst (get_bytes ext t k s e) \<or> e' = fst (get_latest ext t k e) \<or> engine_scan ext t q e = Some (e', it) \<Longrightarrow>
    en_reach ext stack_size cfg R e' C T"

section \<open>Every write call is one numbered write\<close>

text \<open>A call writes nothing, or it is \<open>do_write\<close> on records numbered from the counter on, which moves past them.\<close>

definition numbered_write :: "'l externals \<Rightarrow> int \<Rightarrow> InternalRecord list \<Rightarrow> 'l Engine \<Rightarrow> 'l Engine \<Rightarrow> bool" where
  "numbered_write ext now_us recs e e' \<longleftrightarrow>
     recs = [] \<and> e' = e
     \<or> map seq recs = [en_seq_counter e..<en_seq_counter e + length recs]
       \<and> do_write ext now_us recs (e\<lparr>en_seq_counter := en_seq_counter e + length recs\<rparr>) = Some e'"

lemma enumerate_numbered:
  assumes "\<And>i. i < length xs \<Longrightarrow> seq (f (i, xs ! i)) = c + i"
  shows "map seq (map f (enumerate 0 xs)) = [c..<c + length (map f (enumerate 0 xs))]"
  by (rule nth_equalityI) (simp_all add: assms nth_enumerate_eq)

lemma enumerate_cong:
  assumes "\<And>i. i < length xs \<Longrightarrow> f (i, xs ! i) = g (i, xs ! i)"
  shows "map f (enumerate 0 xs) = map g (enumerate 0 xs)"
  by (rule nth_equalityI) (simp_all add: assms nth_enumerate_eq)

lemma write_batch_ttl_numbered:
  assumes "fits R e (snd (convert_records batch ttl e))" "write_batch_ttl ext now_us batch ttl e = Some e'"
  shows "numbered_write ext now_us (snd (convert_records batch ttl e)) e e'"
proof -
  have "map seq (snd (convert_records batch ttl e))
      = [en_seq_counter e..<en_seq_counter e + length (snd (convert_records batch ttl e))]"
    using assms(1) unfolding convert_records_def fetch_add_def Let_def prod.case snd_conv
    by (intro enumerate_numbered) (simp add: fits_def)
  moreover have "do_write ext now_us (snd (convert_records batch ttl e))
      (e\<lparr>en_seq_counter := en_seq_counter e + length (snd (convert_records batch ttl e))\<rparr>) = Some e'" if "batch \<noteq> []"
    using assms that by (simp add: convert_records_def fits_def fetch_add_def write_batch_ttl_def from_record_def Let_def)
  moreover have "snd (convert_records batch ttl e) = [] \<and> e' = e" if "batch = []"
    using assms(2) that by (simp add: convert_records_def fetch_add_def write_batch_ttl_def)
  ultimately show ?thesis unfolding numbered_write_def by blast
qed

lemma delete_batch_numbered:
  assumes "recs = map (\<lambda>(i, k, t). delete_rec k t (en_seq_counter e + i)) (enumerate 0 keys_ts)" "fits R e recs"
    and "delete_batch ext now_us keys_ts e = Some e'"
  shows "numbered_write ext now_us recs e e'"
proof -
  have "recs = map (\<lambda>(i, k, t). delete_rec k t ((en_seq_counter e + i) mod 2 ^ 64)) (enumerate 0 keys_ts)"
    unfolding assms(1) by (rule enumerate_cong) (use assms(1,2) in \<open>auto simp: fits_def split: prod.split\<close>)
  moreover have "map seq recs = [en_seq_counter e..<en_seq_counter e + length recs]"
    unfolding assms(1) by (rule enumerate_numbered) (simp split: prod.split)
  moreover have "length recs = length keys_ts" by (simp add: assms(1))
  ultimately show ?thesis
    using assms(2,3) by (auto simp: numbered_write_def delete_batch_def fits_def fetch_add_def Let_def split: if_splits)
qed

lemma delete_range_numbered:
  assumes "recs = [delete_range_rec k k' (en_seq_counter e)]" "fits R e recs" "delete_range ext now_us k k' e = Some e'"
  shows "numbered_write ext now_us recs e e'"
  using assms by (simp add: numbered_write_def delete_range_def fits_def fetch_add_def delete_range_rec_def)

lemma write_internal_numbered:
  assumes "recs = map (\<lambda>(i, r). r\<lparr>seq := en_seq_counter e + i\<rparr>) (enumerate 0 rs)" "fits R e recs"
    and "write_internal ext now_us rs e = Some e'"
  shows "numbered_write ext now_us recs e e'"
proof -
  have "recs = map (\<lambda>(i, r). r\<lparr>seq := (en_seq_counter e + i) mod 2 ^ 64\<rparr>) (enumerate 0 rs)"
    unfolding assms(1) by (rule enumerate_cong) (use assms(1,2) in \<open>auto simp: fits_def\<close>)
  moreover have "map seq recs = [en_seq_counter e..<en_seq_counter e + length recs]"
    unfolding assms(1) by (rule enumerate_numbered) simp
  moreover have "length recs = length rs" by (simp add: assms(1))
  ultimately show ?thesis
    using assms(2,3) by (auto simp: numbered_write_def write_internal_def fits_def fetch_add_def Let_def split: if_splits)
qed

lemmas numbered = write_batch_ttl_numbered delete_batch_numbered delete_range_numbered write_internal_numbered

section \<open>The invariant\<close>

definition en_inv :: "'l externals \<Rightarrow> Config \<Rightarrow> InternalRecord set \<Rightarrow> 'l Engine \<Rightarrow> InternalRecord set \<Rightarrow> int \<Rightarrow> bool" where
  "en_inv ext cfg R e C T \<longleftrightarrow>
     (\<exists>T0\<le>T. wk_reach (ev_compress ext) (ev_ser ext) (ev_de ext) cfg R (en_worker e) C T0)
     \<and> below (en_seq_counter e) (en_worker e)
     \<and> (wal_sync_mode cfg = Always \<longrightarrow> wal_synced (ww_wal (en_worker e)))"

lemma Wal_open_empty:
  "Wal_open [] mb = \<lparr>dir = [(1, [], 0)], segments = [\<lparr>seg_path = 1, wbuf = [], written_bytes = 0, max_seq = 0\<rparr>],
      max_segment_bytes = mb * 1024 * 1024, next_seq = 1, next_segment_id = 2\<rparr>"
  by (simp add: Wal_open_def load_existing_def roll_segment_def create_new_segment_def Let_def)

lemma replay_empty: "replay_from n (Wal_open [] mb) = (Wal_open [] mb, [])"
  by (simp add: Wal_open_empty replay_from_def wal_flush_def seg_flush_def dir_append_def dir_read_def Let_def)

lemma open_empty:
  assumes "validate cfg = Inr ()" "engine_open ext stack_size cfg None = Inr e"
  shows "en_worker e = worker_init (ev_de ext) cfg" "en_seq_counter e = 1000000"
    "wal_synced (ww_wal (worker_init (ev_de ext) cfg))"
proof -
  show "wal_synced (ww_wal (worker_init (ev_de ext) cfg))" by (simp add: wal_synced_def worker_init_def Wal_open_empty)
  show "en_worker e = worker_init (ev_de ext) cfg" "en_seq_counter e = 1000000"
    using assms
    by (auto simp: engine_open_def worker_init_def Manifest_open_def ManifestState_default_def stale_ssts_def open_index_def
        rebuild_stale_def replay_empty Let_def split: if_splits)
qed

lemma below_mono: "below b w \<Longrightarrow> b \<le> b' \<Longrightarrow> below b' w"
  unfolding below_def by (auto dest: order.strict_trans2)

lemma numbered_write_batch_ok:
  assumes "map seq recs = [c..<c + length recs]" "below c w" "list_all wal_rec_ok recs" "set recs \<subseteq> R"
  shows "batch_ok R w [\<lparr>sub_records = recs, sub_wal_buf = fst (encode_batch recs),
      sub_batch_max_seq = if recs = [] then 0 else seq (last recs), sub_sync_mode = m\<rparr>]"
proof -
  have nth: "seq (recs ! i) = c + i" if "i < length recs" for i
    using arg_cong [OF assms(1), of "\<lambda>xs. xs ! i"] that by simp
  have "c \<le> seq r" "seq r \<le> seq (last recs)" if "r \<in> set recs" for r
  proof -
    from that obtain i where i: "i < length recs" "r = recs ! i" by (auto simp: in_set_conv_nth)
    then have "last recs = recs ! (length recs - 1)" by (intro last_conv_nth) auto
    with i nth show "c \<le> seq r" "seq r \<le> seq (last recs)" by simp_all
  qed
  moreover have "sorted_wrt (<) (map seq recs)" unfolding assms(1) by (rule sorted_wrt_upt)
  ultimately show ?thesis
    using assms(2-4) by (auto simp: batch_ok_def list_all_iff intro: below_mono)
qed

lemma numbered_write_inv:
  assumes "json_ok (ev_ser ext) (ev_de ext)" "lz4_ok (ev_compress ext) (ev_decompress ext)" "validate cfg = Inr ()"
    and "flushable (ev_compress ext) (block_size cfg) R"
    and "en_inv ext cfg R e C T" "T \<le> now_us" "fits R e recs" "numbered_write ext now_us recs e e'"
  shows "en_inv ext cfg R e' (C \<union> set recs) now_us"
proof -
  let ?w = "en_worker e" and ?c = "en_seq_counter e"
  obtain T0 where T0: "T0 \<le> T" and reach: "wk_reach (ev_compress ext) (ev_ser ext) (ev_de ext) cfg R ?w C T0"
    using assms(5) by (auto simp: en_inv_def)
  have b: "below ?c ?w" and sy: "wal_sync_mode cfg = Always \<longrightarrow> wal_synced (ww_wal ?w)" and T: "T0 \<le> now_us"
    using assms(5,6) T0 by (simp_all add: en_inv_def)
  note inv = wk_reach_inv [OF assms(1-4) reach]
  have mf: "0 < max_frozen (ww_memtables ?w)" and fl: "flushable (ev_compress ext) (block_size (ww_config ?w)) R"
    using inv assms(4) by simp_all
  show ?thesis
  proof (cases "recs = [] \<and> e' = e")
    case True
    then show ?thesis using reach T b sy by (auto simp: en_inv_def)
  next
    case False
    let ?s = "\<lparr>sub_records = recs, sub_wal_buf = fst (encode_batch recs), sub_batch_max_seq = if recs = [] then 0 else seq (last recs),
                 sub_sync_mode = wal_sync_mode cfg\<rparr>"
    have n: "map seq recs = [?c..<?c + length recs]"
      and d: "do_write ext now_us recs (e\<lparr>en_seq_counter := ?c + length recs\<rparr>) = Some e'"
      using False assms(8) by (auto simp: numbered_write_def)
    have ok: "batch_ok R ?w [?s]"
      using numbered_write_batch_ok [OF n b, of R "wal_sync_mode cfg"] assms(7) by (simp add: fits_def)
    from d inv have p: "process_batch_group (ev_compress ext) (ev_ser ext) now_us [?s] ?w = Some (en_worker e')"
      and c: "en_seq_counter e' = ?c + length recs" by (auto simp: do_write_def Let_def)
    have "seq r \<in> set (map seq recs)" if "r \<in> set recs" for r using that by simp
    then have "\<forall>r\<in>set (concat (map sub_records [?s])). seq r < ?c + length recs" unfolding n by simp
    moreover have "below (?c + length recs) ?w" using b by (rule below_mono) simp
    ultimately have "below (en_seq_counter e') (en_worker e')"
      unfolding c by (intro group_below [OF conjunct1 [OF inv] mf assms(2) fl T ok p])
    moreover have "wk_reach (ev_compress ext) (ev_ser ext) (ev_de ext) cfg R (en_worker e') (C \<union> set recs) now_us"
      using wk_commit [OF reach ok T p] by simp
    moreover have "wal_synced (ww_wal (en_worker e'))" if "wal_sync_mode cfg = Always"
      using group_step [OF conjunct1 [OF inv] mf assms(2) fl T ok, of "ev_ser ext"] p that by simp
    ultimately show ?thesis by (auto simp: en_inv_def)
  qed
qed

lemma en_reach_inv:
  assumes "json_ok (ev_ser ext) (ev_de ext)" "lz4_ok (ev_compress ext) (ev_decompress ext)" "validate cfg = Inr ()"
    and "flushable (ev_compress ext) (block_size cfg) R" and "en_reach ext stack_size cfg R e C T"
  shows "en_inv ext cfg R e C T"
  using assms(5)
proof (induction rule: en_reach.induct)
  case (er_open e T)
  note o = open_empty [OF assms(3) er_open]
  have "below 1000000 (worker_init (ev_de ext) cfg)"
    by (simp add: below_def worker_init_def Manifest_open_def ManifestState_default_def)
  then show ?case unfolding en_inv_def o using o(3) wk_init by blast
next
  case (er_flush e C T now_us)
  then obtain T0 where T0: "T0 \<le> now_us" and r: "wk_reach (ev_compress ext) (ev_ser ext) (ev_de ext) cfg R (en_worker e) C T0"
    and b: "below (en_seq_counter e) (en_worker e)" and s: "wal_sync_mode cfg = Always \<longrightarrow> wal_synced (ww_wal (en_worker e))"
    unfolding en_inv_def by (meson order_trans)
  have "wk_inv R T0 (en_worker e)" using wk_reach_inv [OF assms(1-4) r] by blast
  then show ?case
    using wk_flush [OF r T0] do_flush_below [OF _ b] do_flush_synced s by (auto simp: en_inv_def engine_flush_def)
next
  case (er_read e C T e' t k s q it)
  then have "same_core e e'" using reads_core by blast
  then show ?case using er_read.IH by (simp add: en_inv_def same_core_def)
qed (blast intro: numbered_write_inv [OF assms(1-4)] numbered)+

section \<open>Reopening\<close>

text \<open>Rebuilding stale filters keeps the flushed sequence number and the set of tables.\<close>

lemma rebuild_stale_manifest:
  "last_flushed_seq (mstate (fst (rebuild_stale ext ssts b ids s))) = last_flushed_seq (mstate (fst s))
   \<and> dom (map_of (sstables (mstate (fst (rebuild_stale ext ssts b ids s))))) = dom (map_of (sstables (mstate (fst s))))"
proof (induction ids arbitrary: s)
  case Nil
  then show ?case by (simp add: rebuild_stale_def)
next
  case (Cons i ids)
  obtain mf ix where s: "s = (mf, ix)" by fastforce
  let ?s = "case rebuild_bloom_for_sst ext ssts i b (mf, ix) of Inr s \<Rightarrow> s | Inl _ \<Rightarrow> (mf, remove_bloom i ix)"
  have "last_flushed_seq (mstate (fst ?s)) = last_flushed_seq (mstate mf)
     \<and> dom (map_of (sstables (mstate (fst ?s)))) = dom (map_of (sstables (mstate mf)))"
    by (auto simp: rebuild_bloom_for_sst_def manifest_append_def Let_def update_conv' split: option.splits sum.splits if_splits)
  moreover have "rebuild_stale ext ssts b (i # ids) s = rebuild_stale ext ssts b ids ?s" by (simp add: rebuild_stale_def s)
  ultimately show ?case using Cons.IH [of ?s] by (simp only: s fst_conv)
qed

lemma engine_open_disk:
  assumes "validate cfg = Inr ()"
  obtains e where "engine_open ext stack_size cfg (Some d) = Inr e"
    "ww_memtables (en_worker e) = fold mts_insert (snd (replay_from (last_flushed_seq (mstate (Manifest_open (ev_de ext) (d_manifest d))))
         (Wal_open (d_wal d) (wal_segment_size_mb cfg)))) (MemTables_new (max_frozen_memtables cfg) (memtable_size_mb cfg * 1024 * 1024))"
    "ww_ssts (en_worker e) = d_ssts d"
    "dom (map_of (sstables (mstate (ww_manifest (en_worker e))))) = dom (map_of (sstables (mstate (Manifest_open (ev_de ext) (d_manifest d)))))"
proof -
  let ?mf = "Manifest_open (ev_de ext) (d_manifest d)"
  let ?s = "rebuild_stale ext (d_ssts d) (bloom_bits_per_key cfg) (stale_ssts (mstate ?mf)) (?mf, open_index cfg (mstate ?mf))"
  have "\<exists>e. engine_open ext stack_size cfg (Some d) = Inr e" by (simp add: engine_open_def assms Let_def split_beta)
  then obtain e where e: "engine_open ext stack_size cfg (Some d) = Inr e" ..
  note r = rebuild_stale_manifest [of ext "d_ssts d" "bloom_bits_per_key cfg" "stale_ssts (mstate ?mf)" "(?mf, open_index cfg (mstate ?mf))"]
  show thesis
    by (rule that [OF e]) (use e r in \<open>clarsimp simp: engine_open_def assms Let_def split_beta\<close>)+
qed

text \<open>The disk a crash leaves of an engine, and where an engine can find a record.\<close>

definition disk_after :: "'l Engine \<Rightarrow> wal_dir \<Rightarrow> disk" where
  "disk_after e d' = \<lparr>d_wal = d', d_manifest = mfile (ww_manifest (en_worker e)), d_ssts = ww_ssts (en_worker e)\<rparr>"

definition held :: "'l externals \<Rightarrow> 'l Engine \<Rightarrow> InternalRecord \<Rightarrow> bool" where
  "held ext e r \<longleftrightarrow>
     r \<in> set (mts_all (ww_memtables (en_worker e)))
     \<or> (\<exists>sid file. map_of (sstables (mstate (ww_manifest (en_worker e)))) sid \<noteq> None \<and> ww_ssts (en_worker e) sid = Some file
          \<and> sst_holds (ev_decompress ext) sid file (forget_seq r))"

lemma reopen_held:
  assumes "validate cfg = Inr ()" "wal_ok (ww_wal (en_worker e))" "wal_synced (ww_wal (en_worker e))"
    and "crash_image (dir (ww_wal (en_worker e))) d'" "m_inv (ev_de ext) (ww_manifest (en_worker e))"
  obtains e' where "engine_open ext stack_size cfg (Some (disk_after e d')) = Inr e'"
    "\<forall>r. held ext e' r \<longleftrightarrow> stored (ev_decompress ext) (en_worker e) r"
    "set (mts_all (ww_memtables (en_worker e'))) = {r \<in> set (log_of (ww_wal (en_worker e))). flushed_seq (en_worker e) < seq r}"
proof -
  let ?w = "en_worker e" and ?mb = "wal_segment_size_mb cfg"
  let ?st = "mstate (Manifest_open (ev_de ext) (mfile (ww_manifest ?w)))"
  obtain e' where e': "engine_open ext stack_size cfg (Some (disk_after e d')) = Inr e'"
    "ww_memtables (en_worker e') = fold mts_insert (snd (replay_from (last_flushed_seq ?st) (Wal_open d' ?mb)))
         (MemTables_new (max_frozen_memtables cfg) (memtable_size_mb cfg * 1024 * 1024))"
    "ww_ssts (en_worker e') = ww_ssts ?w" "dom (map_of (sstables (mstate (ww_manifest (en_worker e'))))) = dom (map_of (sstables ?st))"
    by (rule engine_open_disk [OF assms(1), of ext stack_size "disk_after e d'"]) (simp add: disk_after_def)
  have mem: "set (mts_all (ww_memtables (en_worker e'))) = {r \<in> set (log_of (ww_wal ?w)). flushed_seq ?w < seq r}"
    using wal_synced_reopen [OF assms(2-4), of ?mb] replay_from_spec [of "Wal_open d' ?mb"] assms(5)
    by (auto simp: e'(2) mts_all_inserts m_inv_def st_eq_def)
  have doms: "map_of (sstables (mstate (ww_manifest (en_worker e')))) sid \<noteq> None \<longleftrightarrow> map_of (sstables (mstate (ww_manifest ?w))) sid \<noteq> None" for sid
    using arg_cong [OF e'(4), of "\<lambda>A. sid \<in> A"] assms(5) by (auto simp: m_inv_def st_eq_def dom_def)
  have "held ext e' r \<longleftrightarrow> stored (ev_decompress ext) ?w r" for r
    unfolding held_def stored_def mem doms e'(3) by blast
  with e'(1) mem that show thesis by blast
qed


lemma do_write_returns: "0 < max_frozen (ww_memtables (en_worker e)) \<Longrightarrow> \<exists>e'. do_write ext now_us recs e = Some e'"
  using flush_while_terminates [of "en_worker e" "ev_compress ext" "ev_ser ext" now_us]
  by (auto simp: do_write_def process_batch_group_def Let_def)


section \<open>Sequence numbers after a restart\<close>

lemma rebuild_stale_inv:
  assumes "json_ok (ev_ser ext) de" "m_inv de (fst s)"
  shows "m_inv de (fst (rebuild_stale ext ssts b ids s))"
  using assms(2)
proof (induction ids arbitrary: s)
  case Nil
  then show ?case by (simp add: rebuild_stale_def)
next
  case (Cons i ids)
  obtain mf ix where s: "s = (mf, ix)" by fastforce
  let ?s = "case rebuild_bloom_for_sst ext ssts i b (mf, ix) of Inr s \<Rightarrow> s | Inl _ \<Rightarrow> (mf, remove_bloom i ix)"
  have "m_inv de (fst ?s)"
    using Cons.prems m_inv_append [OF assms(1), of mf]
    by (auto simp: s rebuild_bloom_for_sst_def Let_def split: option.splits sum.splits)
  moreover have "rebuild_stale ext ssts b (i # ids) s = rebuild_stale ext ssts b ids ?s" by (simp add: rebuild_stale_def s)
  ultimately show ?case using Cons.IH [of ?s] by (simp only:)
qed

lemma engine_open_ok:
  assumes "json_ok (ev_ser ext) (ev_de ext)" "engine_open ext stack_size cfg (Some d) = Inr e" "dir_clean (d_wal d)"
    and "m_inv (ev_de ext) (Manifest_open (ev_de ext) (d_manifest d))"
  shows "validate cfg = Inr ()" "wal_ok (ww_wal (en_worker e))" "m_inv (ev_de ext) (ww_manifest (en_worker e))"
    "\<not> frozen_backpressure (ww_memtables (en_worker e))" "en_config e = cfg"
proof -
  let ?mf = "Manifest_open (ev_de ext) (d_manifest d)"
  show v: "validate cfg = Inr ()" using assms(2) by (auto simp: engine_open_def split: sum.splits)
  let ?s = "rebuild_stale ext (d_ssts d) (bloom_bits_per_key cfg) (stale_ssts (mstate ?mf)) (?mf, open_index cfg (mstate ?mf))"
  have m: "m_inv (ev_de ext) (fst ?s)" by (rule rebuild_stale_inv [OF assms(1)]) (use assms(4) in simp)
  have w: "wal_ok (fst (replay_from n (Wal_open (d_wal d) mb)))" for n mb
    using replay_from_spec Wal_open_clean [OF assms(3)] by blast
  have f: "frozen (fold mts_insert rs ms) = frozen ms" for rs ms
    by (induction rs arbitrary: ms) (simp_all add: mts_insert_def)
  show "wal_ok (ww_wal (en_worker e))" "m_inv (ev_de ext) (ww_manifest (en_worker e))"
    "\<not> frozen_backpressure (ww_memtables (en_worker e))" "en_config e = cfg"
    using assms(2) v m w validate_okD(2) [OF v]
    by (auto simp: engine_open_def Let_def split_beta frozen_backpressure_def inserts_fields f MemTables_new_def)
qed

text \<open>C38. A restart can start the counter too low.  \<^verbatim>\<open>Engine::open\<close> restarts it from the greatest table id, not
  from the flushed sequence number.  Where that lies at or below the flushed sequence number (a table got more than a million
  records), a synchronous write after the restart is acknowledged and readable, but when the engine crashes and is opened
  once more the record is gone (unless some table happens to hold the same version).\<close>

theorem reopened_write_lost:
  assumes "json_ok (ev_ser ext) (ev_de ext)" "engine_open ext stack_size cfg (Some d) = Inr e" "dir_clean (d_wal d)"
    and "m_inv (ev_de ext) (Manifest_open (ev_de ext) (d_manifest d))"
    and "en_seq_counter e \<le> flushed_seq (en_worker e)" "en_seq_counter e < 2 ^ 64"
    and "wal_sync_mode cfg = Always" "default_ttl_secs cfg = None"
    and "r = from_record b (en_seq_counter e)" "wal_rec_ok r" "\<not> should_flush (mts_insert r (ww_memtables (en_worker e)))"
    and "\<forall>sid file. d_ssts d sid = Some file \<longrightarrow> \<not> sst_holds (ev_decompress ext) sid file (forget_seq r)"
  shows "\<exists>e2. write_batch ext now_us [b] e = Some e2 \<and> r \<in> set (mts_all (ww_memtables (en_worker e2)))
    \<and> (\<forall>d'. crash_image (dir (ww_wal (en_worker e2))) d' \<longrightarrow>
         (\<exists>e3. engine_open ext stack_size cfg (Some (disk_after e2 d')) = Inr e3 \<and> \<not> held ext e3 r))"
proof -
  let ?w = "en_worker e"
  let ?s = "\<lparr>sub_records = [r], sub_wal_buf = fst (encode_batch [r]), sub_batch_max_seq = seq r, sub_sync_mode = Always\<rparr>"
  note o = engine_open_ok [OF assms(1-4)]
  have ssts: "ww_ssts ?w = d_ssts d" using assms(2) o(1) by (auto simp: engine_open_def Let_def split_beta)
  obtain w' where w': "process_batch_group (ev_compress ext) (ev_ser ext) now_us [?s] ?w = Some w'" "r \<in> set (mts_all (ww_memtables w'))"
    "wal_ok (ww_wal w')" "wal_synced (ww_wal w')" "m_inv (ev_de ext) (ww_manifest w')" "\<not> stored (ev_decompress ext) w' r"
    by (rule late_commit [OF o(2-4), of ?s r "ev_decompress ext"]) (use assms ssts in simp_all)
  define e2 where "e2 = e\<lparr>en_seq_counter := (en_seq_counter e + 1) mod 2 ^ 64, en_worker := w'\<rparr>"
  have "write_batch ext now_us [b] e = Some e2"
    using w'(1) assms(6-9) o(5)
    by (simp add: write_batch_def write_batch_ttl_def do_write_def fetch_add_def Let_def e2_def from_record_def)
  moreover have "\<exists>e3. engine_open ext stack_size cfg (Some (disk_after e2 d')) = Inr e3 \<and> \<not> held ext e3 r"
    if "crash_image (dir (ww_wal (en_worker e2))) d'" for d'
    by (rule reopen_held [OF o(1), of e2 d' ext stack_size]) (use that w' in \<open>auto simp: e2_def\<close>)
  ultimately show ?thesis using w'(2) by (auto simp: e2_def)
qed

text \<open>One table, flushed at sequence number two million.\<close>

definition big_flush :: Manifest where
  "big_flush = manifest_append unary_ser (Flush 2000000 (flush_info 1 [] 0 (mark_current (with_bits_per_key 1 10))) [])
     (Manifest_open unary_de None)"

lemma big_flush_state:
  "mstate (Manifest_open unary_de (mfile big_flush)) = mstate big_flush"
  "m_inv unary_de (Manifest_open unary_de (mfile big_flush))"
proof -
  show e: "mstate (Manifest_open unary_de (mfile big_flush)) = mstate big_flush"
    using manifest_reopen_append [OF json_ok_unary, of "Manifest_open unary_de None"]
    by (simp add: big_flush_def manifest_append_def Manifest_open_def)
  have "m_reach unary_ser unary_de big_flush" unfolding big_flush_def by (intro m_reach.intros) simp
  then have "m_inv unary_de big_flush" by (rule m_reach_inv [OF json_ok_unary])
  moreover have "mfile (Manifest_open unary_de c) = c" for c by (simp add: Manifest_open_def)
  ultimately show "m_inv unary_de (Manifest_open unary_de (mfile big_flush))" using e by (simp add: m_inv_def)
qed

theorem reopened_write_lost_witness:
  "\<exists>e e2. engine_open plain_ext 120 Config_default (Some \<lparr>d_wal = [], d_manifest = mfile big_flush, d_ssts = Map.empty\<rparr>) = Inr e
    \<and> write_batch plain_ext 0 [Record_new [1] 5 [7]] e = Some e2
    \<and> (\<exists>e3. engine_open plain_ext 120 Config_default (Some (disk_after e2 (dir (ww_wal (en_worker e2))))) = Inr e3
         \<and> \<not> held plain_ext e3 (from_record (Record_new [1] 5 [7]) 2000000))"
proof -
  let ?d = "\<lparr>d_wal = [], d_manifest = mfile big_flush, d_ssts = Map.empty\<rparr>" and ?r = "from_record (Record_new [1] 5 [7]) 2000000"
  have st: "mstate big_flush = \<lparr>last_flushed_seq = 2000000, sstables = [(1, flush_info 1 [] 0 (mark_current (with_bits_per_key 1 10)))],
      block_infos = [(1, [])], active_sst_ids = [1]\<rparr>"
    by (simp add: big_flush_def manifest_append_def Manifest_open_def ManifestState_default_def add_sst_def set_blocks_def activate_def flush_info_def)
  have stale: "stale_ssts (mstate big_flush) = []"
    by (simp add: stale_ssts_def st flush_info_def mark_current_def)
  note ok = one_delete_ok(1)
  have mo: "Manifest_open (ev_de plain_ext) (mfile big_flush) = Manifest_open unary_de (mfile big_flush)" by (simp add: plain_ext_def)
  have "\<exists>e. engine_open plain_ext 120 Config_default (Some ?d) = Inr e \<and> ww_memtables (en_worker e) = MemTables_new 2 (64 * 1024 * 1024)
      \<and> en_seq_counter e = 2000000 \<and> flushed_seq (en_worker e) = 2000000"
    unfolding engine_open_def ok
    by (simp add: mo big_flush_state(1) stale rebuild_stale_def replay_empty Let_def) (simp add: st Config_default_def)
  then obtain e where e: "engine_open plain_ext 120 Config_default (Some ?d) = Inr e"
    "ww_memtables (en_worker e) = MemTables_new 2 (64 * 1024 * 1024)" "en_seq_counter e = 2000000" "flushed_seq (en_worker e) = 2000000"
    by blast
  have ext: "json_ok (ev_ser plain_ext) (ev_de plain_ext)" using json_ok_unary by (simp add: plain_ext_def)
  obtain e2 where "write_batch plain_ext 0 [Record_new [1] 5 [7]] e = Some e2"
    "\<forall>d'. crash_image (dir (ww_wal (en_worker e2))) d' \<longrightarrow>
         (\<exists>e3. engine_open plain_ext 120 Config_default (Some (disk_after e2 d')) = Inr e3 \<and> \<not> held plain_ext e3 ?r)"
    using reopened_write_lost [OF ext e(1), of ?r "Record_new [1] 5 [7]" 0] e big_flush_state(2)
    by (auto simp: dir_clean_def bt_ok_def plain_ext_def Config_default_def should_flush_def mts_insert_def mt_insert_def MemTables_new_def
        estimated_size_def from_record_def Record_new_def wal_rec_ok_def i64_def i64_min_def i64_max_def)
  with e(1) crash_image_refl show ?thesis by blast
qed

end
