(* ===== verification/Lookup.thy ===== *)
theory Lookup
  imports Recovery
begin

text \<open>
  Point lookups across flushes: what \<^verbatim>\<open>Engine::get_bytes\<close> answers once records have left memory for tables.  The chain
  goes from the binary search in a block, over the choice of a block in a table and the Bloom filter, to the loop over the
  tables, reading through the block cache; the histories are those of \<open>Recovery\<close>.
\<close>

section \<open>Searching one block\<close>

text \<open>The answer of a table with the records \<open>rs\<close>: the last record of the version in the order of the table, which
  sorts the greatest sequence number first.\<close>

definition table_get :: "int \<Rightarrow> bytes \<Rightarrow> int \<Rightarrow> InternalRecord list \<Rightarrow> Record option" where
  "table_get now_us k t rs =
     (case rev (filter (\<lambda>r. version r = (k, t)) rs) of
        [] \<Rightarrow> None
      | r # _ \<Rightarrow> if now_us < expire_at r \<and> rop r \<noteq> Delete
                then Some \<lparr>pkey = k, pts = ts r, pexpire_at = expire_at r, pval = val r\<rparr> else None)"

lemma filter_rev_last:
  assumes "i < length xs" "P (xs ! i)" "\<And>j. i < j \<Longrightarrow> j < length xs \<Longrightarrow> \<not> P (xs ! j)"
  shows "\<exists>ys. rev (filter P xs) = xs ! i # ys"
proof -
  have "filter P (drop (Suc i) xs) = []" using assms(3) by (auto simp: filter_empty_conv in_set_conv_nth)
  then show ?thesis using assms(2) by (subst id_take_nth_drop [OF assms(1)]) simp
qed

lemma find_in_records_eq:
  assumes "sorted (map version rs)"
  shows "find_in_records rs k t now_us = table_get now_us k t rs"
proof -
  let ?cmp = "\<lambda>r. cmp_of (key r, ts r) (k, t)"
  have le: "version (rs ! i) \<le> version (rs ! j)" if "i \<le> j" "j < length rs" for i j
    using sorted_nth_mono [OF assms, of i j] that by simp
  have z: "?cmp r = 0 \<longleftrightarrow> version r = (k, t)" for r by (simp add: cmp_of_def version_def)
  have mono: "?cmp (rs ! i) \<le> 0" if "i \<le> j" "j < length rs" "?cmp (rs ! j) \<le> 0" for i j
    using le [OF that(1,2)] that(3) unfolding cmp_of_def version_def by (auto split: if_splits)
  have mono0: "0 \<le> ?cmp (rs ! j)" if "i \<le> j" "j < length rs" "0 \<le> ?cmp (rs ! i)" for i j
    using le [OF that(1,2)] that(3) unfolding cmp_of_def version_def by (auto split: if_splits)
  show ?thesis
  proof (cases "binary_search_by ?cmp rs")
    case None
    have "\<not> version r = (k, t)" if "r \<in> set rs" for r
    proof
      assume v: "version r = (k, t)"
      from that obtain i where i: "i < length rs" "rs ! i = r" by (auto simp: in_set_conv_nth)
      from binary_search_by_complete [of rs ?cmp, OF mono mono0 i(1)] v i(2) None show False by (simp add: z)
    qed
    then have "filter (\<lambda>r. version r = (k, t)) rs = []" by (simp add: filter_empty_conv)
    with None show ?thesis by (simp add: find_in_records_def table_get_def)
  next
    case (Some i)
    from binary_search_by_last [of rs ?cmp, OF mono this]
    have "i < length rs" "version (rs ! i) = (k, t)" "\<forall>j>i. j < length rs \<longrightarrow> version (rs ! j) \<noteq> (k, t)" by (simp_all add: z)
    with filter_rev_last [of i rs "\<lambda>r. version r = (k, t)"] obtain ys where
      "rev (filter (\<lambda>r. version r = (k, t)) rs) = rs ! i # ys" by blast
    with Some show ?thesis by (simp add: find_in_records_def table_get_def Let_def)
  qed
qed

lemma table_get_forget [simp]: "table_get now_us k t (map forget_seq rs) = table_get now_us k t rs"
  by (simp add: table_get_def filter_map comp_def version_def forget_seq_def rev_map split: list.split)

lemma version_forget [simp]: "version (forget_seq r) = version r"
  by (simp add: version_def forget_seq_def)

lemma table_get_absent: "k \<notin> key ` set rs \<Longrightarrow> table_get now_us k t rs = None"
proof -
  assume "k \<notin> key ` set rs"
  then have "filter (\<lambda>r. version r = (k, t)) rs = []" by (auto simp: filter_empty_conv version_def)
  then show ?thesis by (simp add: table_get_def)
qed

lemma table_get_expired:
  assumes "\<forall>r\<in>set rs. expire_at r \<le> now_us"
  shows "table_get now_us k t rs = None"
proof (cases "rev (filter (\<lambda>r. version r = (k, t)) rs)")
  case (Cons r ys)
  have "set (r # ys) \<subseteq> set rs" unfolding Cons [symmetric] by auto
  then have "r \<in> set rs" by simp
  then show ?thesis using assms Cons by (simp add: table_get_def not_less)
qed (simp add: table_get_def)

section \<open>Searching one table\<close>

definition table_metas :: "nat \<Rightarrow> nat \<Rightarrow> InternalRecord list \<Rightarrow> BlockMeta list" where
  "table_metas sid bs rs = map (\<lambda>(i, c). from_block_info sid (block_info i c)) (enumerate 0 (chunks (max bs 1) rs))"

definition one_block :: "nat \<Rightarrow> bytes \<Rightarrow> InternalRecord list \<Rightarrow> bool" where
  "one_block bs k rs \<longleftrightarrow> (let cs = chunks (max bs 1) rs in
     \<forall>i<length cs. \<forall>j<length cs. k \<in> key ` set (cs ! i) \<longrightarrow> k \<in> key ` set (cs ! j) \<longrightarrow> i = j)"

lemma sorted_chunks:
  assumes "sorted (map f (concat cs))" "i < j" "j < length cs" "x \<in> set (cs ! i)" "y \<in> set (cs ! j)"
  shows "f x \<le> f y"
proof -
  have "concat cs = concat (take j cs) @ cs ! j @ concat (drop (Suc j) cs)"
    using id_take_nth_drop [OF assms(3)] by (metis concat.simps(2) concat_append)
  moreover have "cs ! i \<in> set (take j cs)" using nth_mem [of i "take j cs"] assms(2,3) by simp
  then have "x \<in> set (concat (take j cs))" using assms(4) by auto
  ultimately show ?thesis using assms(1,5) by (auto simp: sorted_append)
qed

lemma set_nth_concat: "i < length cs \<Longrightarrow> set (cs ! i) \<subseteq> set (concat cs)"
  unfolding set_concat by (meson UN_upper nth_mem)

lemma sorted_chunk: "sorted (map f (concat cs)) \<Longrightarrow> c \<in> set cs \<Longrightarrow> sorted (map f c)"
  by (induction cs) (auto simp: sorted_append)

lemma table_metas_nth:
  "i < length (chunks (max bs 1) rs) \<Longrightarrow> table_metas sid bs rs ! i = from_block_info sid (block_info i (chunks (max bs 1) rs ! i))"
  by (simp add: table_metas_def nth_enumerate_eq)

lemma table_metas_keys:
  assumes "i < length (chunks (max bs 1) rs)"
  shows "bm_min_key (table_metas sid bs rs ! i) = key (hd (chunks (max bs 1) rs ! i))"
    "bm_max_key (table_metas sid bs rs ! i) = key (last (chunks (max bs 1) rs ! i))"
  using chunks_nonempty [OF nth_mem [OF assms]]
  by (simp_all add: table_metas_nth assms from_block_info_def block_info_def del: One_nat_def split: list.split)

lemma table_blocks_sorted:
  assumes "sorted (map key rs)"
  shows "blocks_sorted (table_metas sid bs rs)"
proof -
  let ?cs = "chunks (max bs 1) rs"
  have s: "sorted (map key (concat ?cs))" using assms by simp
  have ne: "?cs ! i \<noteq> []" if "i < length ?cs" for i using chunks_nonempty [OF nth_mem [OF that]] .
  have len: "length (table_metas sid bs rs) = length ?cs" by (simp add: table_metas_def)
  have "bm_min_key (table_metas sid bs rs ! i) \<le> bm_max_key (table_metas sid bs rs ! i)" if "i < length ?cs" for i
    unfolding table_metas_keys [OF that] using sorted_first_last(1) [OF sorted_chunk [OF s nth_mem [OF that]], of "last (?cs ! i)"] ne [OF that]
    by simp
  moreover have "bm_max_key (table_metas sid bs rs ! i) \<le> bm_min_key (table_metas sid bs rs ! j)" if "i < j" "j < length ?cs" for i j
    using that sorted_chunks [OF s that, of "last (?cs ! i)" "hd (?cs ! j)"] ne [of i] ne [of j] by (simp add: table_metas_keys del: One_nat_def)
  ultimately show ?thesis unfolding blocks_sorted_def sorted_wrt_iff_nth_less len by (metis in_set_conv_nth len)
qed

lemma covers_chunk:
  assumes "sorted (map key rs)" "i < length (chunks (max bs 1) rs)" "r \<in> set (chunks (max bs 1) rs ! i)"
  shows "covers_key (key r) (table_metas sid bs rs ! i)"
proof -
  let ?cs = "chunks (max bs 1) rs"
  have "sorted (map key (?cs ! i))" by (rule sorted_chunk [OF _ nth_mem [OF assms(2)]]) (use assms(1) in simp)
  from sorted_first_last [OF this assms(3)] show ?thesis unfolding covers_key_def table_metas_keys [OF assms(2)] by simp
qed

lemma covered_elsewhere:
  assumes "sorted (map key rs)" "one_block bs k rs" "i < length (chunks (max bs 1) rs)" "covers_key k (table_metas sid bs rs ! i)"
    and "j < length (chunks (max bs 1) rs)" "k \<in> key ` set (chunks (max bs 1) rs ! j)"
  shows "j = i"
proof (rule ccontr)
  let ?cs = "chunks (max bs 1) rs"
  assume ne: "j \<noteq> i"
  have s: "sorted (map key (concat ?cs))" using assms(1) by simp
  have n: "?cs ! i \<noteq> []" using chunks_nonempty [OF nth_mem [OF assms(3)]] .
  obtain r where r: "r \<in> set (?cs ! j)" "key r = k" using assms(6) by auto
  have c: "key (hd (?cs ! i)) \<le> k" "k \<le> key (last (?cs ! i))" using assms(4) unfolding covers_key_def table_metas_keys [OF assms(3)] by simp_all
  have "\<exists>x\<in>set (?cs ! i). key x = k"
  proof (cases "j < i")
    case True
    then have "k \<le> key (hd (?cs ! i))" using sorted_chunks [OF s True assms(3) r(1), of "hd (?cs ! i)"] n r(2) by simp
    then show ?thesis using c n by (intro bexI [of _ "hd (?cs ! i)"]) auto
  next
    case False
    then have "i < j" using ne by simp
    then have "key (last (?cs ! i)) \<le> k" using sorted_chunks [OF s _ assms(5) _ r(1), of i "last (?cs ! i)"] n r(2) by simp
    then show ?thesis using c n by (intro bexI [of _ "last (?cs ! i)"]) auto
  qed
  then have "k \<in> key ` set (?cs ! i)" by auto
  with assms(2,3,5,6) ne show False by (auto simp: one_block_def Let_def)
qed

lemma filter_concat_nth:
  assumes "i < length cs" "\<And>j. j < length cs \<Longrightarrow> j \<noteq> i \<Longrightarrow> filter P (cs ! j) = []"
  shows "filter P (concat cs) = filter P (cs ! i)"
proof -
  have "filter P (take i cs ! j) = []" if "j < i" for j using assms(2) [of j] that assms(1) by simp
  moreover have "filter P (drop (Suc i) cs ! j) = []" if "j < length cs - Suc i" for j
    using assms(2) [of "Suc i + j"] that assms(1) by simp
  ultimately have "\<forall>c\<in>set (take i cs) \<union> set (drop (Suc i) cs). filter P c = []"
    using assms(1) by (auto simp: in_set_conv_nth simp del: drop_Suc)
  then have "filter P (concat (take i cs)) = []" "filter P (concat (drop (Suc i) cs)) = []"
    by (auto simp: filter_concat)
  then show ?thesis by (subst id_take_nth_drop [OF assms(1)]) simp
qed

text \<open>A table answers from the one block its search picks as it would from all its records.\<close>

lemma table_lookup:
  assumes "sorted (map version rs)" "one_block bs k rs"
  shows "(case binary_search_block (table_metas sid bs rs) k of None \<Rightarrow> None
     | Some m \<Rightarrow> if is_expired now_us m then None else table_get now_us k t (chunks (max bs 1) rs ! bm_block_idx m))
    = table_get now_us k t rs"
proof -
  let ?cs = "chunks (max bs 1) rs" and ?ms = "table_metas sid bs rs"
  have key: "sorted (map key rs)" using assms(1) unfolding sorted_map by (rule sorted_wrt_mono_rel [rotated]) (auto simp: version_def)
  have len: "length ?ms = length ?cs" by (simp add: table_metas_def)
  note b = binary_search_block_cases [OF table_blocks_sorted [OF key], of sid bs k]
  show ?thesis
  proof (cases "binary_search_block ?ms k")
    case None
    have "k \<notin> key ` set rs"
    proof
      assume "k \<in> key ` set rs"
      then obtain r where r: "r \<in> set (concat ?cs)" "key r = k" by auto
      then obtain c where "c \<in> set ?cs" "r \<in> set c" unfolding set_concat by blast
      then obtain i where "i < length ?cs" "r \<in> set (?cs ! i)" by (metis in_set_conv_nth)
      with covers_chunk [OF key this, of sid] r(2) have "covers_key k (?ms ! i)" "?ms ! i \<in> set ?ms" using len by simp_all
      with b None show False by simp
    qed
    with None show ?thesis by (simp add: table_get_absent)
  next
    case (Some m)
    with b len obtain i where i: "i < length ?cs" "?ms ! i = m" "covers_key k m" by (auto simp: in_set_conv_nth)
    have idx: "bm_block_idx m = i" using i(2) table_metas_nth [OF i(1), of sid] by (auto simp: block_info_def)
    have "filter (\<lambda>r. version r = (k, t)) (?cs ! j) = []" if "j < length ?cs" "j \<noteq> i" for j
      using covered_elsewhere [OF key assms(2) i(1), of sid j] i(2,3) that by (force simp: filter_empty_conv version_def)
    from filter_concat_nth [OF i(1) this] have eq: "table_get now_us k t rs = table_get now_us k t (?cs ! i)"
      by (simp add: table_get_def)
    have "expire_at r \<le> bm_max_expire m" if "r \<in> set (?cs ! i)" for r
      using that table_metas_nth [OF i(1), of sid] i(2) by (auto simp: from_block_info_def block_info_def intro: max_or0_ge)
    then have "table_get now_us k t (?cs ! i) = None" if "is_expired now_us m"
      using that by (intro table_get_expired) (force simp: is_expired_def)
    then show ?thesis by (simp add: Some idx eq)
  qed
qed

section \<open>The tables of a worker\<close>

text \<open>\<open>tbs\<close> are the tables a worker has flushed, oldest first, each with the records written to it: the block index, the Bloom
  filters and the files are those of these records.\<close>

definition table_file :: "(bytes \<Rightarrow> bytes) \<Rightarrow> Config \<Rightarrow> InternalRecord list \<Rightarrow> bytes" where
  "table_file compress cfg rs = fst (sst_write compress rs (block_size cfg) (bloom_bits_per_key cfg))"

definition table_ok :: "(bytes \<Rightarrow> bytes) \<Rightarrow> WriteWorker \<Rightarrow> nat \<times> InternalRecord list \<Rightarrow> bool" where
  "table_ok compress w = (\<lambda>(sid, rs). sorted (map version rs) \<and> distinct (map seq rs) \<and> ww_ssts w sid = Some (table_file compress (ww_config w) rs)
     \<and> blooms (ww_index w) sid = Some (from_keys_with_bits (unique_keys None rs) (bloom_bits_per_key (ww_config w))))"

definition tabled :: "(bytes \<Rightarrow> bytes) \<Rightarrow> WriteWorker \<Rightarrow> (nat \<times> InternalRecord list) list \<Rightarrow> bool" where
  "tabled compress w tbs \<longleftrightarrow>
     sst_blocks (ww_index w) = map (\<lambda>(sid, rs). (sid, table_metas sid (block_size (ww_config w)) rs)) tbs
     \<and> fst ` set (sstables (mstate (ww_manifest w))) = fst ` set tbs \<and> dom (ww_ssts w) \<subseteq> fst ` set tbs
     \<and> (\<forall>x\<in>set tbs. table_ok compress w x)"

lemma bt_insert_last: "\<forall>x\<in>set m. fst x < k \<Longrightarrow> bt_insert k v m = m @ [(k, v)]"
  by (induction k v m rule: bt_insert.induct) auto

lemma next_sst_id_above: "i \<in> fst ` set (sstables (mstate m)) \<Longrightarrow> i < next_sst_id m"
proof -
  have "x \<in> set xs \<Longrightarrow> x \<le> foldr max xs (0 :: nat)" for x xs by (induction xs) auto
  then show "i \<in> fst ` set (sstables (mstate m)) \<Longrightarrow> i < next_sst_id m" by (auto simp: next_sst_id_def less_Suc_eq_le)
qed

lemma sorted_version_filter: "sorted (map sort_ord rs) \<Longrightarrow> sorted (map version (filter P rs))"
  unfolding sorted_map by (rule sorted_wrt_mono_rel [OF _ sorted_wrt_filter]) (auto intro: sort_ord_le_version)

lemma popped_sorted:
  assumes "mts_reach ms" "pop_frozen (fst (freeze ms)) = (ms', Some f)"
  shows "sorted (map sort_ord (records f))" "distinct (map seq (records f))"
proof -
  have "mts_ok (fst (freeze ms))" using assms(1) by (intro mts_reach_ok mts_reach.intros)
  then show "sorted (map sort_ord (records f))" "distinct (map seq (records f))"
    using assms(2) by (auto simp: pop_frozen_def mts_ok_def mt_ok_def split: list.splits)
qed

lemma tabled_flush:
  assumes "tabled compress w tbs" "mts_reach (ww_memtables w)"
  shows "\<exists>new. tabled compress (do_flush compress ser now_us w) (tbs @ new) \<and> ww_ssts w \<subseteq>\<^sub>m ww_ssts (do_flush compress ser now_us w)
    \<and> (\<forall>(sid, rs)\<in>set new. \<exists>ms f. pop_frozen (fst (freeze (ww_memtables w))) = (ms, Some f) \<and> rs = filter (\<lambda>r. now_us < expire_at r) (records f))"
proof (cases rule: do_flush_cases [of compress ser now_us w])
  case (written f rs sid infos n bl)
  let ?w = "do_flush compress ser now_us w" and ?cfg = "ww_config w"
  have si: "infos = map (\<lambda>(i, c). block_info i c) (enumerate 0 (chunks (max (block_size ?cfg) 1) rs))"
    "bl = from_keys_with_bits (unique_keys None rs) (bloom_bits_per_key ?cfg)"
    using written(6) by (simp_all add: sst_write_eq)
  have above: "fst x < sid" if "x \<in> set tbs" for x
    using that assms(1) next_sst_id_above [of "fst x" "ww_manifest w"] written(4) by (auto simp: tabled_def)
  have fresh: "ww_ssts w sid = None" using above assms(1) by (force simp: tabled_def dom_def)
  have w: "ww_config ?w = ?cfg" "ww_ssts ?w = (ww_ssts w)(sid \<mapsto> table_file compress ?cfg rs)"
    "blooms (ww_index ?w) = (blooms (ww_index w))(sid \<mapsto> bl)"
    "sst_blocks (ww_index ?w) = bt_insert sid (map (from_block_info sid) infos) (sst_blocks (ww_index w))"
    "fst ` set (sstables (mstate (ww_manifest ?w))) = insert sid (fst ` set (sstables (mstate (ww_manifest w))))"
    unfolding written(5) using arg_cong [OF manifest_flush_state(2), of dom]
    by (simp_all add: table_file_def set_bloom_def ix_add_sst_def fold_add_meta Let_def dom_map_of_conv_image_fst)
  have "map (from_block_info sid) infos = table_metas sid (block_size ?cfg) rs"
    by (simp add: si table_metas_def comp_def split_def)
  then have "sst_blocks (ww_index ?w) = sst_blocks (ww_index w) @ [(sid, table_metas sid (block_size ?cfg) rs)]"
    unfolding w(4) using above assms(1) by (subst bt_insert_last) (auto simp: tabled_def split_beta)
  moreover have "sorted (map version rs)" unfolding written(2)
    by (rule sorted_version_filter [OF popped_sorted(1) [OF assms(2) written(1)]])
  moreover have "distinct (map seq rs)" unfolding written(2)
    by (rule distinct_map_filter [OF popped_sorted(2) [OF assms(2) written(1)]])
  moreover have "table_ok compress ?w x" if "x \<in> set tbs" for x
    using that assms(1) above [OF that] by (auto simp: tabled_def table_ok_def w)
  ultimately have "tabled compress ?w (tbs @ [(sid, rs)])"
    using assms(1) unfolding tabled_def by (auto simp: w table_ok_def si(2))
  moreover have "ww_ssts w \<subseteq>\<^sub>m ww_ssts ?w" using fresh by (auto simp: w(2) map_le_def)
  ultimately show ?thesis using written(1,2) by (intro exI [of _ "[(sid, rs)]"]) auto
qed (use assms in \<open>auto simp: tabled_def table_ok_def intro!: exI [of _ "[]"]\<close>)

text \<open>All tables hold records of \<open>R\<close>, and the files \<open>m\<close> are still there.\<close>

definition tables_in :: "(bytes \<Rightarrow> bytes) \<Rightarrow> InternalRecord set \<Rightarrow> (nat \<rightharpoonup> bytes) \<Rightarrow> WriteWorker \<Rightarrow> bool" where
  "tables_in compress R m w \<longleftrightarrow> (\<exists>tbs. tabled compress w tbs \<and> (\<forall>x\<in>set tbs. set (snd x) \<subseteq> R)) \<and> m \<subseteq>\<^sub>m ww_ssts w"

lemma tables_in_cong:
  assumes "ww_config y = ww_config v" "ww_manifest y = ww_manifest v" "ww_ssts y = ww_ssts v" "ww_index y = ww_index v"
  shows "tables_in compress R m y = tables_in compress R m v"
  by (simp add: assms tables_in_def tabled_def table_ok_def)

lemma tables_in_flush:
  assumes "tables_in compress R m w" "mts_reach (ww_memtables w)" "set (mts_all (ww_memtables w)) \<subseteq> R"
  shows "tables_in compress R m (do_flush compress ser now_us w)"
proof -
  obtain tbs where t: "tabled compress w tbs" "\<forall>x\<in>set tbs. set (snd x) \<subseteq> R" and m: "m \<subseteq>\<^sub>m ww_ssts w"
    using assms(1) by (auto simp: tables_in_def)
  from tabled_flush [OF t(1) assms(2), of ser now_us] obtain new where n: "tabled compress (do_flush compress ser now_us w) (tbs @ new)"
    "ww_ssts w \<subseteq>\<^sub>m ww_ssts (do_flush compress ser now_us w)"
    "\<forall>(sid, rs)\<in>set new. \<exists>ms f. pop_frozen (fst (freeze (ww_memtables w))) = (ms, Some f) \<and> rs = filter (\<lambda>r. now_us < expire_at r) (records f)"
    by blast
  have "set (snd x) \<subseteq> R" if "x \<in> set new" for x
  proof -
    from n(3) that obtain ms f where f: "pop_frozen (fst (freeze (ww_memtables w))) = (ms, Some f)"
      "snd x = filter (\<lambda>r. now_us < expire_at r) (records f)" by fastforce
    from freeze_pop_popped(1) [OF assms(2) f(1)] assms(3) f(2) show ?thesis by auto
  qed
  then show ?thesis using n(1,2) t(2) map_le_trans [OF m] unfolding tables_in_def by (metis Un_iff set_append)
qed

lemma tables_in_group:
  fixes ser :: "ManifestEntry \<Rightarrow> string"
  assumes "tables_in compress R m w" "wk_inv R T w" "0 < max_frozen (ww_memtables w)" "lz4_ok compress decompress"
    and "flushable compress (block_size (ww_config w)) R" "T \<le> now_us" "batch_ok R w subs"
    and "process_batch_group compress ser now_us subs w = Some w'"
  shows "tables_in compress R m w'"
proof -
  have mem: "mts_reach (ww_memtables v) \<and> set (mts_all (ww_memtables v)) \<subseteq> R" if "wk_inv R t v" for v t
    using that by (auto simp: wk_inv_def)
  obtain v y where vy: "flush_while compress ser now_us w = Some v" "wk_inv R now_us y" "ww_config y = ww_config w"
    "ww_manifest y = ww_manifest v" "ww_ssts y = ww_ssts v" "ww_index y = ww_index v"
    "process_batch_group compress ser now_us subs w = Some (if should_flush (ww_memtables y) then do_flush compress ser now_us y else y)"
    using group_parts [OF assms(2-7), of ser] by metis
  let ?P = "\<lambda>v. tables_in compress R m v \<and> mts_reach (ww_memtables v) \<and> set (mts_all (ww_memtables v)) \<subseteq> R \<and> ww_config v = ww_config w"
  have "?P v"
  proof (rule flush_while_keeps [OF vy(1)])
    fix u assume u: "?P u"
    have "set (mts_all (fst (pop_frozen (fst (freeze (ww_memtables u)))))) \<subseteq> set (mts_all (ww_memtables u))"
      using freeze_pop_idle freeze_pop_popped(1) u by (metis Un_upper2 option.exhaust prod.collapse subset_refl)
    with u show "?P (do_flush compress ser now_us u)"
      by (auto intro!: tables_in_flush simp: do_flush_memtables mts_reach_flush)
  qed (use assms(1) mem [OF assms(2)] in simp)
  then have "tables_in compress R m y" using vy(3-6) tables_in_cong by metis
  then show ?thesis using tables_in_flush [of compress R m y] mem [OF vy(2)] vy(7) assms(8) by auto
qed

section \<open>Readers and cache of an engine\<close>

definition open_tables :: "WriteWorker \<Rightarrow> nat \<rightharpoonup> SstReader" where
  "open_tables w sid = (case ww_ssts w sid of None \<Rightarrow> None
     | Some f \<Rightarrow> (case SstReader_open f sid of Inl _ \<Rightarrow> None | Inr rd \<Rightarrow> Some rd))"

definition reads_ok :: "'l externals \<Rightarrow> 'l Engine \<Rightarrow> bool" where
  "reads_ok ext e \<longleftrightarrow>
     coherent (ev_lru ext) (block_of (ev_decompress ext) (open_tables (en_worker e))) (en_cache e)
     \<and> en_readers e \<subseteq>\<^sub>m open_tables (en_worker e)"

lemma open_tables_id: "open_tables w sid = Some rd \<Longrightarrow> rd_sst_id rd = sid"
  by (auto simp: open_tables_def SstReader_open_def split: option.splits sum.splits)

lemma open_tables_mono: "ww_ssts w \<subseteq>\<^sub>m ww_ssts w' \<Longrightarrow> open_tables w \<subseteq>\<^sub>m open_tables w'"
  by (force simp: map_le_def open_tables_def dom_def split: option.splits)

lemma block_of_mono: "tab \<subseteq>\<^sub>m tab' \<Longrightarrow> block_of d tab \<subseteq>\<^sub>m block_of d tab'"
  by (force simp: map_le_def block_of_def dom_def split: option.splits)

lemma reads_ok_mono:
  assumes "reads_ok ext e" "ww_ssts (en_worker e) \<subseteq>\<^sub>m ww_ssts w"
  shows "reads_ok ext (e\<lparr>en_worker := w\<rparr>)"
proof -
  have o: "open_tables (en_worker e) \<subseteq>\<^sub>m open_tables w" by (rule open_tables_mono [OF assms(2)])
  from assms(1) have "coherent (ev_lru ext) (block_of (ev_decompress ext) (open_tables (en_worker e))) (en_cache e)"
    "en_readers e \<subseteq>\<^sub>m open_tables (en_worker e)" by (auto simp: reads_ok_def)
  then show ?thesis using map_le_trans [OF _ block_of_mono [OF o]] map_le_trans [OF _ o] by (auto simp: reads_ok_def coherent_def)
qed

lemma get_reader_ok:
  assumes "reads_ok ext e" "get_reader sid e = (e', r)"
  shows "reads_ok ext e' \<and> en_worker e' = en_worker e \<and> en_cache e' = en_cache e
    \<and> (case open_tables (en_worker e) sid of Some rd \<Rightarrow> r = Inr rd | None \<Rightarrow> isl r)"
proof (cases "en_readers e sid")
  case None
  have "(en_readers e)(sid \<mapsto> rd) \<subseteq>\<^sub>m open_tables (en_worker e)" if "open_tables (en_worker e) sid = Some rd" for rd
    using that assms(1) by (simp add: reads_ok_def map_le_def)
  then show ?thesis using None assms open_tables_def [of "en_worker e" sid]
    by (auto simp: get_reader_def reads_ok_def split: option.splits sum.splits)
next
  case (Some rd)
  then have "open_tables (en_worker e) sid = Some rd" using assms(1) by (force simp: reads_ok_def map_le_def dom_def)
  with Some assms show ?thesis by (auto simp: get_reader_def)
qed

lemma block_search_ok:
  assumes "lru_ok (ev_lru ext)" "reads_ok ext e" "block_search ext k t now_us sid idx e = (e', r)"
  shows "reads_ok ext e' \<and> en_worker e' = en_worker e
    \<and> r = Option.bind (block_of (ev_decompress ext) (open_tables (en_worker e)) \<lparr>ck_sst_id = sid, ck_block_idx = idx\<rparr>)
        (\<lambda>rs. find_in_records rs k t now_us)"
proof -
  let ?cont = "block_of (ev_decompress ext) (open_tables (en_worker e))" and ?k = "\<lparr>ck_sst_id = sid, ck_block_idx = idx\<rparr>"
  obtain e1 rr where g: "get_reader sid e = (e1, rr)" by fastforce
  note o = get_reader_ok [OF assms(2) g]
  show ?thesis
  proof (cases "open_tables (en_worker e) sid")
    case None
    then obtain er where "rr = Inl er" using o by (auto simp: isl_def)
    then show ?thesis using assms(3) o None by (auto simp: block_search_def g block_of_def)
  next
    case (Some rd)
    have rr: "rr = Inr rd" "rd_sst_id rd = sid" using o Some open_tables_id by auto
    obtain c1 hit where c: "cache_get (ev_lru ext) ?k (en_cache e) = (c1, hit)" by fastforce
    have co: "coherent (ev_lru ext) ?cont (en_cache e)" using assms(2) by (auto simp: reads_ok_def)
    note h = cache_get_spec [OF assms(1) co c]
    have cont: "?cont ?k = (case read_block_inner (ev_decompress ext) rd idx of Inl _ \<Rightarrow> None | Inr rs \<Rightarrow> Some rs)"
      using Some by (simp add: block_of_def)
    show ?thesis
      using assms(3) o h cont cache_insert_spec [OF assms(1), of ?cont c1 ?k]
      by (auto simp: block_search_def g rr read_block_cached_def c read_block_inner_def reads_ok_def split: option.splits sum.splits prod.splits)
  qed
qed

section \<open>The loop over the tables\<close>

fun first_some :: "('a \<Rightarrow> 'b option) \<Rightarrow> 'a list \<Rightarrow> 'b option" where
  "first_some f [] = None"
| "first_some f (x # xs) = (case f x of None \<Rightarrow> first_some f xs | Some r \<Rightarrow> Some r)"

lemma first_some_one:
  assumes "x \<in> set xs" "f x = Some r" "\<And>y r'. y \<in> set xs \<Longrightarrow> f y = Some r' \<Longrightarrow> r' = r"
  shows "first_some f xs = Some r"
  using assms
proof (induction xs)
  case (Cons y ys)
  show ?case
  proof (cases "f y")
    case None
    then have "x \<in> set ys" using Cons.prems(1,2) by auto
    then have "first_some f ys = Some r" by (rule Cons.IH [OF _ Cons.prems(2)]) (rule Cons.prems(3), simp_all)
    with None show ?thesis by simp
  next
    case (Some r')
    then show ?thesis using Cons.prems(3) [of y r'] by simp
  qed
qed simp

text \<open>A loop whose closure keeps an invariant and has a fixed answer under it answers like \<open>point_loop\<close>.\<close>

lemma point_loop_st_eq:
  assumes "\<And>m s s' r. P s \<Longrightarrow> f m s = (s', r) \<Longrightarrow> P s' \<and> r = g m" "P s" "point_loop_st ix k now_us f bs s = (s', r)"
  shows "P s' \<and> r = point_loop ix k now_us g bs"
  using assms(2,3)
proof (induction bs arbitrary: s)
  case (Cons b bs)
  obtain sid blocks where b: "b = (sid, blocks)" by force
  have step: "P (fst (f m s)) \<and> snd (f m s) = g m" for m using assms(1) [OF Cons.prems(1), of m] by (cases "f m s") auto
  show ?case
  proof (cases "bloom_may_contain ix sid k \<and> (\<exists>m. binary_search_block blocks k = Some m \<and> \<not> is_expired now_us m)")
    case True
    then obtain m where m: "bloom_may_contain ix sid k" "binary_search_block blocks k = Some m" "\<not> is_expired now_us m" by blast
    obtain s1 a where f: "f m s = (s1, a)" by force
    then have st: "P s1" "g m = a" using step [of m] by simp_all
    show ?thesis
    proof (cases a)
      case None
      then show ?thesis using Cons.prems(2) Cons.IH [OF st(1)] st(2) f m by (simp add: b)
    next
      case (Some x)
      have "s' = s1 \<and> r = Some x" using Cons.prems(2) f m by (simp add: b Some)
      then show ?thesis using st m by (simp add: b Some)
    qed
  next
    case False
    then have "point_loop_st ix k now_us f (b # bs) s = point_loop_st ix k now_us f bs s"
      "point_loop ix k now_us g (b # bs) = point_loop ix k now_us g bs" by (auto simp: b split: option.split)
    then show ?thesis using Cons.IH [OF Cons.prems(1)] Cons.prems(2) by (simp only:)
  qed
qed simp

definition block_answer :: "'l externals \<Rightarrow> WriteWorker \<Rightarrow> bytes \<Rightarrow> int \<Rightarrow> int \<Rightarrow> BlockMeta \<Rightarrow> Record option" where
  "block_answer ext w k t now_us m =
     Option.bind (block_of (ev_decompress ext) (open_tables w) \<lparr>ck_sst_id = bm_sst_id m, ck_block_idx = bm_block_idx m\<rparr>)
       (\<lambda>rs. find_in_records rs k t now_us)"

lemma block_of_table:
  assumes "lz4_ok (ev_compress ext) (ev_decompress ext)" "flushable (ev_compress ext) (block_size (ww_config w)) R"
    and "table_ok (ev_compress ext) w (sid, rs)" "set rs \<subseteq> R" "i < length (chunks (max (block_size (ww_config w)) 1) rs)"
  shows "block_of (ev_decompress ext) (open_tables w) \<lparr>ck_sst_id = sid, ck_block_idx = i\<rparr>
    = Some (map forget_seq (chunks (max (block_size (ww_config w)) 1) rs ! i))"
proof -
  obtain rd where "SstReader_open (concat (map (block_bytes (ev_compress ext)) (chunks (max (block_size (ww_config w)) 1) rs))) sid = Inr rd"
    "\<forall>i<length (chunks (max (block_size (ww_config w)) 1) rs).
       read_block_inner (ev_decompress ext) rd i = Inr (map forget_seq (chunks (max (block_size (ww_config w)) 1) rs ! i))"
    by (rule flushable_file [OF assms(1,2,4), of sid])
  then show ?thesis using assms(3,5) by (simp add: block_of_def open_tables_def table_ok_def table_file_def sst_write_eq del: One_nat_def)
qed

lemma block_answer_table:
  assumes "lz4_ok (ev_compress ext) (ev_decompress ext)" "flushable (ev_compress ext) (block_size (ww_config w)) R"
    and "table_ok (ev_compress ext) w (sid, rs)" "set rs \<subseteq> R" "m \<in> set (table_metas sid (block_size (ww_config w)) rs)"
  shows "block_answer ext w k t now_us m = table_get now_us k t (chunks (max (block_size (ww_config w)) 1) rs ! bm_block_idx m)"
proof -
  let ?bs = "block_size (ww_config w)"
  let ?cs = "chunks (max ?bs 1) rs"
  obtain i where i: "i < length ?cs" "m = from_block_info sid (block_info i (?cs ! i))"
    using assms(5) by (auto simp: table_metas_def in_set_enumerate_eq)
  then have m: "bm_sst_id m = sid" "bm_block_idx m = i" by (simp_all add: from_block_info_def block_info_def)
  have "sorted (map version (?cs ! i))"
    by (rule sorted_chunk [OF _ nth_mem [OF i(1)]]) (use assms(3) in \<open>simp add: table_ok_def\<close>)
  then have "sorted (map version (map forget_seq (?cs ! i)))" by (simp add: comp_def)
  from find_in_records_eq [OF this] show ?thesis
    unfolding block_answer_def m by (simp add: block_of_table [OF assms(1-4) i(1)])
qed

lemma bloom_of_table:
  assumes "table_ok compress w (sid, rs)" "k \<in> key ` set rs"
  shows "bloom_may_contain (ww_index w) sid k"
proof -
  have "may_contain (from_keys_with_bits (unique_keys None rs) b) k" for b
    unfolding from_keys_with_bits_def by (rule bloom.query_foldl) (use assms(2) in simp_all)
  then show ?thesis using assms(1) by (simp add: bloom_may_contain_def table_ok_def)
qed

lemma table_step:
  assumes "lz4_ok (ev_compress ext) (ev_decompress ext)" "flushable (ev_compress ext) (block_size (ww_config w)) R"
    and "table_ok (ev_compress ext) w (sid, rs)" "set rs \<subseteq> R" "one_block (block_size (ww_config w)) k rs"
  shows "(case binary_search_block (table_metas sid (block_size (ww_config w)) rs) k of None \<Rightarrow> None
     | Some m \<Rightarrow> if is_expired now_us m then None else block_answer ext w k t now_us m) = table_get now_us k t rs"
proof -
  have v: "sorted (map version rs)" using assms(3) by (simp add: table_ok_def)
  then have "sorted (map key rs)" unfolding sorted_map by (rule sorted_wrt_mono_rel [rotated]) (auto simp: version_def)
  note b = binary_search_block_cases [OF table_blocks_sorted [OF this], of sid "block_size (ww_config w)" k]
  show ?thesis unfolding table_lookup [OF v assms(5), where sid = sid, symmetric]
    using b block_answer_table [OF assms(1-4)] by (auto split: option.split)
qed

lemma point_loop_tables:
  assumes "lz4_ok (ev_compress ext) (ev_decompress ext)" "flushable (ev_compress ext) (block_size (ww_config w)) R"
    and "\<forall>x\<in>set tbs. table_ok (ev_compress ext) w x \<and> set (snd x) \<subseteq> R \<and> one_block (block_size (ww_config w)) k (snd x)"
  shows "point_loop (ww_index w) k now_us (block_answer ext w k t now_us)
      (map (\<lambda>(sid, rs). (sid, table_metas sid (block_size (ww_config w)) rs)) tbs)
    = first_some (\<lambda>x. table_get now_us k t (snd x)) tbs"
  using assms(3)
proof (induction tbs)
  case (Cons x tbs)
  obtain sid rs where x: "x = (sid, rs)" by force
  have "table_get now_us k t rs = None" if "\<not> bloom_may_contain (ww_index w) sid k"
    using that Cons.prems bloom_of_table [of "ev_compress ext" w sid rs k] by (intro table_get_absent) (auto simp: x)
  with table_step [OF assms(1,2), of sid rs k now_us t] Cons show ?case by (auto simp: x split: option.splits if_splits)
qed simp

lemma get_bytes_blocks:
  assumes "lru_ok (ev_lru ext)" "reads_ok ext e" "mts_get k t now_us (ww_memtables (en_worker e)) = None"
  shows "snd (get_bytes ext now_us k t e) = (case single_sst_point (ww_index (en_worker e)) k now_us of
      Some (sid, idx) \<Rightarrow> Option.bind (block_of (ev_decompress ext) (open_tables (en_worker e)) \<lparr>ck_sst_id = sid, ck_block_idx = idx\<rparr>)
        (\<lambda>rs. find_in_records rs k t now_us)
    | None \<Rightarrow> point_loop (ww_index (en_worker e)) k now_us (block_answer ext (en_worker e) k t now_us) (sst_blocks (ww_index (en_worker e))))"
proof -
  let ?w = "en_worker e" and ?P = "\<lambda>s. reads_ok ext s \<and> en_worker s = en_worker e"
  let ?loop = "point_loop_st (ww_index ?w) k now_us (\<lambda>m. block_search ext k t now_us (bm_sst_id m) (bm_block_idx m)) (sst_blocks (ww_index ?w)) e"
  have step: "?P s' \<and> r = block_answer ext ?w k t now_us m"
    if "?P s" "block_search ext k t now_us (bm_sst_id m) (bm_block_idx m) s = (s', r)" for m s s' r
    using block_search_ok [OF assms(1) conjunct1 [OF that(1)] that(2)] that(1) by (simp add: block_answer_def)
  have "snd ?loop = point_loop (ww_index ?w) k now_us (block_answer ext ?w k t now_us) (sst_blocks (ww_index ?w))"
    using point_loop_st_eq [OF step, where s = e and s' = "fst ?loop" and r = "snd ?loop"] assms(2) by simp
  moreover have "snd (block_search ext k t now_us sid idx e)
      = Option.bind (block_of (ev_decompress ext) (open_tables ?w) \<lparr>ck_sst_id = sid, ck_block_idx = idx\<rparr>) (\<lambda>rs. find_in_records rs k t now_us)"
    for sid idx using block_search_ok [OF assms(1,2)] by (metis prod.collapse)
  ultimately show ?thesis using assms(3) by (simp add: get_bytes_def Let_def split: option.split)
qed

text \<open>A lookup that memory does not answer is answered by the first table, in the order of the ids, with an answer.\<close>

lemma get_bytes_answer:
  assumes "lru_ok (ev_lru ext)" "lz4_ok (ev_compress ext) (ev_decompress ext)"
    and "flushable (ev_compress ext) (block_size (ww_config (en_worker e))) R" "reads_ok ext e"
    and "tabled (ev_compress ext) (en_worker e) tbs" "\<forall>x\<in>set tbs. set (snd x) \<subseteq> R \<and> one_block (block_size (ww_config (en_worker e))) k (snd x)"
    and "mts_get k t now_us (ww_memtables (en_worker e)) = None"
  shows "snd (get_bytes ext now_us k t e) = first_some (\<lambda>x. table_get now_us k t (snd x)) tbs"
proof -
  let ?w = "en_worker e"
  have blocks: "sst_blocks (ww_index ?w) = map (\<lambda>(sid, rs). (sid, table_metas sid (block_size (ww_config ?w)) rs)) tbs"
    and ok: "\<forall>x\<in>set tbs. table_ok (ev_compress ext) ?w x \<and> set (snd x) \<subseteq> R \<and> one_block (block_size (ww_config ?w)) k (snd x)"
    using assms(5,6) by (auto simp: tabled_def)
  show ?thesis
  proof (cases "single_sst_point (ww_index ?w) k now_us")
    case None
    then show ?thesis using get_bytes_blocks [OF assms(1,4,7)] point_loop_tables [OF assms(2,3) ok] by (simp add: blocks)
  next
    case (Some p)
    then obtain sid rs m where t: "tbs = [(sid, rs)]" and m: "binary_search_block (table_metas sid (block_size (ww_config ?w)) rs) k = Some m"
      "\<not> is_expired now_us m" "p = (bm_sst_id m, bm_block_idx m)"
      by (auto simp: single_sst_point_def blocks length_Suc_conv split: if_splits option.splits)
    have "snd (get_bytes ext now_us k t e) = block_answer ext ?w k t now_us m"
      using get_bytes_blocks [OF assms(1,4,7)] Some m(3) by (simp add: block_answer_def)
    then show ?thesis using table_step [OF assms(2,3), of sid rs k now_us t] ok m t by (auto split: option.split)
  qed
qed

lemma point_loop_some:
  "point_loop ix k now_us f bs = Some p \<Longrightarrow> \<exists>(sid, bl)\<in>set bs. \<exists>m. binary_search_block bl k = Some m \<and> f m = Some p"
  by (induction bs) (auto split: if_splits option.splits)

lemma get_bytes_from_table:
  assumes "lru_ok (ev_lru ext)" "lz4_ok (ev_compress ext) (ev_decompress ext)"
    and "flushable (ev_compress ext) (block_size (ww_config (en_worker e))) R" "reads_ok ext e"
    and "tabled (ev_compress ext) (en_worker e) tbs" "\<forall>x\<in>set tbs. set (snd x) \<subseteq> R"
    and "mts_get k t now_us (ww_memtables (en_worker e)) = None" "snd (get_bytes ext now_us k t e) = Some p"
  shows "\<exists>c. set c \<subseteq> R \<and> table_get now_us k t c = Some p"
proof -
  let ?w = "en_worker e" and ?bs = "block_size (ww_config (en_worker e))"
  have blocks: "sst_blocks (ww_index ?w) = map (\<lambda>(sid, rs). (sid, table_metas sid ?bs rs)) tbs"
    and ok: "\<forall>x\<in>set tbs. table_ok (ev_compress ext) ?w x \<and> set (snd x) \<subseteq> R"
    using assms(5,6) by (auto simp: tabled_def)
  have "\<exists>(sid, rs)\<in>set tbs. \<exists>m. binary_search_block (table_metas sid ?bs rs) k = Some m \<and> block_answer ext ?w k t now_us m = Some p"
  proof (cases "single_sst_point (ww_index ?w) k now_us")
    case None
    then show ?thesis using get_bytes_blocks [OF assms(1,4,7)] assms(8)
        point_loop_some [of "ww_index ?w" k now_us "block_answer ext ?w k t now_us" "sst_blocks (ww_index ?w)" p] by (auto simp: blocks)
  next
    case (Some q)
    then show ?thesis using get_bytes_blocks [OF assms(1,4,7)] assms(8)
      by (auto simp: single_sst_point_def blocks length_Suc_conv block_answer_def split: if_splits option.splits)
  qed
  then obtain sid rs m where m: "(sid, rs) \<in> set tbs" "binary_search_block (table_metas sid ?bs rs) k = Some m"
    "block_answer ext ?w k t now_us m = Some p" by blast
  have t: "table_ok (ev_compress ext) ?w (sid, rs)" "set rs \<subseteq> R" using bspec [OF ok m(1)] by auto
  then have "sorted (map key rs)" unfolding sorted_map by (auto simp: table_ok_def sorted_map version_def elim: sorted_wrt_mono_rel [rotated])
  from binary_search_block_cases [OF table_blocks_sorted [OF this], of sid ?bs k] m(2)
  have mm: "m \<in> set (table_metas sid ?bs rs)" by simp
  then have "bm_block_idx m < length (chunks (max ?bs 1) rs)"
    by (auto simp: table_metas_def in_set_enumerate_eq from_block_info_def block_info_def)
  then have "set (chunks (max ?bs 1) rs ! bm_block_idx m) \<subseteq> set (concat (chunks (max ?bs 1) rs))" by (rule set_nth_concat)
  then show ?thesis using block_answer_table [OF assms(2,3) t mm, of k t now_us] m(3) t(2)
    by (intro exI [of _ "chunks (max ?bs 1) rs ! bm_block_idx m"]) auto
qed

section \<open>Answers\<close>

lemma table_get_some:
  assumes "table_get now_us k t rs = Some p"
  shows "\<exists>r\<in>set rs. version r = (k, t) \<and> now_us < expire_at r \<and> rop r \<noteq> Delete \<and> p = to_record r"
proof (cases "rev (filter (\<lambda>r. version r = (k, t)) rs)")
  case (Cons r ys)
  have "set (r # ys) \<subseteq> {x \<in> set rs. version x = (k, t)}" unfolding Cons [symmetric] by auto
  then show ?thesis using assms Cons by (intro bexI [of _ r]) (auto simp: table_get_def to_record_def version_def split: if_splits)
qed (use assms in \<open>simp add: table_get_def\<close>)

lemma table_get_unique:
  assumes "r \<in> set rs" "version r = (k, t)" "\<And>x. x \<in> set rs \<Longrightarrow> version x = (k, t) \<Longrightarrow> x = r"
    and "now_us < expire_at r" "rop r \<noteq> Delete"
  shows "table_get now_us k t rs = Some (to_record r)"
proof (cases "rev (filter (\<lambda>r. version r = (k, t)) rs)")
  case Nil
  then show ?thesis using assms(1,2) by (auto simp: filter_empty_conv)
next
  case (Cons x ys)
  have "set (x # ys) \<subseteq> {x \<in> set rs. version x = (k, t)}" unfolding Cons [symmetric] by auto
  then have "x = r" using assms(3) by auto
  then show ?thesis using assms(2,4,5) Cons by (auto simp: table_get_def to_record_def version_def)
qed

lemma distinct_chunks:
  assumes "distinct (concat cs)" "i < j" "j < length cs" "x \<in> set (cs ! i)"
  shows "x \<notin> set (cs ! j)"
proof -
  have "concat cs = concat (take j cs) @ cs ! j @ concat (drop (Suc j) cs)"
    using id_take_nth_drop [OF assms(3)] by (metis concat.simps(2) concat_append)
  moreover have "cs ! i \<in> set (take j cs)" using nth_mem [of i "take j cs"] assms(2,3) by simp
  then have "x \<in> set (concat (take j cs))" using assms(4) by auto
  ultimately show ?thesis using assms(1) by auto
qed

lemma one_block_unique:
  assumes "distinct rs" "\<And>x. x \<in> set rs \<Longrightarrow> key x = k \<Longrightarrow> x = r"
  shows "one_block bs k rs"
proof -
  let ?cs = "chunks (max bs 1) rs"
  have d: "distinct (concat ?cs)" using assms(1) by simp
  have "r \<in> set (?cs ! i)" if "i < length ?cs" "k \<in> key ` set (?cs ! i)" for i
  proof -
    from that(2) obtain x where x: "x \<in> set (?cs ! i)" "key x = k" by auto
    then have "x \<in> set (concat ?cs)" using nth_mem [OF that(1)] by (metis UN_I set_concat)
    then show ?thesis using assms(2) [of x] x by simp
  qed
  then show ?thesis using distinct_chunks [OF d] unfolding one_block_def Let_def by (metis nat_neq_iff)
qed

lemma get_first_some:
  "\<forall>m\<in>set ms. mt_ok m \<Longrightarrow> get_first k t now_us ms = Some r \<Longrightarrow>
   (\<exists>m\<in>set ms. r \<in> set (records m)) \<and> version r = (k, t) \<and> now_us \<le> expire_at r"
proof (induction ms)
  case (Cons m ms)
  have "x \<in> set (records m) \<and> version x = (k, t)" if "mt_get k t m = Some x" for x
    using max_by_key_in [of seq "filter (\<lambda>r. version r = (k, t)) (records m)" x] that Cons.prems(1) by (simp add: mt_get_ok)
  then show ?case using Cons by (auto split: option.splits if_splits)
qed simp

lemma get_first_unique:
  assumes "now_us \<le> expire_at r" "version r = (k, t)"
  shows "\<forall>m\<in>set ms. mt_ok m \<and> (\<forall>x\<in>set (records m). version x = (k, t) \<longrightarrow> x = r) \<Longrightarrow> \<exists>m\<in>set ms. r \<in> set (records m) \<Longrightarrow>
    get_first k t now_us ms = Some r"
proof (induction ms)
  case (Cons m ms)
  have m: "mt_get k t m = max_by_key seq (filter (\<lambda>r. version r = (k, t)) (records m))" using Cons.prems(1) by (simp add: mt_get_ok)
  show ?case
  proof (cases "mt_get k t m")
    case None
    then have "r \<notin> set (records m)" using assms(2) by (auto simp: m max_by_key_None filter_empty_conv)
    then show ?thesis using Cons None by simp
  next
    case (Some x)
    then have "x = r" using max_by_key_in [of seq "filter (\<lambda>r. version r = (k, t)) (records m)" x] Cons.prems(1) by (simp add: m)
    then show ?thesis using Some assms(1) by simp
  qed
qed simp

lemma mts_tables_ok: "mts_reach ms \<Longrightarrow> m \<in> set (active ms # frozen ms) \<Longrightarrow> mt_ok m"
  using mts_reach_ok [of ms] by (auto simp: mts_ok_def)

lemma mts_get_some:
  assumes "mts_reach ms" "mts_get k t now_us ms = Some r"
  shows "r \<in> set (mts_all ms) \<and> version r = (k, t) \<and> now_us \<le> expire_at r"
  using get_first_some [of "active ms # frozen ms" k t now_us r] mts_tables_ok [OF assms(1)] assms(2)
  by (auto simp: mts_get_def mts_all_def simp del: get_first.simps)

lemma mts_get_unique:
  assumes "mts_reach ms" "r \<in> set (mts_all ms)" "version r = (k, t)" "\<And>x. x \<in> set (mts_all ms) \<Longrightarrow> version x = (k, t) \<Longrightarrow> x = r"
    and "now_us \<le> expire_at r"
  shows "mts_get k t now_us ms = Some r"
  unfolding mts_get_def
proof (rule get_first_unique [OF assms(5,3)])
  show "\<forall>m\<in>set (active ms # frozen ms). mt_ok m \<and> (\<forall>x\<in>set (records m). version x = (k, t) \<longrightarrow> x = r)"
    using mts_tables_ok [OF assms(1)] assms(4) by (auto simp: mts_all_def)
  show "\<exists>m\<in>set (active ms # frozen ms). r \<in> set (records m)" using assms(2) by (auto simp: mts_all_def)
qed

section \<open>Histories\<close>

lemma block_search_latest_ok:
  assumes "reads_ok ext e" "block_search_latest ext k now_us sid idx e = (e', r)"
  shows "reads_ok ext e' \<and> en_worker e' = en_worker e"
proof -
  obtain e1 rr where g: "get_reader sid e = (e1, rr)" by fastforce
  from get_reader_ok [OF assms(1) g] assms(2) show ?thesis
    by (auto simp: block_search_latest_def g split: sum.splits)
qed

lemma reads_ok_loop:
  assumes "\<And>m s s' r. reads_ok ext s \<Longrightarrow> f m s = (s', r) \<Longrightarrow> reads_ok ext s'" "reads_ok ext e"
  shows "reads_ok ext (fst (point_loop_st ix k now_us f bs e))"
  using assms(2)
proof (induction bs arbitrary: e)
  case (Cons b bs)
  obtain sid blocks where b: "b = (sid, blocks)" by force
  have f: "reads_ok ext (fst (f m e))" for m using assms(1) [OF Cons.prems] by (metis prod.collapse)
  have "reads_ok ext (fst (case f m e of (s, Some r) \<Rightarrow> (s, Some r) | (s, None) \<Rightarrow> point_loop_st ix k now_us f bs s))" for m
    using f [of m] Cons.IH [OF f [of m]] by (cases "f m e"; cases "snd (f m e)"; simp)
  then show ?case using Cons.IH [OF Cons.prems] by (simp add: b split: option.split)
qed simp

lemma load_filtered_ok:
  assumes "lru_ok L" "\<forall>sid rd. get_reader_from_map readers ssts sid = Inr rd \<longrightarrow> tables sid = Some rd \<and> rd_sst_id rd = sid"
    and "coherent L (block_of decompress tables) c" "load_filtered L decompress readers ssts q now_us ms c tombs = (c', out)"
  shows "coherent L (block_of decompress tables) c'"
  using assms(3,4)
proof (induction ms arbitrary: c tombs out)
  case (Cons m ms)
  show ?case
  proof (cases "get_reader_from_map readers ssts (bm_sst_id m)")
    case (Inr rd)
    obtain c1 r where a: "read_block_arc L decompress rd (bm_block_idx m) c = (c1, r)" by force
    have "tables (rd_sst_id rd) = Some rd" using assms(2) Inr by auto
    then have "coherent L (block_of decompress tables) c1" using read_block_arc_spec [OF assms(1) Cons.prems(1) _ a] by simp
    from Cons.IH [OF this] Cons.prems(2) Inr a show ?thesis
      by (auto simp: map_prod_def Let_def split: sum.splits prod.splits if_splits)
  qed (use Cons in simp)
qed simp

lemma scan_build_cache:
  assumes "scan_build L decompress q ms ix c readers ssts now_us = Some (c', it)"
  shows "c' = c \<or> (\<exists>cands tombs out. load_filtered L decompress readers ssts q now_us cands c tombs = (c', out))"
proof (rule scan_build_parts [OF assms])
  fix cands tombs0 srcs tombs
  assume "(if is_full_scan q then (c, load_full decompress readers ssts now_us cands tombs0)
      else load_filtered L decompress readers ssts q now_us cands c tombs0) = (c', srcs, tombs)"
  then show ?thesis by (auto split: if_splits)
qed

lemma reads_keep:
  assumes "lru_ok (ev_lru ext)" "reads_ok ext e"
    and "e' = fst (get_bytes ext t k s e) \<or> e' = fst (get_latest ext t k e) \<or> engine_scan ext t q e = Some (e', it)"
  shows "reads_ok ext e'"
proof -
  have b: "reads_ok ext (fst (block_search ext k s t sid idx e))" for sid idx
    using block_search_ok [OF assms(1,2)] by (metis prod.collapse)
  have l: "reads_ok ext (fst (point_loop_st ix k t (\<lambda>m. block_search ext k s t (bm_sst_id m) (bm_block_idx m)) bs e))" for ix bs
    by (rule reads_ok_loop [OF conjunct1 [OF block_search_ok [OF assms(1)]] assms(2)])
  have "reads_ok ext (fst (get_bytes ext t k s e))"
    using assms(2) b l by (simp add: get_bytes_def Let_def split: option.split)
  moreover have "reads_ok ext (fst (get_latest ext t k e))"
    using reads_ok_loop [OF conjunct1 [OF block_search_latest_ok] assms(2)] by (simp add: get_latest_def Let_def split_beta)
  moreover have "reads_ok ext e'" if sc: "engine_scan ext t q e = Some (e', it)"
  proof -
    have rd: "open_tables (en_worker e) sid = Some rd \<and> rd_sst_id rd = sid"
      if "get_reader_from_map (en_readers e) (ww_ssts (en_worker e)) sid = Inr rd" for sid rd
    proof -
      have "open_tables (en_worker e) sid = Some rd"
        using that assms(2) by (force simp: get_reader_from_map_def reads_ok_def map_le_def dom_def open_tables_def split: option.splits)
      then show ?thesis using open_tables_id by blast
    qed
    from sc obtain c it where "scan_build (ev_lru ext) (ev_decompress ext) q (ww_memtables (en_worker e)) (ww_index (en_worker e)) (en_cache e)
      (en_readers e) (ww_ssts (en_worker e)) t = Some (c, it)" "e' = e\<lparr>en_cache := c\<rparr>"
      by (auto simp: engine_scan_def)
    moreover from scan_build_cache [OF this(1)] load_filtered_ok [OF assms(1), of "en_readers e" "ww_ssts (en_worker e)" "open_tables (en_worker e)"] rd
    have "coherent (ev_lru ext) (block_of (ev_decompress ext) (open_tables (en_worker e))) c"
      using assms(2) by (auto simp: reads_ok_def)
    ultimately show ?thesis using assms(2) by (simp add: reads_ok_def)
  qed
  ultimately show ?thesis using assms(3) by blast
qed

text \<open>The tables hold records of \<open>C\<close> only, and cache and readers agree with the files.\<close>

definition en_tables :: "'l externals \<Rightarrow> InternalRecord set \<Rightarrow> 'l Engine \<Rightarrow> bool" where
  "en_tables ext C e \<longleftrightarrow> reads_ok ext e \<and> tables_in (ev_compress ext) C Map.empty (en_worker e)"

lemma tables_in_mono: "tables_in compress C m w \<Longrightarrow> C \<subseteq> D \<Longrightarrow> tables_in compress D m w"
  unfolding tables_in_def by blast

lemma en_tables_step:
  assumes "en_tables ext C e" "tables_in (ev_compress ext) D (ww_ssts (en_worker e)) w"
  shows "en_tables ext D (e\<lparr>en_seq_counter := n, en_worker := w\<rparr>)"
proof -
  have "reads_ok ext (e\<lparr>en_worker := w\<rparr>)" using assms by (intro reads_ok_mono) (simp_all add: en_tables_def tables_in_def)
  then show ?thesis using assms(2) by (simp add: en_tables_def reads_ok_def tables_in_def)
qed

lemma tables_in_files: "tables_in compress C Map.empty w \<Longrightarrow> tables_in compress C (ww_ssts w) w"
  by (simp add: tables_in_def)

lemma numbered_write_tables:
  assumes "json_ok (ev_ser ext) (ev_de ext)" "lz4_ok (ev_compress ext) (ev_decompress ext)" "validate cfg = Inr ()"
    and "flushable (ev_compress ext) (block_size cfg) R"
    and "en_inv ext cfg R e C T" "en_tables ext C e" "T \<le> now_us" "fits R e recs" "numbered_write ext now_us recs e e'"
  shows "en_tables ext (C \<union> set recs) e'"
proof (cases "recs = [] \<and> e' = e")
  case True
  then show ?thesis using assms(6) by simp
next
  case False
  let ?w = "en_worker e" and ?c = "en_seq_counter e" and ?C = "C \<union> set recs"
  let ?s = "\<lparr>sub_records = recs, sub_wal_buf = fst (encode_batch recs), sub_batch_max_seq = if recs = [] then 0 else seq (last recs),
                 sub_sync_mode = wal_sync_mode cfg\<rparr>"
  obtain T0 where T0: "T0 \<le> T" and reach: "wk_reach (ev_compress ext) (ev_ser ext) (ev_de ext) cfg R ?w C T0" and b: "below ?c ?w"
    using assms(5) by (auto simp: en_inv_def)
  have C: "?C \<subseteq> R" and r: "wk_reach (ev_compress ext) (ev_ser ext) (ev_de ext) cfg ?C ?w C T0"
    using wk_reach_self [OF reach] wk_reach_mono assms(8) by (auto simp: fits_def)
  then have fl: "flushable (ev_compress ext) (block_size cfg) ?C" using assms(4) by (auto simp: flushable_def)
  note inv = wk_reach_inv [OF assms(1-3) fl r]
  have n: "map seq recs = [?c..<?c + length recs]"
    and d: "do_write ext now_us recs (e\<lparr>en_seq_counter := ?c + length recs\<rparr>) = Some e'"
    using False assms(9) by (auto simp: numbered_write_def)
  have ok: "batch_ok ?C ?w [?s]"
    using numbered_write_batch_ok [OF n b, of ?C "wal_sync_mode cfg"] assms(8) by (simp add: fits_def)
  from d inv obtain w' where p: "process_batch_group (ev_compress ext) (ev_ser ext) now_us [?s] ?w = Some w'"
    and e': "e' = e\<lparr>en_seq_counter := ?c + length recs, en_worker := w'\<rparr>" by (auto simp: do_write_def Let_def)
  have "tables_in (ev_compress ext) ?C (ww_ssts ?w) ?w"
    using assms(6) by (auto simp: en_tables_def intro: tables_in_files tables_in_mono)
  from tables_in_group [OF this _ _ assms(2) _ _ ok p, of T0] have "tables_in (ev_compress ext) ?C (ww_ssts ?w) w'"
    using inv fl T0 assms(7) by simp
  from en_tables_step [OF assms(6) this] show ?thesis by (simp add: e')
qed

lemma en_reach_tables:
  assumes "json_ok (ev_ser ext) (ev_de ext)" "lz4_ok (ev_compress ext) (ev_decompress ext)" "validate cfg = Inr ()"
    and "flushable (ev_compress ext) (block_size cfg) R" "lru_ok (ev_lru ext)" and "en_reach ext stack_size cfg R e C T"
  shows "en_tables ext C e"
  using assms(6)
proof (induction rule: en_reach.induct)
  case (er_open e T)
  note o = open_empty [OF assms(3) er_open]
  have "en_cache e = with_block_size (ev_lru ext) stack_size (block_cache_capacity_mb cfg) (block_size cfg)" "en_readers e = Map.empty"
    using er_open assms(3) by (auto simp: engine_open_def Let_def split_beta split: if_splits)
  then have "reads_ok ext e" using coherent_new [OF assms(5)] by (simp add: reads_ok_def)
  moreover have "tabled (ev_compress ext) (worker_init (ev_de ext) cfg) []"
    by (simp add: tabled_def worker_init_def Manifest_open_def ManifestState_default_def Index_new_def)
  ultimately show ?case unfolding en_tables_def tables_in_def o(1) by force
next
  case (er_flush e C T now_us)
  let ?w = "en_worker e"
  obtain T0 where "wk_reach (ev_compress ext) (ev_ser ext) (ev_de ext) cfg R ?w C T0"
    using en_reach_inv [OF assms(1-4) er_flush.hyps(1)] by (auto simp: en_inv_def)
  then have "C \<subseteq> R" and r: "wk_reach (ev_compress ext) (ev_ser ext) (ev_de ext) cfg C ?w C T0" using wk_reach_self by blast+
  then have "wk_inv C T0 ?w" using wk_reach_inv [OF assms(1-3) _ r] assms(4) by (auto simp: flushable_def)
  then have "tables_in (ev_compress ext) C (ww_ssts ?w) (do_flush (ev_compress ext) (ev_ser ext) now_us ?w)"
    using er_flush.IH by (intro tables_in_flush) (auto simp: en_tables_def wk_inv_def intro: tables_in_files)
  from en_tables_step [OF er_flush.IH this, of "en_seq_counter e"] show ?case by (simp add: engine_flush_def)
next
  case (er_read e C T e' t k s q it)
  then have "same_core e e'" using reads_core by blast
  moreover have "reads_ok ext e'" using reads_keep [OF assms(5) _ er_read.hyps(2)] er_read.IH by (simp add: en_tables_def)
  ultimately show ?case using er_read.IH by (simp add: en_tables_def same_core_def)
qed (blast intro: numbered_write_tables [OF assms(1-4)] en_reach_inv [OF assms(1-4)] numbered)+

section \<open>What a lookup finds\<close>

lemma held_in_table:
  assumes "lz4_ok (ev_compress ext) (ev_decompress ext)" "flushable (ev_compress ext) (block_size (ww_config w)) R"
    and "table_ok (ev_compress ext) w (sid, rs)" "set rs \<subseteq> R" "ww_ssts w sid = Some file"
    and "sst_holds (ev_decompress ext) sid file x"
  shows "x \<in> forget_seq ` set rs"
proof -
  let ?cs = "chunks (max (block_size (ww_config w)) 1) rs"
  obtain rd where rd: "SstReader_open (concat (map (block_bytes (ev_compress ext)) ?cs)) sid = Inr rd" "block_count rd = length ?cs"
    "\<forall>i<length ?cs. read_block_inner (ev_decompress ext) rd i = Inr (map forget_seq (?cs ! i))"
    by (rule flushable_file [OF assms(1,2,4), of sid])
  have "file = concat (map (block_bytes (ev_compress ext)) ?cs)" using assms(3,5) by (simp add: table_ok_def table_file_def sst_write_eq)
  with assms(6) rd obtain i where i: "i < length ?cs" "x \<in> set (map forget_seq (?cs ! i))" by (auto simp: sst_holds_def)
  have "set (?cs ! i) \<subseteq> set (concat ?cs)" by (rule set_nth_concat [OF i(1)])
  then show ?thesis using i(2) by auto
qed

text \<open>What an engine with the history \<open>C\<close> has in memory and in its tables.\<close>

lemma en_reach_state:
  assumes "json_ok (ev_ser ext) (ev_de ext)" "lz4_ok (ev_compress ext) (ev_decompress ext)" "validate cfg = Inr ()"
    and "flushable (ev_compress ext) (block_size cfg) R" "lru_ok (ev_lru ext)" and "en_reach ext stack_size cfg R e C T"
  obtains tbs where "mts_reach (ww_memtables (en_worker e))" "set (mts_all (ww_memtables (en_worker e))) \<subseteq> C"
    "ww_config (en_worker e) = cfg" "flushable (ev_compress ext) (block_size cfg) C" "reads_ok ext e"
    "tabled (ev_compress ext) (en_worker e) tbs" "\<forall>x\<in>set tbs. set (snd x) \<subseteq> C"
    "\<forall>r\<in>C. T < expire_at r \<longrightarrow> r \<in> set (mts_all (ww_memtables (en_worker e))) \<or> (\<exists>x\<in>set tbs. forget_seq r \<in> forget_seq ` set (snd x))"
proof -
  let ?w = "en_worker e"
  obtain T0 where T0: "T0 \<le> T" "wk_reach (ev_compress ext) (ev_ser ext) (ev_de ext) cfg R ?w C T0"
    using en_reach_inv [OF assms(1-4,6)] by (auto simp: en_inv_def)
  then have "C \<subseteq> R" and self: "wk_reach (ev_compress ext) (ev_ser ext) (ev_de ext) cfg C ?w C T0" using wk_reach_self by blast+
  then have fl: "flushable (ev_compress ext) (block_size cfg) C" using assms(4) by (auto simp: flushable_def)
  note inv = wk_reach_inv [OF assms(1-3) fl self]
  have et: "en_tables ext C e" by (rule en_reach_tables [OF assms])
  then obtain tbs where t: "tabled (ev_compress ext) ?w tbs" "\<forall>x\<in>set tbs. set (snd x) \<subseteq> C" by (auto simp: en_tables_def tables_in_def)
  have "r \<in> set (mts_all (ww_memtables ?w)) \<or> (\<exists>x\<in>set tbs. forget_seq r \<in> forget_seq ` set (snd x))"
    if r: "r \<in> C" "T < expire_at r" for r
  proof (cases "r \<in> set (log_of (ww_wal ?w)) \<and> flushed_seq ?w < seq r")
    case True
    then show ?thesis using inv T0(1) r(2) by (force simp: wk_inv_def)
  next
    case False
    with inv T0(1) r obtain sid data where f: "map_of (sstables (mstate (ww_manifest ?w))) sid \<noteq> None" "ww_ssts ?w sid = Some data"
      "sst_holds (ev_decompress ext) sid data (forget_seq r)" by (force simp: stored_def)
    then obtain rs where rs: "(sid, rs) \<in> set tbs" using t(1) by (force simp: tabled_def map_of_eq_None_iff)
    have ok: "table_ok (ev_compress ext) ?w (sid, rs)" "set rs \<subseteq> C"
      using t(1) rs bspec [OF t(2) rs] by (simp_all add: tabled_def)
    have "forget_seq r \<in> forget_seq ` set rs"
      using inv fl by (intro held_in_table [OF assms(2) _ ok f(2,3)]) simp
    then show ?thesis using rs by force
  qed
  moreover have "mts_reach (ww_memtables ?w)" "set (mts_all (ww_memtables ?w)) \<subseteq> C" using inv by (auto simp: wk_inv_def)
  ultimately show thesis using that [of tbs] inv fl et t by (simp add: en_tables_def)
qed

lemma lookup_sound:
  assumes "json_ok (ev_ser ext) (ev_de ext)" "lz4_ok (ev_compress ext) (ev_decompress ext)" "lru_ok (ev_lru ext)" "validate cfg = Inr ()"
    and "flushable (ev_compress ext) (block_size cfg) R" "en_reach ext stack_size cfg R e C T"
    and "snd (get_bytes ext now_us k t e) = Some p"
  shows "\<exists>r\<in>C. key r = k \<and> ts r = t \<and> now_us \<le> expire_at r \<and> rop r \<noteq> Delete \<and> p = to_record r"
proof (rule en_reach_state [OF assms(1,2,4,5,3,6)])
  fix tbs
  let ?w = "en_worker e"
  assume s: "mts_reach (ww_memtables ?w)" "set (mts_all (ww_memtables ?w)) \<subseteq> C" "ww_config ?w = cfg"
    "flushable (ev_compress ext) (block_size cfg) C" "reads_ok ext e" "tabled (ev_compress ext) ?w tbs" "\<forall>x\<in>set tbs. set (snd x) \<subseteq> C"
  show ?thesis
  proof (cases "mts_get k t now_us (ww_memtables ?w)")
    case None
    then obtain c where c: "set c \<subseteq> C" "table_get now_us k t c = Some p"
      using get_bytes_from_table [OF assms(3,2) _ s(5-7) None assms(7)] s(3,4) by auto
    from table_get_some [OF c(2)] c(1) show ?thesis by (fastforce simp: version_def)
  next
    case (Some r)
    with mts_get_some [OF s(1) Some] s(2) assms(7) show ?thesis by (auto simp: get_bytes_def version_def split: if_splits)
  qed
qed

lemma lookup_found:
  assumes "json_ok (ev_ser ext) (ev_de ext)" "lz4_ok (ev_compress ext) (ev_decompress ext)" "lru_ok (ev_lru ext)" "validate cfg = Inr ()"
    and "flushable (ev_compress ext) (block_size cfg) R" "en_reach ext stack_size cfg R e C T"
    and "r \<in> C" "\<forall>x\<in>C. key x = key r \<longrightarrow> x = r" "rop r \<noteq> Delete" "T \<le> now_us" "now_us < expire_at r"
  shows "snd (get_bytes ext now_us (key r) (ts r) e) = Some (to_record r)"
proof (rule en_reach_state [OF assms(1,2,4,5,3,6)])
  fix tbs
  let ?w = "en_worker e"
  assume s: "mts_reach (ww_memtables ?w)" "set (mts_all (ww_memtables ?w)) \<subseteq> C" "ww_config ?w = cfg"
    "flushable (ev_compress ext) (block_size cfg) C" "reads_ok ext e" "tabled (ev_compress ext) ?w tbs" "\<forall>x\<in>set tbs. set (snd x) \<subseteq> C"
    "\<forall>r\<in>C. T < expire_at r \<longrightarrow> r \<in> set (mts_all (ww_memtables ?w)) \<or> (\<exists>x\<in>set tbs. forget_seq r \<in> forget_seq ` set (snd x))"
  have u: "x = r" if "x \<in> C" "version x = (key r, ts r)" for x using that assms(8) by (auto simp: version_def)
  show ?thesis
  proof (cases "mts_get (key r) (ts r) now_us (ww_memtables ?w)")
    case (Some x)
    with mts_get_some [OF s(1) Some] s(2) u have "x = r" by blast
    with Some assms(9) show ?thesis by (simp add: get_bytes_def)
  next
    case None
    have tab: "distinct (map seq (snd y))" "set (snd y) \<subseteq> C" if "y \<in> set tbs" for y
      using that s(6) bspec [OF s(7) that] by (auto simp: tabled_def table_ok_def)
    have "r \<notin> set (mts_all (ww_memtables ?w))"
      using mts_get_unique [OF s(1), of r "key r" "ts r" now_us] None s(2) u assms(11) by (auto simp: version_def)
    then obtain x y where x: "x \<in> set tbs" "y \<in> set (snd x)" and y: "forget_seq r = forget_seq y"
      using bspec [OF s(8) assms(7)] assms(10,11) by auto
    have "key y = key r" using arg_cong [OF y, of key] by (simp add: forget_seq_def)
    then have r: "r \<in> set (snd x)" using tab(2) [OF x(1)] x(2) assms(8) by auto
    have ob: "one_block (block_size cfg) (key r) (snd y)" if "y \<in> set tbs" for y
      using tab [OF that] assms(8) by (intro one_block_unique [of _ _ r]) (auto simp: distinct_map)
    have "first_some (\<lambda>x. table_get now_us (key r) (ts r) (snd x)) tbs = Some (to_record r)"
    proof (rule first_some_one [OF x(1)])
      show "table_get now_us (key r) (ts r) (snd x) = Some (to_record r)"
        using tab(2) [OF x(1)] r u assms(9,11) by (intro table_get_unique) (auto simp: version_def)
      show "p = to_record r" if "y \<in> set tbs" "table_get now_us (key r) (ts r) (snd y) = Some p" for y p
        using table_get_some [OF that(2)] tab(2) [OF that(1)] u by fastforce
    qed
    then show ?thesis using get_bytes_answer [OF assms(3,2) _ s(5,6) _ None, of C] s(3,4,7) ob by simp
  qed
qed

text \<open>An engine on an empty directory after one call that writes \<open>batch\<close>.\<close>

definition written_once :: "Record list \<Rightarrow> (nat \<times> (CacheKey \<times> InternalRecord list) list) Engine \<Rightarrow> bool" where
  "written_once batch e \<longleftrightarrow> (\<exists>e0. engine_open plain_ext 120 Config_default None = Inr e0 \<and> write_batch plain_ext 0 batch e0 = Some e)"

lemma plain_ext_ok:
  "json_ok (ev_ser plain_ext) (ev_de plain_ext)" "lz4_ok (ev_compress plain_ext) (ev_decompress plain_ext)" "lru_ok (ev_lru plain_ext)"
  "validate Config_default = Inr ()"
  using json_ok_unary one_delete_ok lru_ok_list by (simp_all add: plain_ext_def)

lemma written_once_state:
  assumes "batch \<noteq> []" "length batch < 1000" "recs = map (\<lambda>(i, b). from_record b (1000000 + i)) (enumerate 0 batch)"
    and "list_all wal_rec_ok recs" "sum_list (map estimated_size recs) < 64 * 1024 * 1024"
  obtains e where "written_once batch e" "en_reach plain_ext 120 Config_default (set recs) e (set recs) 0"
    "ww_memtables (en_worker e) = fold mts_insert recs (MemTables_new 2 (64 * 1024 * 1024))" "sst_blocks (ww_index (en_worker e)) = []"
proof -
  let ?cfg = Config_default
  have "\<exists>e0. engine_open plain_ext 120 ?cfg None = Inr e0"
    unfolding engine_open_def one_delete_ok(1) by (simp add: Let_def split_beta Config_default_def)
  then obtain e0 where e0: "engine_open plain_ext 120 ?cfg None = Inr e0" ..
  note o = open_empty [OF one_delete_ok(1) e0]
  have mts: "ww_memtables (en_worker e0) = MemTables_new 2 (64 * 1024 * 1024)" by (simp add: o worker_init_def Config_default_def)
  have rec: "recs = map (\<lambda>(i, b). from_record b ((1000000 + i) mod 2 ^ 64)) (enumerate 0 batch)"
    unfolding assms(3) by (rule enumerate_cong) (use assms(2) in simp)
  have r: "recs = snd (convert_records batch None e0)"
    by (simp add: rec convert_records_def fetch_add_def o worker_init_def Config_default_def from_record_def Let_def)
  have n: "fold mts_insert recs (MemTables_new 2 (64 * 1024 * 1024)) = ms \<Longrightarrow> \<not> should_flush ms" for ms
    using assms(5) by (auto simp: should_flush_def fold_insert_fields MemTables_new_def)
  have fw: "flush_while (ev_compress plain_ext) (ev_ser plain_ext) 0 (en_worker e0) = Some (en_worker e0)"
    by (subst flush_while.simps) (simp add: mts frozen_backpressure_def MemTables_new_def)
  have "write_batch plain_ext 0 batch e0 = do_write plain_ext 0 recs (e0\<lparr>en_seq_counter := (1000000 + length batch) mod 2 ^ 64\<rparr>)"
    using assms(1) by (simp add: write_batch_def write_batch_ttl_def fetch_add_def rec o worker_init_def Config_default_def Let_def from_record_def)
  then obtain e where e: "write_batch plain_ext 0 batch e0 = Some e"
    "ww_memtables (en_worker e) = fold mts_insert recs (MemTables_new 2 (64 * 1024 * 1024))" "ww_index (en_worker e) = ww_index (en_worker e0)"
    using fw n by (auto simp: do_write_def process_batch_group_def process_batch_inner_def mts Let_def)
  have "fits (set recs) e0 recs" using assms(2,4) by (simp add: fits_def o assms(3))
  then have "en_reach plain_ext 120 ?cfg (set recs) e ({} \<union> set recs) 0"
    using e(1) r by (intro er_write [OF er_open [OF e0, where T = 0]]) (simp_all add: write_batch_def)
  moreover have "sst_blocks (ww_index (en_worker e)) = []" by (simp add: e(3) o worker_init_def Index_new_def)
  ultimately show thesis using e0 e(1,2) by (intro that) (auto simp: written_once_def)
qed



section \<open>Versions lost by a flush\<close>

lemma first_some_same:
  assumes "xs \<noteq> []" "\<And>x. x \<in> set xs \<Longrightarrow> f x = Some r"
  shows "first_some f xs = Some r"
  using assms by (cases xs) auto

lemma one_block_short: "length rs \<le> bs \<Longrightarrow> one_block bs k rs"
  by (cases "rs = []") (simp_all add: one_block_def chunks.simps)

text \<open>Among the records of one version a table answers with the one of the least sequence number.\<close>

lemma table_get_oldest:
  assumes "sorted (map sort_ord rs)" "distinct (map seq rs)" "r \<in> set rs" "version r = (k, t)"
    and "\<And>x. x \<in> set rs \<Longrightarrow> version x = (k, t) \<Longrightarrow> seq r \<le> seq x" "now_us < expire_at r" "rop r \<noteq> Delete"
  shows "table_get now_us k t rs = Some (to_record r)"
proof -
  let ?xs = "filter (\<lambda>r. version r = (k, t)) rs"
  have ne: "?xs \<noteq> []" using assms(3,4) by (auto simp: filter_empty_conv)
  then have l: "last ?xs \<in> set ?xs" by (rule last_in_set)
  have "sorted (map sort_ord ?xs)" using assms(1) unfolding sorted_map by (rule sorted_wrt_filter)
  from sorted_first_last(2) [OF this, of r] assms(3,4) have "sort_ord r \<le> sort_ord (last ?xs)" by simp
  then have "seq (last ?xs) \<le> seq r" using l assms(4) by (auto simp: sort_ord_def version_def)
  then have "seq (last ?xs) = seq r" using assms(5) l by (auto intro: antisym)
  then have "last ?xs = r" using assms(2,3) l by (auto intro: distinct_map_eq)
  moreover have "rev ?xs = last ?xs # tl (rev ?xs)" using ne by (simp add: hd_rev [symmetric] del: hd_rev)
  ultimately have "rev ?xs = r # tl (rev ?xs)" by simp
  then show ?thesis using assms(4,6,7) by (auto simp: table_get_def to_record_def version_def split: list.split)
qed

text \<open>The first flush of an engine with nothing frozen: the unexpired records of the active table, sorted, are the one table.\<close>

lemma first_flush:
  assumes "tabled compress w []" "mts_reach (ww_memtables w)" "frozen (ww_memtables w) = []" "records (active (ww_memtables w)) \<noteq> []"
  obtains tbs where "tabled compress (do_flush compress ser now_us w) tbs"
    "\<forall>x\<in>set tbs. snd x = filter (\<lambda>r. now_us < expire_at r) (sort_key sort_ord (records (active (ww_memtables w))))"
    "mts_all (ww_memtables (do_flush compress ser now_us w)) = []"
proof -
  have p: "pop_frozen (fst (freeze (ww_memtables w)))
      = ((ww_memtables w)\<lparr>active := MemTable_new, frozen := []\<rparr>, Some (mt_sort (active (ww_memtables w))))"
    using assms(3,4) by (simp add: freeze_def pop_frozen_def)
  obtain new where n: "tabled compress (do_flush compress ser now_us w) ([] @ new)"
    "\<forall>(sid, rs)\<in>set new. \<exists>ms f. pop_frozen (fst (freeze (ww_memtables w))) = (ms, Some f) \<and> rs = filter (\<lambda>r. now_us < expire_at r) (records f)"
    using tabled_flush [OF assms(1,2), of ser now_us] by blast
  have "\<forall>x\<in>set new. snd x = filter (\<lambda>r. now_us < expire_at r) (sort_key sort_ord (records (active (ww_memtables w))))"
    using n(2) by (auto simp: p)
  then show thesis using n(1) by (intro that) (simp_all add: do_flush_memtables p mts_all_def MemTable_new_def)
qed

lemma tabled_ids: "tabled compress w a \<Longrightarrow> tabled compress w b \<Longrightarrow> a \<noteq> [] \<Longrightarrow> b \<noteq> []"
  by (auto simp: tabled_def)

lemma active_newest:
  assumes "mts_reach ms" "r \<in> set (records (active ms))" "version r = (k, t)" "now_us \<le> expire_at r"
    and "\<forall>x\<in>set (records (active ms)). version x = (k, t) \<longrightarrow> seq x \<le> seq r"
  shows "mts_get k t now_us ms = Some r"
proof -
  let ?a = "active ms"
  let ?vs = "filter (\<lambda>r. version r = (k, t)) (records ?a)"
  have mt: "mt_ok ?a" using mts_reach_ok [OF assms(1)] by (simp add: mts_ok_def)
  have "r \<in> set ?vs" using assms(2,3) by simp
  then obtain x where x: "max_by_key seq ?vs = Some x" by (cases "max_by_key seq ?vs") (auto simp: filter_empty_conv)
  have "x \<in> set ?vs" "seq r \<le> seq x" using max_by_key_in [OF x] max_by_key_max [OF x \<open>r \<in> set ?vs\<close>] by auto
  moreover from this have "seq x = seq r" using assms(5) by (auto intro: antisym)
  ultimately have "x = r" using assms(2) mt distinct_map_eq [of seq "records ?a" x r] by (simp add: mt_ok_def)
  then show ?thesis using x assms(4) by (simp add: mts_get_def mt_get_ok [OF mt])
qed

lemma flushed_oldest:
  assumes "json_ok (ev_ser ext) (ev_de ext)" "lz4_ok (ev_compress ext) (ev_decompress ext)" "lru_ok (ev_lru ext)" "validate cfg = Inr ()"
    and "flushable (ev_compress ext) (block_size cfg) R" "en_reach ext stack_size cfg R e C T" "T \<le> now_us"
    and "sst_blocks (ww_index (en_worker e)) = []" "frozen (ww_memtables (en_worker e)) = []"
    and a: "a = records (active (ww_memtables (en_worker e)))" "length a \<le> block_size cfg"
    and r: "r \<in> set a" "version r = (k, t)" "\<forall>x\<in>set a. version x = (k, t) \<longrightarrow> seq r \<le> seq x" "now_us < expire_at r" "rop r = Put"
  shows "snd (get_bytes ext now_us k t (engine_flush ext now_us e)) = Some (to_record r)"
proof -
  let ?w = "en_worker e" and ?f = "engine_flush ext now_us e"
  let ?rs = "filter (\<lambda>r. now_us < expire_at r) (sort_key sort_ord a)"
  obtain tb0 where s: "mts_reach (ww_memtables ?w)" "set (mts_all (ww_memtables ?w)) \<subseteq> C" "tabled (ev_compress ext) ?w tb0"
    by (rule en_reach_state [OF assms(1,2,4,5,3,6)])
  have f: "en_reach ext stack_size cfg R ?f C now_us" by (rule er_flush [OF assms(6,7)])
  obtain tb1 where q: "ww_config (en_worker ?f) = cfg" "flushable (ev_compress ext) (block_size cfg) C" "reads_ok ext ?f"
    "tabled (ev_compress ext) (en_worker ?f) tb1"
    "\<forall>r\<in>C. now_us < expire_at r \<longrightarrow> r \<in> set (mts_all (ww_memtables (en_worker ?f))) \<or> (\<exists>x\<in>set tb1. forget_seq r \<in> forget_seq ` set (snd x))"
    by (rule en_reach_state [OF assms(1,2,4,5,3) f])
  have w: "en_worker ?f = do_flush (ev_compress ext) (ev_ser ext) now_us ?w" by (simp add: engine_flush_def)
  have t0: "tabled (ev_compress ext) ?w []" using s(3) assms(8) by (auto simp: tabled_def)
  have nz: "records (active (ww_memtables ?w)) \<noteq> []" using r(1) a(1) by auto
  obtain tbs where t: "tabled (ev_compress ext) (en_worker ?f) tbs" "\<forall>x\<in>set tbs. snd x = ?rs" "mts_all (ww_memtables (en_worker ?f)) = []"
    unfolding w a(1) by (rule first_flush [OF t0 s(1) assms(9) nz])
  have "set a \<subseteq> C" using s(2) by (auto simp: mts_all_def a(1))
  then have "tb1 \<noteq> []" using q(5) r(1,4) t(3) by auto
  then have ne: "tbs \<noteq> []" using tabled_ids [OF q(4) t(1)] by blast
  have "mt_ok (mt_sort (active (ww_memtables ?w)))" using mts_reach_ok [OF s(1)] by (simp add: mts_ok_def)
  then have "distinct (map seq (sort_key sort_ord a))" by (simp add: mt_ok_def a(1))
  moreover have "sorted (map sort_ord ?rs)"
    unfolding sorted_map by (rule sorted_wrt_filter) (use sorted_sort_key [of sort_ord a] in \<open>simp only: sorted_map\<close>)
  ultimately have "table_get now_us k t ?rs = Some (to_record r)"
    using r by (intro table_get_oldest distinct_map_filter) auto
  then have fs: "first_some (\<lambda>x. table_get now_us k t (snd x)) tbs = Some (to_record r)" using t(2) ne by (intro first_some_same) auto
  have len: "length ?rs \<le> block_size cfg"
    using le_trans [OF length_filter_le, of "sort_key sort_ord a" "block_size cfg"] a(2) by simp
  have m: "mts_get k t now_us (ww_memtables (en_worker ?f)) = None"
    using mts_get_some [of "ww_memtables (en_worker ?f)" k t now_us] t(3) mts_reach_flush [OF s(1)]
    by (cases "mts_get k t now_us (ww_memtables (en_worker ?f))") (auto simp: w do_flush_memtables)
  have "\<forall>x\<in>set tbs. set (snd x) \<subseteq> C \<and> one_block (block_size (en_config ?f)) k (snd x)"
    using t(2) \<open>set a \<subseteq> C\<close> one_block_short [OF len] by (auto simp: q(1))
  from get_bytes_answer [OF assms(3,2) _ q(3) t(1) this m] q(1,2) fs show ?thesis by simp
qed



section \<open>Where the read calls disagree\<close>

lemma emit_in: "p \<in> set (emit tombs l rs) \<Longrightarrow> \<exists>r\<in>set rs. p = to_record r"
  by (induction rs arbitrary: l) (auto split: if_splits)

text \<open>A full scan of memory ends at the key \<^verbatim>\<open>"~"\<close>: without tables it returns no record with a greater key, so it misses every
  key that starts with a byte above 126 (any key beginning with a character outside ASCII) although \<^verbatim>\<open>get\<close> finds it.\<close>

theorem full_scan_misses_keys:
  assumes "mts_reach (ww_memtables (en_worker e))" "r \<in> set (records (active (ww_memtables (en_worker e))))"
    and "\<forall>x\<in>set (records (active (ww_memtables (en_worker e)))). version x = version r \<longrightarrow> seq x \<le> seq r"
    and "now_us \<le> expire_at r" "rop r = Put" "[126] < key r"
    and "ix_query (ww_index (en_worker e)) All None now_us = Some []"
    and "engine_scan ext now_us \<lparr>key_filter = All, time_range = None\<rparr> e = Some (e', it)" "length (sc_sources it) \<le> usize_max"
  shows "snd (get_bytes ext now_us (key r) (ts r) e) = Some (to_record r) \<and> to_record r \<notin> set (scan_collect it)"
proof
  have "mts_get (key r) (ts r) now_us (ww_memtables (en_worker e)) = Some r"
    using assms(1-4) by (intro active_newest) (auto simp: version_def)
  then show "snd (get_bytes ext now_us (key r) (ts r) e) = Some (to_record r)" using assms(5) by (simp add: get_bytes_def)
  obtain c where b: "scan_build (ev_lru ext) (ev_decompress ext) \<lparr>key_filter = All, time_range = None\<rparr> (ww_memtables (en_worker e))
      (ww_index (en_worker e)) (en_cache e) (en_readers e) (ww_ssts (en_worker e)) now_us = Some (c, it)"
    using assms(8) by (auto simp: engine_scan_def)
  have "key x \<le> [126]" if "x \<in> set (concat (sc_sources it))" for x
  proof (rule scan_build_parts [OF b])
    fix cands tombs0 srcs tombs
    assume i: "ix_query (ww_index (en_worker e)) (key_filter \<lparr>key_filter = All, time_range = None\<rparr>) (time_range \<lparr>key_filter = All, time_range = None\<rparr>) now_us = Some cands"
      and l: "(if is_full_scan \<lparr>key_filter = All, time_range = None\<rparr> then (en_cache e, load_full (ev_decompress ext) (en_readers e) (ww_ssts (en_worker e)) now_us cands tombs0)
        else load_filtered (ev_lru ext) (ev_decompress ext) (en_readers e) (ww_ssts (en_worker e)) \<lparr>key_filter = All, time_range = None\<rparr> now_us cands (en_cache e) tombs0)
        = (c, srcs, tombs)"
      and s: "sc_sources it = (if scan_mem \<lparr>key_filter = All, time_range = None\<rparr> (ww_memtables (en_worker e)) now_us \<noteq> []
        then [sort_key sort_ord (scan_mem \<lparr>key_filter = All, time_range = None\<rparr> (ww_memtables (en_worker e)) now_us)] else []) @ srcs"
    have "cands = []" using i assms(7) by simp
    then have "srcs = []" using l by (simp add: is_full_scan_def)
    then have "x \<in> set (scan_mem \<lparr>key_filter = All, time_range = None\<rparr> (ww_memtables (en_worker e)) now_us)"
      using that s by (auto split: if_splits)
    then show ?thesis by (auto simp: scan_mem_def mts_query_key_range_def mt_query_key_range_def)
  qed
  moreover obtain rs where rs: "scan_collect it = emit (sc_tombstones it) None rs" "mset rs = mset (concat (sc_sources it))"
    by (rule scan_collect_emit [OF b assms(9)])
  ultimately have "to_record r \<noteq> to_record x" if "x \<in> set rs" for x
    using that assms(6) mset_eq_setD [OF rs(2)] by (metis Record.ext_inject leD to_record_def)
  then show "to_record r \<notin> set (scan_collect it)" using emit_in [of "to_record r" "sc_tombstones it" None rs] rs(1) by auto
qed

theorem full_scan_misses_keys_witness:
  "\<exists>it. engine_scan plain_ext 0 \<lparr>key_filter = All, time_range = None\<rparr> (mem_engine [from_record (Record_new [200] 7 [6]) 2])
      = Some (mem_engine [from_record (Record_new [200] 7 [6]) 2], it)
    \<and> Record_new [200] 7 [6] \<notin> set (scan_collect it)"
proof -
  let ?q = "\<lparr>key_filter = All, time_range = None\<rparr>" and ?r = "from_record (Record_new [200] 7 [6]) 2"
  let ?e = "mem_engine [?r]"
  from mem_engine_scan [of ?q 0 "[?r]"] obtain it where it: "engine_scan plain_ext 0 ?q ?e = Some (?e, it)" "length (sc_sources it) \<le> 1" by auto
  have m: "mts_reach (ww_memtables (en_worker ?e))" "records (active (ww_memtables (en_worker ?e))) = [?r]"
    by (simp_all add: mem_engine_memtables mts_reach.intros) (simp add: mts_insert_def MemTables_new_def)
  have ix: "ix_query (ww_index (en_worker ?e)) All None 0 = Some []"
    by (simp add: mem_engine_def worker_init_def ix_query_def metas_of_def Index_new_def)
  have "to_record ?r \<notin> set (scan_collect it)"
    using full_scan_misses_keys [OF m(1) _ _ _ _ _ ix it(1), of ?r] m(2) it(2) by (simp add: i64_max_def Record_new_def usize_max_def)
  with it(1) show ?thesis by (auto simp: to_record_def Record_new_def)
qed

text \<open>\<^verbatim>\<open>get_latest\<close> returns deleted records: it leaves tombstones out before it looks for the greatest timestamp, so a record
  that was deleted (a later tombstone of the same version, for which \<^verbatim>\<open>get\<close> answers nothing) is the answer as long
  as both are in memory.\<close>

theorem get_latest_returns_deleted:
  assumes "mts_reach (ww_memtables (en_worker e))" "frozen (ww_memtables (en_worker e)) = []" "sst_blocks (ww_index (en_worker e)) = []"
    and "put \<in> set (records (active (ww_memtables (en_worker e))))" "del \<in> set (records (active (ww_memtables (en_worker e))))"
    and "\<forall>x\<in>set (records (active (ww_memtables (en_worker e)))). key x = key put \<longrightarrow> x = put \<or> x = del"
    and "version del = version put" "seq put < seq del" "rop put = Put" "rop del = Delete" "now_us \<le> expire_at put" "now_us \<le> expire_at del"
  shows "snd (get_bytes ext now_us (key put) (ts put) e) = None \<and> snd (get_latest ext now_us (key put) e) = Some (to_record put)"
proof
  let ?a = "active (ww_memtables (en_worker e))"
  have "mts_get (key put) (ts put) now_us (ww_memtables (en_worker e)) = Some del"
    using assms(1,5-8,12) by (intro active_newest) (auto simp: version_def)
  then show "snd (get_bytes ext now_us (key put) (ts put) e) = None" using assms(10) by (simp add: get_bytes_def)
  let ?xs = "filter (\<lambda>r. key r = key put \<and> now_us \<le> expire_at r \<and> rop r \<noteq> Delete \<and> rop r \<noteq> DeleteRange) (records ?a)"
  have "set ?xs = {put}" using assms(4,6,9-11) by auto
  then obtain y where y: "max_by_key (\<lambda>r. (ts r, seq r)) ?xs = Some y" by (cases "max_by_key (\<lambda>r. (ts r, seq r)) ?xs") (auto simp: filter_empty_conv)
  then have "y = put" using max_by_key_in [OF y] \<open>set ?xs = {put}\<close> by auto
  with y have "mts_get_latest (key put) now_us (ww_memtables (en_worker e)) = Some put"
    using assms(2) by (simp add: mts_get_latest_def mt_get_latest_def better_def)
  then show "snd (get_latest ext now_us (key put) e) = Some (to_record put)" using assms(3) by (simp add: get_latest_def Let_def)
qed

theorem get_latest_returns_deleted_witness:
  "snd (get_latest plain_ext 0 [1] (mem_engine [from_record (Record_new [1] 7 [6]) 2, delete_rec [1] 7 3])) = Some (Record_new [1] 7 [6])"
proof -
  let ?r = "from_record (Record_new [1] 7 [6]) 2" and ?d = "delete_rec [1] 7 3"
  let ?e = "mem_engine [?r, ?d]"
  have m: "records (active (ww_memtables (en_worker ?e))) = [?r, ?d]" "frozen (ww_memtables (en_worker ?e)) = []"
    by (simp_all add: mem_engine_memtables mts_insert_def MemTables_new_def)
  have "mts_reach (mts_insert ?d (mts_insert ?r (MemTables_new 2 (64 * 1024 * 1024))))"
    by (intro mts_reach.intros) (auto simp: mts_all_def mts_insert_def MemTables_new_def)
  then have r: "mts_reach (ww_memtables (en_worker ?e))" by (simp add: mem_engine_memtables)
  have ix: "sst_blocks (ww_index (en_worker ?e)) = []" by (simp add: mem_engine_def worker_init_def Index_new_def)
  from get_latest_returns_deleted [OF r m(2) ix, of ?r ?d 0] m(1) show ?thesis
    by (simp add: version_def Record_new_def to_record_def i64_max_def)
qed

end
