(* ===== verification/Stats.thy ===== *)
theory Stats
  imports Engine_Correct
begin

text \<open>
  The statistics of \<^verbatim>\<open>stats.rs\<close> and where the write worker, the collector, the compaction and the queries update
  them.  Each update is a function on the counters; the operations that carry them along run the
  operation of the worker and update the counters beside it, so that the two can be compared.  Counters are \<^verbatim>\<open>AtomicU64\<close>
  and wrap.  The histograms (\<^verbatim>\<open>hdrhistogram\<close>) and the floating-point ratios are parameters; the locks of the histograms are
  free, since each call is one step.
\<close>

section \<open>Counters\<close>

record ('h, 'f) stats_ops =
  h_new :: 'h
  h_record :: "nat \<Rightarrow> 'h \<Rightarrow> 'h option"
  h_percentile :: "nat \<Rightarrow> 'h \<Rightarrow> nat"
  f_ratio :: "nat \<Rightarrow> nat \<Rightarrow> 'f"
  f_permille :: "'f \<Rightarrow> nat"
  f_of_permille :: "nat \<Rightarrow> 'f"

record 'h StatsCounters =
  st_records_written :: nat
  st_bytes_written :: nat
  st_records_read :: nat
  st_records_expired :: nat
  st_flushes :: nat
  st_gc_runs :: nat
  st_compaction_runs :: nat
  st_purged :: nat
  st_udp_received :: nat
  st_udp_dropped :: nat
  st_http_requests :: nat
  st_memtable_records :: nat
  st_memtable_bytes :: nat
  st_frozen :: nat
  st_sst_count :: nat
  st_sst_bytes :: nat
  st_wal_bytes :: nat
  st_index_entries :: nat
  st_buckets :: nat
  st_permille :: nat
  st_started_at :: nat
  st_write_latency :: 'h
  st_query_latency :: 'h
  st_flush_latency :: 'h
  st_last_gc_at :: int
  st_last_flush_at :: int
  st_last_compaction_at :: int

definition Stats_new :: "('h, 'f) stats_ops \<Rightarrow> nat \<Rightarrow> 'h StatsCounters" where
  "Stats_new S instant =
     \<lparr>st_records_written = 0, st_bytes_written = 0, st_records_read = 0, st_records_expired = 0, st_flushes = 0, st_gc_runs = 0,
      st_compaction_runs = 0, st_purged = 0, st_udp_received = 0, st_udp_dropped = 0, st_http_requests = 0,
      st_memtable_records = 0, st_memtable_bytes = 0, st_frozen = 0, st_sst_count = 0, st_sst_bytes = 0, st_wal_bytes = 0,
      st_index_entries = 0, st_buckets = 0, st_permille = 1000, st_started_at = instant, st_write_latency = h_new S,
      st_query_latency = h_new S, st_flush_latency = h_new S, st_last_gc_at = 0, st_last_flush_at = 0, st_last_compaction_at = 0\<rparr>"

definition atomic_add :: "nat \<Rightarrow> nat \<Rightarrow> nat" where
  "atomic_add n x = (x + n) mod 2 ^ 64"

definition records_written :: "nat \<Rightarrow> nat \<Rightarrow> 'h StatsCounters \<Rightarrow> 'h StatsCounters" where
  "records_written n bytes c =
     c\<lparr>st_records_written := atomic_add n (st_records_written c), st_bytes_written := atomic_add bytes (st_bytes_written c)\<rparr>"

definition record_written :: "nat \<Rightarrow> 'h StatsCounters \<Rightarrow> 'h StatsCounters" where
  "record_written bytes c = records_written 1 bytes c"

definition records_read :: "nat \<Rightarrow> 'h StatsCounters \<Rightarrow> 'h StatsCounters" where
  "records_read n c = c\<lparr>st_records_read := atomic_add n (st_records_read c)\<rparr>"

definition records_expired :: "nat \<Rightarrow> 'h StatsCounters \<Rightarrow> 'h StatsCounters" where
  "records_expired n c = c\<lparr>st_records_expired := atomic_add n (st_records_expired c)\<rparr>"

definition flush_done :: "int \<Rightarrow> 'h StatsCounters \<Rightarrow> 'h StatsCounters" where
  "flush_done now_us c = c\<lparr>st_flushes := atomic_add 1 (st_flushes c), st_last_flush_at := now_us\<rparr>"

definition gc_done :: "int \<Rightarrow> nat \<Rightarrow> 'h StatsCounters \<Rightarrow> 'h StatsCounters" where
  "gc_done now_us purged c =
     c\<lparr>st_gc_runs := atomic_add 1 (st_gc_runs c), st_purged := atomic_add purged (st_purged c), st_last_gc_at := now_us\<rparr>"

definition compaction_done :: "int \<Rightarrow> 'h StatsCounters \<Rightarrow> 'h StatsCounters" where
  "compaction_done now_us c = c\<lparr>st_compaction_runs := atomic_add 1 (st_compaction_runs c), st_last_compaction_at := now_us\<rparr>"

definition set_memtable :: "nat \<Rightarrow> nat \<Rightarrow> 'h StatsCounters \<Rightarrow> 'h StatsCounters" where
  "set_memtable recs bytes c = c\<lparr>st_memtable_records := recs, st_memtable_bytes := bytes\<rparr>"

definition set_frozen_count :: "nat \<Rightarrow> 'h StatsCounters \<Rightarrow> 'h StatsCounters" where
  "set_frozen_count n c = c\<lparr>st_frozen := n\<rparr>"

definition set_sstable :: "nat \<Rightarrow> nat \<Rightarrow> 'h StatsCounters \<Rightarrow> 'h StatsCounters" where
  "set_sstable n bytes c = c\<lparr>st_sst_count := n, st_sst_bytes := bytes\<rparr>"

definition add_wal_bytes :: "nat \<Rightarrow> 'h StatsCounters \<Rightarrow> 'h StatsCounters" where
  "add_wal_bytes n c = c\<lparr>st_wal_bytes := atomic_add n (st_wal_bytes c)\<rparr>"

definition set_index_stats :: "nat \<Rightarrow> nat \<Rightarrow> 'h StatsCounters \<Rightarrow> 'h StatsCounters" where
  "set_index_stats entries buckets c = c\<lparr>st_index_entries := entries, st_buckets := buckets\<rparr>"

definition set_compression_ratio :: "('h, 'f) stats_ops \<Rightarrow> 'f \<Rightarrow> 'h StatsCounters \<Rightarrow> 'h StatsCounters" where
  "set_compression_ratio S ratio c = c\<lparr>st_permille := f_permille S ratio\<rparr>"

definition h_add :: "('h, 'f) stats_ops \<Rightarrow> nat \<Rightarrow> 'h \<Rightarrow> 'h" where
  "h_add S us h = (case h_record S us h of Some h' \<Rightarrow> h' | None \<Rightarrow> h)"

definition record_write_latency :: "('h, 'f) stats_ops \<Rightarrow> nat \<Rightarrow> 'h StatsCounters \<Rightarrow> 'h StatsCounters" where
  "record_write_latency S us c = c\<lparr>st_write_latency := h_add S us (st_write_latency c)\<rparr>"

definition record_query_latency :: "('h, 'f) stats_ops \<Rightarrow> nat \<Rightarrow> 'h StatsCounters \<Rightarrow> 'h StatsCounters" where
  "record_query_latency S us c = c\<lparr>st_query_latency := h_add S us (st_query_latency c)\<rparr>"

definition record_flush_latency :: "('h, 'f) stats_ops \<Rightarrow> nat \<Rightarrow> 'h StatsCounters \<Rightarrow> 'h StatsCounters" where
  "record_flush_latency S us c = c\<lparr>st_flush_latency := h_add S us (st_flush_latency c)\<rparr>"

lemmas stats_defs = records_written_def record_written_def records_read_def records_expired_def flush_done_def gc_done_def
  compaction_done_def set_memtable_def set_frozen_count_def set_sstable_def add_wal_bytes_def set_index_stats_def
  set_compression_ratio_def record_write_latency_def record_query_latency_def record_flush_latency_def

section \<open>Snapshots\<close>

definition histogram_percentiles :: "('h, 'f) stats_ops \<Rightarrow> 'h \<Rightarrow> nat \<times> nat \<times> nat" where
  "histogram_percentiles S h = (h_percentile S 50 h, h_percentile S 90 h, h_percentile S 99 h)"

record 'f EngineStats =
  es_records_written :: nat
  es_bytes_written :: nat
  es_records_read :: nat
  es_records_expired :: nat
  es_flushes :: nat
  es_gc_runs :: nat
  es_compaction_runs :: nat
  es_purged :: nat
  es_udp_received :: nat
  es_udp_dropped :: nat
  es_http_requests :: nat
  es_memtable_records :: nat
  es_memtable_bytes :: nat
  es_frozen :: nat
  es_sst_count :: nat
  es_sst_bytes :: nat
  es_wal_bytes :: nat
  es_index_entries :: nat
  es_buckets :: nat
  es_hit_rate :: 'f
  es_compression_ratio :: 'f
  es_write_latency :: "nat \<times> nat \<times> nat"
  es_query_latency :: "nat \<times> nat \<times> nat"
  es_flush_latency :: "nat \<times> nat \<times> nat"
  es_uptime_secs :: nat
  es_last_gc_at :: int
  es_last_flush_at :: int
  es_last_compaction_at :: int

text \<open>\<open>instant\<close> is the monotonic clock in microseconds; the three percentiles of a histogram are one field each.\<close>

definition stats_snapshot :: "('h, 'f) stats_ops \<Rightarrow> nat \<Rightarrow> 'f \<Rightarrow> 'h StatsCounters \<Rightarrow> 'f EngineStats" where
  "stats_snapshot S instant cache_hit_rate c =
     \<lparr>es_records_written = st_records_written c, es_bytes_written = st_bytes_written c, es_records_read = st_records_read c,
      es_records_expired = st_records_expired c, es_flushes = st_flushes c, es_gc_runs = st_gc_runs c,
      es_compaction_runs = st_compaction_runs c, es_purged = st_purged c, es_udp_received = st_udp_received c,
      es_udp_dropped = st_udp_dropped c, es_http_requests = st_http_requests c, es_memtable_records = st_memtable_records c,
      es_memtable_bytes = st_memtable_bytes c, es_frozen = st_frozen c, es_sst_count = st_sst_count c,
      es_sst_bytes = st_sst_bytes c, es_wal_bytes = st_wal_bytes c, es_index_entries = st_index_entries c,
      es_buckets = st_buckets c, es_hit_rate = cache_hit_rate, es_compression_ratio = f_of_permille S (st_permille c),
      es_write_latency = histogram_percentiles S (st_write_latency c),
      es_query_latency = histogram_percentiles S (st_query_latency c),
      es_flush_latency = histogram_percentiles S (st_flush_latency c), es_uptime_secs = (instant - st_started_at c) div 1000000,
      es_last_gc_at = st_last_gc_at c, es_last_flush_at = st_last_flush_at c, es_last_compaction_at = st_last_compaction_at c\<rparr>"

section \<open>Operations that update the counters\<close>

text \<open>\<open>refresh_stats\<close> is the same code in the collector, the compaction, the flush and at opening.\<close>

definition sst_total :: "WriteWorker \<Rightarrow> nat" where
  "sst_total w = sum_list (map (\<lambda>(_, info). sst_bytes info) (sstables (mstate (ww_manifest w)))) mod 2 ^ 64"

definition refresh_stats :: "WriteWorker \<Rightarrow> 'h StatsCounters \<Rightarrow> 'h StatsCounters" where
  "refresh_stats w c =
     set_index_stats (total_entries (ww_index w)) (bucket_count (ww_index w))
       (set_sstable (length (sstables (mstate (ww_manifest w)))) (sst_total w) c)"

definition update_stats :: "WriteWorker \<Rightarrow> 'h StatsCounters \<Rightarrow> 'h StatsCounters" where
  "update_stats w c =
     (let (n, bytes) = active_stats (ww_memtables w) in set_frozen_count (frozen_count (ww_memtables w)) (set_memtable n bytes c))"

definition open_stats :: "('h, 'f) stats_ops \<Rightarrow> nat \<Rightarrow> WriteWorker \<Rightarrow> 'h StatsCounters" where
  "open_stats S instant w = refresh_stats w (Stats_new S instant)"

text \<open>A flush; \<open>t\<close> and \<open>elapsed\<close> are the clock and the duration when it ends (the same for all flushes of one call).\<close>

definition flush_stats :: "('h, 'f) stats_ops \<Rightarrow> (bytes \<Rightarrow> bytes) \<Rightarrow> (ManifestEntry \<Rightarrow> string) \<Rightarrow> int \<Rightarrow> int \<Rightarrow> nat
    \<Rightarrow> WriteWorker \<times> 'h StatsCounters \<Rightarrow> WriteWorker \<times> 'h StatsCounters" where
  "flush_stats S compress ser now_us t elapsed = (\<lambda>(w, c).
     let w' = do_flush compress ser now_us w; (ms, fr) = pop_frozen (fst (freeze (ww_memtables w)))
     in (w',
         case fr of
           None \<Rightarrow> c
         | Some f \<Rightarrow>
             let all_records = filter (\<lambda>r. now_us < expire_at r) (records f)
             in if all_records = [] then set_frozen_count (frozen_count ms) c
                else let n = fst (snd (sst_write compress all_records (block_size (ww_config w)) (bloom_bits_per_key (ww_config w))));
                         raw_bytes = sum_list (map estimated_size all_records) mod 2 ^ 64;
                         c = (if raw_bytes > 0 then set_compression_ratio S (f_ratio S n raw_bytes) c else c);
                         c = record_flush_latency S elapsed (flush_done t c)
                     in update_stats w' (refresh_stats w' c)))"

definition inner_stats :: "Submission \<Rightarrow> WriteWorker \<times> 'h StatsCounters \<Rightarrow> WriteWorker \<times> 'h StatsCounters" where
  "inner_stats s = (\<lambda>(w, c).
     let mem_bytes = snd (encode_batch (sub_records s))
     in (process_batch_inner s w, records_written (length (sub_records s)) mem_bytes (add_wal_bytes mem_bytes c)))"

partial_function (option) flush_while_stats :: "('h, 'f) stats_ops \<Rightarrow> (bytes \<Rightarrow> bytes) \<Rightarrow> (ManifestEntry \<Rightarrow> string) \<Rightarrow> int \<Rightarrow> int
    \<Rightarrow> nat \<Rightarrow> WriteWorker \<times> 'h StatsCounters \<Rightarrow> (WriteWorker \<times> 'h StatsCounters) option" where
  "flush_while_stats S compress ser now_us t elapsed s =
     (if frozen_backpressure (ww_memtables (fst s))
      then flush_while_stats S compress ser now_us t elapsed (flush_stats S compress ser now_us t elapsed s)
      else Some s)"

definition group_stats :: "('h, 'f) stats_ops \<Rightarrow> (bytes \<Rightarrow> bytes) \<Rightarrow> (ManifestEntry \<Rightarrow> string) \<Rightarrow> int \<Rightarrow> int \<Rightarrow> nat
    \<Rightarrow> Submission list \<Rightarrow> WriteWorker \<times> 'h StatsCounters \<Rightarrow> (WriteWorker \<times> 'h StatsCounters) option" where
  "group_stats S compress ser now_us t elapsed subs s =
     map_option (\<lambda>s.
       let (w, c) = fold inner_stats subs s;
           w = (if \<exists>s\<in>set subs. sub_sync_mode s = Always then w\<lparr>ww_wal := wal_sync_all (ww_wal w)\<rparr> else w);
           c = update_stats w c
       in if should_flush (ww_memtables w) then flush_stats S compress ser now_us t elapsed (w, c) else (w, c))
     (flush_while_stats S compress ser now_us t elapsed s)"

definition gc_stats :: "'l lru_ops \<Rightarrow> (ManifestEntry \<Rightarrow> string) \<Rightarrow> nat list \<Rightarrow> int \<Rightarrow> int \<Rightarrow> (WriteWorker \<times> 'l BlockCache) \<times> 'h StatsCounters
    \<Rightarrow> (WriteWorker \<times> 'l BlockCache) \<times> 'h StatsCounters" where
  "gc_stats L ser order now_us t = (\<lambda>(s, c).
     let (s, purged) = gc_run L ser order now_us s in (s, refresh_stats (fst s) (gc_done t purged c)))"

text \<open>The counters after a compaction; it is counted only when it wrote records.\<close>

definition compaction_wrote :: "(bytes \<Rightarrow> bytes) \<Rightarrow> (bytes \<Rightarrow> nat \<Rightarrow> string + bytes) \<Rightarrow> int \<Rightarrow> CompactionRunner \<Rightarrow> WriteWorker \<Rightarrow> bool" where
  "compaction_wrote compress decompress now_us cr w =
     (let st = mstate (ww_manifest w); candidates = pick_compaction_candidates st (sort (active_sst_ids st))
      in case open_iterators now_us (ww_ssts w) candidates of
           Inl _ \<Rightarrow> False
         | Inr its \<Rightarrow>
             (let (its, heap) = prime_heap decompress 0 its [];
                  wr = StreamWriter_new (cr_block_size cr) (estimated_records st candidates) (cr_bloom_bits_per_key cr)
              in case compact_loop compress decompress heap its (None, 0, wr) of Some (_, n, _) \<Rightarrow> n > 0 | None \<Rightarrow> False))"

definition compaction_stats :: "'l lru_ops \<Rightarrow> (bytes \<Rightarrow> bytes) \<Rightarrow> (bytes \<Rightarrow> nat \<Rightarrow> string + bytes) \<Rightarrow> (ManifestEntry \<Rightarrow> string)
    \<Rightarrow> int \<Rightarrow> int \<Rightarrow> CompactionRunner \<Rightarrow> (WriteWorker \<times> 'l BlockCache) \<times> 'h StatsCounters
    \<Rightarrow> (((WriteWorker \<times> 'l BlockCache) \<times> 'h StatsCounters) \<times> bool) result option" where
  "compaction_stats L compress decompress ser now_us t cr = (\<lambda>(s, c).
     map_option (\<lambda>r. case r of
         Inl err \<Rightarrow> Inl err
       | Inr (s', did) \<Rightarrow>
           Inr ((s', if did then refresh_stats (fst s')
                       (if compaction_wrote compress decompress now_us cr (fst s) then compaction_done t c else c) else c), did))
       (compaction_run L compress decompress ser now_us cr s))"

definition query_stats :: "('h, 'f) stats_ops \<Rightarrow> 'l externals \<Rightarrow> int \<Rightarrow> nat \<Rightarrow> Query \<Rightarrow> 'l Engine \<times> 'h StatsCounters
    \<Rightarrow> (('l Engine \<times> 'h StatsCounters) \<times> Record list) option" where
  "query_stats S ext now_us elapsed q = (\<lambda>(e, c).
     map_option (\<lambda>(e, rs). ((e, records_read (length rs) (record_query_latency S elapsed c)), rs)) (engine_query ext now_us q e))"

section \<open>The counters do not influence the worker\<close>

lemma flush_stats_fst [simp]: "fst (flush_stats S compress ser now_us t elapsed s) = do_flush compress ser now_us (fst s)"
  by (simp add: flush_stats_def Let_def split: prod.split)

lemma inner_stats_fst: "fst (fold inner_stats subs s) = fold process_batch_inner subs (fst s)"
  by (induction subs arbitrary: s) (simp_all add: inner_stats_def Let_def split_beta)

lemma flush_while_stats_erase:
  assumes "flush_while_stats S compress ser now_us t elapsed s = Some s'"
  shows "flush_while compress ser now_us (fst s) = Some (fst s')"
proof -
  let ?P = "\<lambda>S c r n t e s y. flush_while c r n (fst s) = Some (fst y)"
  have "?P S compress ser now_us t elapsed s s'"
    by (rule flush_while_stats.raw_induct [where P = ?P, OF _ assms])
      (subst flush_while.simps, metis flush_stats_fst option.inject)
  then show ?thesis .
qed

lemma flush_while_lift:
  assumes "flush_while compress ser now_us w = Some w'"
  shows "\<exists>s'. flush_while_stats S compress ser now_us t elapsed (w, c) = Some s'"
proof -
  let ?P = "\<lambda>k r n w y. \<forall>c. \<exists>s'. flush_while_stats S k r n t elapsed (w, c) = Some s'"
  have "?P compress ser now_us w w'"
    by (rule flush_while.raw_induct [where P = ?P, OF _ assms], intro allI, subst flush_while_stats.simps)
      (metis flush_stats_fst fst_conv prod.collapse)
  then show ?thesis by blast
qed

lemma flush_while_stats_fst:
  "map_option fst (flush_while_stats S compress ser now_us t elapsed s) = flush_while compress ser now_us (fst s)"
proof (cases "flush_while_stats S compress ser now_us t elapsed s")
  case None
  then have "flush_while compress ser now_us (fst s) = None"
    using flush_while_lift [of compress ser now_us "fst s" _ S t elapsed "snd s"] by (cases "flush_while compress ser now_us (fst s)") auto
  with None show ?thesis by simp
qed (simp add: flush_while_stats_erase)

text \<open>The statistics never influence the engine: processing a group of batches with them leaves the worker as without them, and
  returns exactly when it does.\<close>

theorem statistics_erase:
  "map_option fst (group_stats S compress ser now_us t elapsed subs (w, c)) = process_batch_group compress ser now_us subs w"
proof -
  have "fst (case fold inner_stats subs s of (w, c) \<Rightarrow>
        let w = if \<exists>s\<in>set subs. sub_sync_mode s = Always then w\<lparr>ww_wal := wal_sync_all (ww_wal w)\<rparr> else w; c = update_stats w c
        in if should_flush (ww_memtables w) then flush_stats S compress ser now_us t elapsed (w, c) else (w, c))
      = (let w = fold process_batch_inner subs (fst s);
           w = (if \<exists>s\<in>set subs. sub_sync_mode s = Always then w\<lparr>ww_wal := wal_sync_all (ww_wal w)\<rparr> else w)
       in if should_flush (ww_memtables w) then do_flush compress ser now_us w else w)" for s :: "WriteWorker \<times> 'a StatsCounters"
    using inner_stats_fst [of subs s] by (cases "fold inner_stats subs s") (simp add: Let_def)
  then show ?thesis
    unfolding group_stats_def process_batch_group_def flush_while_stats_fst [of S compress ser now_us t elapsed "(w, c)", simplified fst_conv, symmetric]
    by (simp add: option.map_comp comp_def)
qed

section \<open>What the counters say\<close>

definition gauges_ok :: "WriteWorker \<times> 'h StatsCounters \<Rightarrow> bool" where
  "gauges_ok = (\<lambda>(w, c). st_sst_count c = length (sstables (mstate (ww_manifest w))) \<and> st_sst_bytes c = sst_total w
     \<and> st_index_entries c = total_entries (ww_index w) \<and> st_buckets c = bucket_count (ww_index w))"

definition tallies :: "'h StatsCounters \<Rightarrow> nat \<times> nat \<times> nat" where
  "tallies c = (st_records_written c, st_bytes_written c, st_wal_bytes c)"

lemma refresh_stats [simp]: "gauges_ok (w, refresh_stats w c)" "tallies (refresh_stats w c) = tallies c"
  by (simp_all add: gauges_ok_def refresh_stats_def stats_defs tallies_def)

lemma update_stats [simp]: "gauges_ok (w, update_stats w' c) = gauges_ok (w, c)" "tallies (update_stats w' c) = tallies c"
  by (simp_all add: gauges_ok_def update_stats_def stats_defs tallies_def split: prod.split)

lemma done_tallies [simp]: "tallies (gc_done t n c) = tallies c" "tallies (compaction_done t c) = tallies c"
  by (simp_all add: tallies_def stats_defs)

lemma flush_stats_ok:
  fixes s :: "WriteWorker \<times> 'h StatsCounters"
  assumes "gauges_ok s"
  shows "gauges_ok (flush_stats S compress ser now_us t elapsed s) \<and> tallies (snd (flush_stats S compress ser now_us t elapsed s)) = tallies (snd s)"
proof -
  obtain w c where s: "s = (w, c)" by fastforce
  obtain ms fr where p: "pop_frozen (fst (freeze (ww_memtables w))) = (ms, fr)" by fastforce
  show ?thesis
  proof (cases "fr = None \<or> filter (\<lambda>r. now_us < expire_at r) (records (the fr)) = []")
    case True
    then have "do_flush compress ser now_us w = w\<lparr>ww_memtables := ms\<rparr>" by (cases fr) (auto simp: do_flush_def p Let_def)
    with True assms show ?thesis
      by (cases fr) (auto simp: s flush_stats_def p gauges_ok_def tallies_def set_frozen_count_def sst_total_def)
  next
    case False
    then show ?thesis by (auto simp: s flush_stats_def p Let_def) (simp_all add: tallies_def stats_defs)
  qed
qed

lemma flush_while_stats_ok:
  assumes "flush_while_stats S compress ser now_us t elapsed s = Some s'" "gauges_ok s"
  shows "gauges_ok s' \<and> tallies (snd s') = tallies (snd s)"
proof -
  let ?P = "\<lambda>S c r n t e s y. gauges_ok s \<longrightarrow> gauges_ok y \<and> tallies (snd y) = tallies (snd s)"
  have "?P S compress ser now_us t elapsed s s'"
    by (rule flush_while_stats.raw_induct [where P = ?P, OF _ assms(1)]) (metis flush_stats_ok option.inject)
  with assms(2) show ?thesis by blast
qed

text \<open>The tallies after more records: their number, their sizes, and their sizes again as bytes of the log.\<close>

definition add_tallies :: "InternalRecord list \<Rightarrow> nat \<times> nat \<times> nat \<Rightarrow> nat \<times> nat \<times> nat" where
  "add_tallies rs = (\<lambda>(n, b, l). (atomic_add (length rs) n, atomic_add (sum_list (map estimated_size rs)) b,
     atomic_add (sum_list (map estimated_size rs)) l))"

lemma add_tallies_append: "add_tallies ys (add_tallies xs x) = add_tallies (xs @ ys) x"
  by (simp add: add_tallies_def atomic_add_def mod_simps ac_simps split: prod.split)

lemma encode_batch_mem: "snd (encode_batch_loop rs buf m) = m + sum_list (map estimated_size rs)"
  by (induction rs arbitrary: buf m) simp_all

lemma inner_stats_ok:
  assumes "gauges_ok s"
  shows "gauges_ok (inner_stats x s) \<and> tallies (snd (inner_stats x s)) = add_tallies (sub_records x) (tallies (snd s))"
  using assms
  by (cases s) (simp add: inner_stats_def Let_def gauges_ok_def process_batch_inner_def sst_total_def tallies_def add_tallies_def
      stats_defs encode_batch_def encode_batch_mem)

lemma tallies_add_Nil [simp]: "add_tallies [] (add_tallies rs x) = add_tallies rs x"
  by (simp add: add_tallies_append)

lemma fold_inner_stats_ok:
  assumes "gauges_ok s" "tallies (snd s) = add_tallies h (0, 0, 0)"
  shows "gauges_ok (fold inner_stats subs s) \<and> tallies (snd (fold inner_stats subs s)) = add_tallies (h @ concat (map sub_records subs)) (0, 0, 0)"
  using assms
proof (induction subs arbitrary: s h)
  case (Cons x subs)
  show ?case using Cons.IH [of "inner_stats x s" "h @ sub_records x"] inner_stats_ok [OF Cons.prems(1), of x] Cons.prems(2)
    by (simp add: add_tallies_append)
qed simp

lemma group_stats_ok:
  assumes "group_stats S compress ser now_us t elapsed subs s = Some s'" "gauges_ok s" "tallies (snd s) = add_tallies h (0, 0, 0)"
  shows "gauges_ok s' \<and> tallies (snd s') = add_tallies (h @ concat (map sub_records subs)) (0, 0, 0)"
proof -
  obtain s1 where f: "flush_while_stats S compress ser now_us t elapsed s = Some s1" using assms(1) by (auto simp: group_stats_def)
  obtain w c where i: "fold inner_stats subs s1 = (w, c)" by fastforce
  define w' where "w' = (if \<exists>s\<in>set subs. sub_sync_mode s = Always then w\<lparr>ww_wal := wal_sync_all (ww_wal w)\<rparr> else w)"
  have "gauges_ok (w, c) \<and> tallies c = add_tallies (h @ concat (map sub_records subs)) (0, 0, 0)"
    using fold_inner_stats_ok [of s1 h subs] flush_while_stats_ok [OF f assms(2)] assms(3) i by simp
  moreover have "gauges_ok (w', c) = gauges_ok (w, c)" by (simp add: w'_def gauges_ok_def sst_total_def)
  ultimately have g: "gauges_ok (w', update_stats w' c)"
    "tallies (update_stats w' c) = add_tallies (h @ concat (map sub_records subs)) (0, 0, 0)" by simp_all
  have "s' = (if should_flush (ww_memtables w') then flush_stats S compress ser now_us t elapsed (w', update_stats w' c) else (w', update_stats w' c))"
    unfolding w'_def using assms(1) f i by (cases "\<exists>s\<in>set subs. sub_sync_mode s = Always") (auto simp: group_stats_def Let_def)
  then show ?thesis using g flush_stats_ok [OF g(1), of S compress ser now_us t elapsed] by simp
qed

text \<open>The runs of an engine with its statistics: opened with any worker, then groups of batches, flushes, collections and
  compactions in any order; \<open>h\<close> are the records written since the opening.\<close>

inductive stats_run :: "('h, 'f) stats_ops \<Rightarrow> 'l externals \<Rightarrow> (WriteWorker \<times> 'l BlockCache) \<times> 'h StatsCounters \<Rightarrow> InternalRecord list \<Rightarrow> bool"
  for S ext where
  sr_open: "stats_run S ext ((w, b), open_stats S instant w) []"
| sr_group: "stats_run S ext ((w, b), c) h \<Longrightarrow>
    group_stats S (ev_compress ext) (ev_ser ext) now_us t elapsed subs (w, c) = Some (w', c') \<Longrightarrow>
    stats_run S ext ((w', b), c') (h @ concat (map sub_records subs))"
| sr_flush: "stats_run S ext ((w, b), c) h \<Longrightarrow> flush_stats S (ev_compress ext) (ev_ser ext) now_us t elapsed (w, c) = (w', c') \<Longrightarrow>
    stats_run S ext ((w', b), c') h"
| sr_gc: "stats_run S ext s h \<Longrightarrow> stats_run S ext (gc_stats (ev_lru ext) (ev_ser ext) order now_us t s) h"
| sr_compaction: "stats_run S ext s h \<Longrightarrow>
    compaction_stats (ev_lru ext) (ev_compress ext) (ev_decompress ext) (ev_ser ext) now_us t cr s = Some (Inr (s', did)) \<Longrightarrow>
    stats_run S ext s' h"

lemma compaction_not_done:
  "compaction_run L compress decompress ser now_us cr s = Some (Inr (s', False)) \<Longrightarrow> s' = s"
  by (auto simp: compaction_run_def Let_def split: if_splits sum.splits list.splits prod.splits option.splits)

text \<open>C37. What the statistics say in every run: the number and the size of the tables and the entries and buckets of the block
  index are those of the manifest and the index; the written records and bytes are those of all batches since the
  opening, modulo \<open>2^64\<close>; and the bytes of the log are the written bytes again: they count the sizes of the records in memory, not those
  of their encodings, and are never reduced when the log is truncated.\<close>

theorem statistics_current:
  assumes "stats_run S ext ((w, b), c) h"
  shows "st_sst_count c = length (sstables (mstate (ww_manifest w))) \<and> st_sst_bytes c = sst_total w
    \<and> st_index_entries c = total_entries (ww_index w) \<and> st_buckets c = bucket_count (ww_index w)
    \<and> st_records_written c = length h mod 2 ^ 64 \<and> st_bytes_written c = sum_list (map estimated_size h) mod 2 ^ 64
    \<and> st_wal_bytes c = st_bytes_written c"
proof -
  have "gauges_ok (fst (fst s), snd s) \<and> tallies (snd s) = add_tallies h (0, 0, 0)" if "stats_run S ext s h" for s h
    using that
  proof (induction rule: stats_run.induct)
    case (sr_open w b instant)
    show ?case by (simp add: open_stats_def add_tallies_def atomic_add_def) (simp add: tallies_def Stats_new_def)
  next
    case (sr_group w b c h now_us t elapsed subs w' c')
    then show ?case using group_stats_ok [OF sr_group.hyps(2)] by simp
  next
    case (sr_flush w b c h now_us t elapsed w' c')
    then show ?case using flush_stats_ok [of "(w, c)" S "ev_compress ext" "ev_ser ext" now_us t elapsed] by simp
  next
    case (sr_gc s h order now_us t)
    then show ?case by (cases s) (auto simp: gc_stats_def split: prod.split)
  next
    case (sr_compaction s h now_us t cr s' did)
    obtain x c where s: "s = (x, c)" by fastforce
    let ?run = "compaction_run (ev_lru ext) (ev_compress ext) (ev_decompress ext) (ev_ser ext) now_us cr x"
    from sr_compaction.hyps(2) obtain z where z: "?run = Some z" by (auto simp: s compaction_stats_def)
    then obtain x' where
      r: "?run = Some (Inr (x', did))"
      "s' = (x', if did then refresh_stats (fst x')
          (if compaction_wrote (ev_compress ext) (ev_decompress ext) now_us cr (fst x) then compaction_done t c else c) else c)"
      using sr_compaction.hyps(2) by (cases z) (auto simp: s compaction_stats_def)
    from r(1) have "did \<or> x' = x" by (cases did) (auto dest: compaction_not_done)
    with sr_compaction.IH r(2) show ?case by (cases did) (auto simp: s)
  qed
  from this [OF assms] show ?thesis by (simp add: gauges_ok_def tallies_def add_tallies_def atomic_add_def)
qed

definition tick_ops :: "(nat list, nat \<times> nat) stats_ops" where
  "tick_ops = \<lparr>h_new = [], h_record = \<lambda>n h. Some (n # h), h_percentile = \<lambda>p h. foldr max h 0, f_ratio = Pair,
     f_permille = (\<lambda>(a, b). 1000 * a div b), f_of_permille = \<lambda>n. (n, 1000)\<rparr>"

theorem statistics_current_witness:
  "\<exists>w b c. stats_run tick_ops plain_ext ((w, b), c) [from_record (Record_new [1] 5 [7]) 1]
    \<and> st_records_written c = 1 \<and> st_wal_bytes c = estimated_size (from_record (Record_new [1] 5 [7]) 1)"
proof -
  let ?r = "from_record (Record_new [1] 5 [7]) 1" and ?w = "worker_init unary_de Config_default"
  let ?s = "\<lparr>sub_records = [?r], sub_wal_buf = fst (encode_batch [?r]), sub_batch_max_seq = 1, sub_sync_mode = Always\<rparr>"
  have "flush_while_stats tick_ops compress ser 0 0 0 (?w, c) = Some (?w, c)" for compress ser c
    by (subst flush_while_stats.simps) (simp add: worker_init_def frozen_backpressure_def MemTables_new_def Config_default_def)
  then obtain w c where "group_stats tick_ops (ev_compress plain_ext) (ev_ser plain_ext) 0 0 0 [?s] (?w, open_stats tick_ops 0 ?w) = Some (w, c)"
    by (fastforce simp: group_stats_def)
  from sr_group [OF sr_open this] have "stats_run tick_ops plain_ext ((w, b), c) [?r]" for b by simp
  from this statistics_current [OF this] show ?thesis by (fastforce simp: estimated_size_def Record_new_def)
qed

end
