(* ===== verification/Prometheus.thy ===== *)
theory Prometheus
  imports Stats
begin

text \<open>
  The text export of the statistics, \<^verbatim>\<open>to_prometheus\<close> with \<^verbatim>\<open>prometheus_template.txt\<close>.  The template is a sequence of
  blocks of one shape, so each block is an application of \<open>metric\<close> or \<open>summary\<close>.  The \<^verbatim>\<open>Display\<close> of a float is the parameter \<open>show_f\<close>.
\<close>

section \<open>The text\<close>

abbreviation newline :: char where
  "newline \<equiv> CHR 0x0A"

definition metric :: "string \<Rightarrow> string \<Rightarrow> string \<Rightarrow> string \<Rightarrow> string" where
  "metric name descr kind v =
     ''# HELP '' @ name @ '' '' @ descr @ [newline] @ ''# TYPE '' @ name @ '' '' @ kind @ [newline] @ name @ '' '' @ v @ [newline]"

definition quantile :: "string \<Rightarrow> string \<Rightarrow> nat \<Rightarrow> string" where
  "quantile name q v = name @ ''{quantile=\"'' @ q @ ''\"} '' @ show_nat v @ [newline]"

definition summary :: "string \<Rightarrow> string \<Rightarrow> nat \<times> nat \<times> nat \<Rightarrow> string" where
  "summary name descr = (\<lambda>(p50, p90, p99).
     ''# HELP '' @ name @ '' '' @ descr @ [newline] @ ''# TYPE '' @ name @ '' summary'' @ [newline]
     @ quantile name ''0.5'' p50 @ quantile name ''0.9'' p90 @ quantile name ''0.99'' p99)"

definition to_prometheus :: "('h, 'f) stats_ops \<Rightarrow> ('f \<Rightarrow> string) \<Rightarrow> nat \<Rightarrow> 'f \<Rightarrow> 'h StatsCounters \<Rightarrow> string" where
  "to_prometheus S show_f instant cache_hit_rate c =
     (let s = stats_snapshot S instant cache_hit_rate c
      in metric ''flowdb_records_written'' ''Total records written'' ''counter'' (show_nat (es_records_written s))
       @ metric ''flowdb_bytes_written'' ''Total bytes written'' ''counter'' (show_nat (es_bytes_written s))
       @ metric ''flowdb_records_read'' ''Total records read'' ''counter'' (show_nat (es_records_read s))
       @ metric ''flowdb_records_expired'' ''Total records expired'' ''counter'' (show_nat (es_records_expired s))
       @ metric ''flowdb_flushes_total'' ''Total flushes'' ''counter'' (show_nat (es_flushes s))
       @ metric ''flowdb_gc_runs_total'' ''Total GC runs'' ''counter'' (show_nat (es_gc_runs s))
       @ metric ''flowdb_compaction_runs_total'' ''Total compaction runs'' ''counter'' (show_nat (es_compaction_runs s))
       @ metric ''flowdb_records_purged_by_gc'' ''Records purged by GC'' ''counter'' (show_nat (es_purged s))
       @ metric ''flowdb_udp_packets_received'' ''UDP packets received'' ''counter'' (show_nat (es_udp_received s))
       @ metric ''flowdb_udp_packets_dropped'' ''UDP packets dropped'' ''counter'' (show_nat (es_udp_dropped s))
       @ metric ''flowdb_http_requests_total'' ''HTTP requests total'' ''counter'' (show_nat (es_http_requests s))
       @ metric ''flowdb_memtable_records'' ''Current memtable records'' ''gauge'' (show_nat (es_memtable_records s))
       @ metric ''flowdb_memtable_bytes'' ''Current memtable bytes'' ''gauge'' (show_nat (es_memtable_bytes s))
       @ metric ''flowdb_frozen_memtable_count'' ''Frozen memtable count'' ''gauge'' (show_nat (es_frozen s))
       @ metric ''flowdb_sstable_count'' ''SSTable count'' ''gauge'' (show_nat (es_sst_count s))
       @ metric ''flowdb_sstable_bytes'' ''SSTable total bytes'' ''gauge'' (show_nat (es_sst_bytes s))
       @ metric ''flowdb_wal_bytes'' ''WAL bytes'' ''gauge'' (show_nat (es_wal_bytes s))
       @ metric ''flowdb_block_meta_index_entries'' ''Block meta index entries'' ''gauge'' (show_nat (es_index_entries s))
       @ metric ''flowdb_time_index_buckets'' ''Time index buckets'' ''gauge'' (show_nat (es_buckets s))
       @ metric ''flowdb_block_cache_hit_rate'' ''Block cache hit rate'' ''gauge'' (show_f (es_hit_rate s))
       @ metric ''flowdb_compression_ratio'' ''Compression ratio'' ''gauge'' (show_f (es_compression_ratio s))
       @ summary ''flowdb_write_latency_us'' ''Write latency microseconds'' (es_write_latency s)
       @ summary ''flowdb_query_latency_us'' ''Query latency microseconds'' (es_query_latency s)
       @ summary ''flowdb_flush_latency_us'' ''Flush latency microseconds'' (es_flush_latency s)
       @ metric ''flowdb_uptime_seconds'' ''Uptime in seconds'' ''gauge'' (show_nat (es_uptime_secs s)))"

section \<open>Reading it back\<close>

text \<open>The lines of a text, and its samples: the lines that are no comments, split at the first space.\<close>

function text_lines :: "string \<Rightarrow> string list" where
  "text_lines s = (if s = [] then [] else takeWhile (\<lambda>c. c \<noteq> newline) s # text_lines (drop 1 (dropWhile (\<lambda>c. c \<noteq> newline) s)))"
  by pat_completeness auto
termination
  by (relation "measure length") (auto simp: length_dropWhile_le le_imp_less_Suc intro: diff_less order.strict_trans1 [OF diff_le_mono [OF length_dropWhile_le]])

declare text_lines.simps [simp del]

definition sample :: "string \<Rightarrow> string \<times> string" where
  "sample l = (takeWhile (\<lambda>c. c \<noteq> CHR '' '') l, drop 1 (dropWhile (\<lambda>c. c \<noteq> CHR '' '') l))"

definition samples :: "string \<Rightarrow> (string \<times> string) list" where
  "samples s = map sample (filter (\<lambda>l. hd l \<noteq> CHR ''#'') (text_lines s))"

lemma text_lines_Cons:
  assumes "newline \<notin> set l" "l \<noteq> []"
  shows "text_lines (l @ newline # rest) = l # text_lines rest"
proof -
  have "takeWhile (\<lambda>c. c \<noteq> newline) (l @ newline # rest) = l" "dropWhile (\<lambda>c. c \<noteq> newline) (l @ newline # rest) = newline # rest"
    using assms(1) by (subst takeWhile_append2 dropWhile_append2; auto)+
  then show ?thesis by (subst text_lines.simps) simp
qed

lemma samples_comment: "newline \<notin> set l \<Longrightarrow> samples (CHR ''#'' # l @ newline # rest) = samples rest"
  using text_lines_Cons [of "CHR ''#'' # l" rest] by (simp add: samples_def)

lemma samples_value:
  assumes "newline \<notin> set n" "CHR '' '' \<notin> set n" "n \<noteq> []" "hd n \<noteq> CHR ''#''" "newline \<notin> set v"
  shows "samples (n @ CHR '' '' # v @ newline # rest) = (n, v) # samples rest"
proof -
  have "takeWhile (\<lambda>c. c \<noteq> CHR '' '') (n @ CHR '' '' # v) = n" "dropWhile (\<lambda>c. c \<noteq> CHR '' '') (n @ CHR '' '' # v) = CHR '' '' # v"
    using assms(2) by (subst takeWhile_append2 dropWhile_append2; auto)+
  then show ?thesis using text_lines_Cons [of "n @ CHR '' '' # v" rest] assms by (simp add: samples_def sample_def)
qed

lemma show_nat_digits: "c \<in> set (show_nat n) \<Longrightarrow> c \<noteq> newline"
proof (induction n rule: show_nat.induct)
  case (1 n)
  have d: "char_of (48 + k) \<noteq> newline" if "k < 10" for k :: nat
  proof
    assume "char_of (48 + k) = newline"
    then have "of_char (char_of (48 + k) :: char) = (10 :: nat)" by simp
    then show False using that by simp
  qed
  show ?case using 1 d [of n] d [of "n mod 10"] by (subst (asm) (2) show_nat.simps) (auto split: if_splits)
qed

text \<open>A name of the export.\<close>

definition name_ok :: "string \<Rightarrow> bool" where
  "name_ok n \<longleftrightarrow> n \<noteq> [] \<and> list_all (\<lambda>c. c \<noteq> newline \<and> c \<noteq> CHR '' '' \<and> c \<noteq> CHR ''#'') n"

lemma name_okD: "name_ok n \<Longrightarrow> newline \<notin> set n \<and> CHR '' '' \<notin> set n \<and> n \<noteq> [] \<and> hd n \<noteq> CHR ''#''"
  by (cases n) (auto simp: name_ok_def list_all_iff)

lemma samples_metric:
  assumes "name_ok n" "newline \<notin> set descr" "newline \<notin> set kind" "newline \<notin> set v"
  shows "samples (metric n descr kind v @ rest) = (n, v) # samples rest"
proof -
  have "newline \<notin> set ('' HELP '' @ n @ '' '' @ descr)" "newline \<notin> set ('' TYPE '' @ n @ '' '' @ kind)"
    using name_okD [OF assms(1)] assms(2,3) by auto
  from samples_comment [OF this(1), of "''# TYPE '' @ n @ '' '' @ kind @ [newline] @ n @ '' '' @ v @ newline # rest"]
    samples_comment [OF this(2), of "n @ '' '' @ v @ newline # rest"] samples_value [of n v rest] name_okD [OF assms(1)] assms(4)
  show ?thesis by (simp add: metric_def)
qed

lemma samples_summary:
  assumes "name_ok n" "newline \<notin> set descr"
  shows "samples (summary n descr (a, b, c) @ rest)
    = (n @ ''{quantile=\"0.5\"}'', show_nat a) # (n @ ''{quantile=\"0.9\"}'', show_nat b) # (n @ ''{quantile=\"0.99\"}'', show_nat c) # samples rest"
proof -
  have q: "samples (quantile n p v @ r) = (n @ ''{quantile=\"'' @ p @ ''\"}'', show_nat v) # samples r"
    if "newline \<notin> set p" "CHR '' '' \<notin> set p" for p v r
    using samples_value [of "n @ ''{quantile=\"'' @ p @ ''\"}''" "show_nat v" r] name_okD [OF assms(1)] show_nat_digits that
    by (auto simp: quantile_def hd_append)
  have "newline \<notin> set ('' HELP '' @ n @ '' '' @ descr)" "newline \<notin> set ('' TYPE '' @ n @ '' summary'')"
    using name_okD [OF assms(1)] assms(2) by auto
  from samples_comment [OF this(1), of "''# TYPE '' @ n @ '' summary'' @ [newline] @ quantile n ''0.5'' a @ quantile n ''0.9'' b @ quantile n ''0.99'' c @ rest"]
    samples_comment [OF this(2), of "quantile n ''0.5'' a @ quantile n ''0.9'' b @ quantile n ''0.99'' c @ rest"]
  show ?thesis by (simp add: summary_def q)
qed

lemma samples_Nil: "samples [] = []"
  by (simp add: samples_def text_lines.simps)

text \<open>Reading the samples of the export back gives every counter under its metric name, in the order of the template.\<close>

theorem prometheus_samples:
  assumes "\<And>f. newline \<notin> set (show_f f)"
  shows "samples (to_prometheus S show_f instant cache_hit_rate c) =
     [(''flowdb_records_written'', show_nat (st_records_written c)),
      (''flowdb_bytes_written'', show_nat (st_bytes_written c)),
      (''flowdb_records_read'', show_nat (st_records_read c)),
      (''flowdb_records_expired'', show_nat (st_records_expired c)),
      (''flowdb_flushes_total'', show_nat (st_flushes c)),
      (''flowdb_gc_runs_total'', show_nat (st_gc_runs c)),
      (''flowdb_compaction_runs_total'', show_nat (st_compaction_runs c)),
      (''flowdb_records_purged_by_gc'', show_nat (st_purged c)),
      (''flowdb_udp_packets_received'', show_nat (st_udp_received c)),
      (''flowdb_udp_packets_dropped'', show_nat (st_udp_dropped c)),
      (''flowdb_http_requests_total'', show_nat (st_http_requests c)),
      (''flowdb_memtable_records'', show_nat (st_memtable_records c)),
      (''flowdb_memtable_bytes'', show_nat (st_memtable_bytes c)),
      (''flowdb_frozen_memtable_count'', show_nat (st_frozen c)),
      (''flowdb_sstable_count'', show_nat (st_sst_count c)),
      (''flowdb_sstable_bytes'', show_nat (st_sst_bytes c)),
      (''flowdb_wal_bytes'', show_nat (st_wal_bytes c)),
      (''flowdb_block_meta_index_entries'', show_nat (st_index_entries c)),
      (''flowdb_time_index_buckets'', show_nat (st_buckets c)),
      (''flowdb_block_cache_hit_rate'', show_f cache_hit_rate),
      (''flowdb_compression_ratio'', show_f (f_of_permille S (st_permille c))),
      (''flowdb_write_latency_us{quantile=\"0.5\"}'', show_nat (h_percentile S 50 (st_write_latency c))),
      (''flowdb_write_latency_us{quantile=\"0.9\"}'', show_nat (h_percentile S 90 (st_write_latency c))),
      (''flowdb_write_latency_us{quantile=\"0.99\"}'', show_nat (h_percentile S 99 (st_write_latency c))),
      (''flowdb_query_latency_us{quantile=\"0.5\"}'', show_nat (h_percentile S 50 (st_query_latency c))),
      (''flowdb_query_latency_us{quantile=\"0.9\"}'', show_nat (h_percentile S 90 (st_query_latency c))),
      (''flowdb_query_latency_us{quantile=\"0.99\"}'', show_nat (h_percentile S 99 (st_query_latency c))),
      (''flowdb_flush_latency_us{quantile=\"0.5\"}'', show_nat (h_percentile S 50 (st_flush_latency c))),
      (''flowdb_flush_latency_us{quantile=\"0.9\"}'', show_nat (h_percentile S 90 (st_flush_latency c))),
      (''flowdb_flush_latency_us{quantile=\"0.99\"}'', show_nat (h_percentile S 99 (st_flush_latency c))),
      (''flowdb_uptime_seconds'', show_nat ((instant - st_started_at c) div 1000000))]"
proof -
  have d: "newline \<notin> set (show_nat n)" for n using show_nat_digits by blast
  have m: "samples (metric n descr kind (show_nat v) @ rest) = (n, show_nat v) # samples rest"
    "samples (metric n descr kind (show_f x) @ rest) = (n, show_f x) # samples rest"
    if "name_ok n" "newline \<notin> set descr" "newline \<notin> set kind" for n descr kind v x rest
    using that assms d by (auto intro: samples_metric)
  have l: "samples (metric n descr kind (show_nat v)) = [(n, show_nat v)]"
    if "name_ok n" "newline \<notin> set descr" "newline \<notin> set kind" for n descr kind v
  proof -
    have "samples (metric n descr kind (show_nat v) @ []) = (n, show_nat v) # samples []" by (rule m(1) [OF that])
    then show ?thesis by (simp add: samples_Nil)
  qed
  show ?thesis unfolding to_prometheus_def Let_def stats_snapshot_def histogram_percentiles_def EngineStats.simps
    by (simp add: m l samples_summary name_ok_def)
qed

theorem prometheus_samples_witness:
  "(''flowdb_flushes_total'', show_nat 3) \<in> set (samples (to_prometheus
      \<lparr>h_new = (), h_record = \<lambda>_ h. Some h, h_percentile = \<lambda>_ _. 0, f_ratio = \<lambda>_ _. (), f_permille = \<lambda>_. 0, f_of_permille = \<lambda>_. ()\<rparr>
      (\<lambda>_. ''1'') 0 () ((Stats_new \<lparr>h_new = (), h_record = \<lambda>_ h. Some h, h_percentile = \<lambda>_ _. 0, f_ratio = \<lambda>_ _. (), f_permille = \<lambda>_. 0,
        f_of_permille = \<lambda>_. ()\<rparr> 0)\<lparr>st_flushes := 3\<rparr>)))"
  by (subst prometheus_samples) simp_all

end
