(* ===== verification/Json_Encoding.thy ===== *)
theory Json_Encoding
  imports Records
begin

text \<open>
  \<^verbatim>\<open>src/jsondb/encoding.rs\<close>: how the document layer maps documents and index entries to keys of the engine.
  A JSON value is a datatype after \<^verbatim>\<open>serde_json::Value\<close>; strings are their UTF-8 bytes, an object is the sorted association list of
  its \<^verbatim>\<open>BTreeMap\<close>, a float is its bit pattern.  Printing and parsing of \<^verbatim>\<open>serde_json\<close> are parameters.
  The lemmas show which byte order the encoding of index values gives, that keys of different stores and indexes
  do not meet, and when a prefix scan over an index value is exact.
\<close>

unbundle bit_operations_syntax

section \<open>JSON values\<close>

datatype number = PosInt nat | NegInt int | Float "64 word"

datatype json = JNull | JBool bool | JNum number | JStr bytes | JArr "json list" | JObj "(bytes \<times> json) list"

fun as_i64 :: "number \<Rightarrow> int option" where
  "as_i64 (PosInt n) = (if int n \<le> i64_max then Some (int n) else None)"
| "as_i64 (NegInt i) = Some i"
| "as_i64 (Float w) = None"

fun as_u64 :: "number \<Rightarrow> nat option" where
  "as_u64 (PosInt n) = Some n"
| "as_u64 (NegInt i) = None"
| "as_u64 (Float w) = None"

text \<open>\<^verbatim>\<open>==\<close> on values: structural, and on floats the IEEE comparison, for which \<open>-0\<close> equals \<open>0\<close> (a JSON number is never NaN).
  \<open>unsigned_zero\<close> replaces each \<open>-0\<close> by \<open>0\<close>.\<close>

fun unsigned_number :: "number \<Rightarrow> number" where
  "unsigned_number (Float w) = Float (if w = push_bit 63 1 then 0 else w)"
| "unsigned_number n = n"

primrec unsigned_zero :: "json \<Rightarrow> json" where
  "unsigned_zero JNull = JNull"
| "unsigned_zero (JBool b) = JBool b"
| "unsigned_zero (JNum n) = JNum (unsigned_number n)"
| "unsigned_zero (JStr s) = JStr s"
| "unsigned_zero (JArr xs) = JArr (map unsigned_zero xs)"
| "unsigned_zero (JObj m) = JObj (map (map_prod (\<lambda>k. k) unsigned_zero) m)"

definition value_eq :: "json option \<Rightarrow> json option \<Rightarrow> bool" where
  "value_eq a b \<longleftrightarrow> map_option unsigned_zero a = map_option unsigned_zero b"

section \<open>Keys\<close>

definition DOC_PREFIX :: byte where "DOC_PREFIX = 1"
definition IDX_PREFIX :: byte where "IDX_PREFIX = 2"
definition SCH_PREFIX :: byte where "SCH_PREFIX = 3"
definition CTR_PREFIX :: byte where "CTR_PREFIX = 4"
definition SEP :: byte where "SEP = 0"

definition doc_key :: "bytes \<Rightarrow> bytes \<Rightarrow> bytes" where
  "doc_key store k = [DOC_PREFIX] @ store @ [SEP] @ k"

definition doc_prefix :: "bytes \<Rightarrow> bytes" where
  "doc_prefix store = [DOC_PREFIX] @ store @ [SEP]"

definition idx_key :: "bytes \<Rightarrow> bytes \<Rightarrow> bytes \<Rightarrow> bytes \<Rightarrow> bytes" where
  "idx_key store index v k = [IDX_PREFIX] @ store @ [SEP] @ index @ [SEP] @ v @ [SEP] @ k"

definition idx_prefix :: "bytes \<Rightarrow> bytes \<Rightarrow> bytes" where
  "idx_prefix store index = [IDX_PREFIX] @ store @ [SEP] @ index @ [SEP]"

definition idx_value_prefix :: "bytes \<Rightarrow> bytes \<Rightarrow> bytes \<Rightarrow> bytes" where
  "idx_value_prefix store index v = [IDX_PREFIX] @ store @ [SEP] @ index @ [SEP] @ v @ [SEP]"

definition schema_key :: "bytes \<Rightarrow> bytes" where
  "schema_key store = [SCH_PREFIX] @ store"

definition schema_prefix :: bytes where
  "schema_prefix = [SCH_PREFIX]"

definition counter_key :: "bytes \<Rightarrow> bytes" where
  "counter_key store = [CTR_PREFIX] @ store"

definition prefix_range :: "bytes \<Rightarrow> ScanRange" where
  "prefix_range p =
     \<lparr>key_start = Included p, key_end = Excluded (increment_prefix_bytes p), ts_start = Unbounded, ts_end = Unbounded\<rparr>"

section \<open>Values\<close>

definition TAG_NULL :: byte where "TAG_NULL = 1"
definition TAG_FALSE :: byte where "TAG_FALSE = 2"
definition TAG_TRUE :: byte where "TAG_TRUE = 3"
definition TAG_NUM_I64 :: byte where "TAG_NUM_I64 = 4"
definition TAG_NUM_F64 :: byte where "TAG_NUM_F64 = 5"
definition TAG_NUM_U64 :: byte where "TAG_NUM_U64 = 6"
definition TAG_STRING :: byte where "TAG_STRING = 7"
definition TAG_OTHER :: byte where "TAG_OTHER = 8"

lemmas tag_defs = TAG_NULL_def TAG_FALSE_def TAG_TRUE_def TAG_NUM_I64_def TAG_NUM_F64_def TAG_NUM_U64_def TAG_STRING_def TAG_OTHER_def

definition top_bit :: "64 word" where "top_bit = push_bit 63 1"

text \<open>\<^verbatim>\<open>as_f64\<close> is asked only for a number that is neither \<^verbatim>\<open>i64\<close> nor \<^verbatim>\<open>u64\<close>, a float, and returns it.
  \<open>to_vec\<close> is \<^verbatim>\<open>serde_json::to_vec\<close>.\<close>

fun encode_index_value :: "(json \<Rightarrow> string + bytes) \<Rightarrow> json \<Rightarrow> bytes" where
  "encode_index_value to_vec JNull = [TAG_NULL]"
| "encode_index_value to_vec (JBool b) = (if b then [TAG_TRUE] else [TAG_FALSE])"
| "encode_index_value to_vec (JNum n) =
     (case as_i64 n of
        Some i \<Rightarrow> TAG_NUM_I64 # be_bytes 8 (unat (word_of_int i XOR top_bit))
      | None \<Rightarrow>
          (case as_u64 n of
             Some u \<Rightarrow> TAG_NUM_U64 # be_bytes 8 (unat (word_of_nat u XOR top_bit))
           | None \<Rightarrow>
               (case n of
                  Float w \<Rightarrow> TAG_NUM_F64 # be_bytes 8 (unat (if w AND top_bit \<noteq> 0 then NOT w else w XOR top_bit))
                | _ \<Rightarrow> [TAG_OTHER])))"
| "encode_index_value to_vec (JStr s) = TAG_STRING # s"
| "encode_index_value to_vec v = TAG_OTHER # (case to_vec v of Inr b \<Rightarrow> b | Inl _ \<Rightarrow> [])"

text \<open>\<open>num_str\<close> is the \<^verbatim>\<open>Display\<close> of a \<^verbatim>\<open>serde_json\<close> number.\<close>

fun encode_primary_key :: "(json \<Rightarrow> string + bytes) \<Rightarrow> (number \<Rightarrow> bytes) \<Rightarrow> json \<Rightarrow> bytes result" where
  "encode_primary_key to_vec num_str (JStr s) =
     (if 0 \<in> set s then Inl (JsonDbErr (''primary key must not contain null byte ('' @ [CHR 0x5C] @ ''x00)'')) else Inr s)"
| "encode_primary_key to_vec num_str (JNum n) = Inr (num_str n)"
| "encode_primary_key to_vec num_str (JBool b) =
     Inr (map (\<lambda>c. word_of_nat (of_char c)) (if b then ''true'' else ''false''))"
| "encode_primary_key to_vec num_str JNull = Inr [0]"
| "encode_primary_key to_vec num_str v = (case to_vec v of Inl err \<Rightarrow> Inl (JsonErr err) | Inr b \<Rightarrow> Inr (0xFF # b))"

definition encode_doc :: "(json \<Rightarrow> string + bytes) \<Rightarrow> json \<Rightarrow> bytes result" where
  "encode_doc to_vec doc = (case to_vec doc of Inl err \<Rightarrow> Inl (JsonErr err) | Inr b \<Rightarrow> Inr b)"

definition decode_doc :: "(bytes \<Rightarrow> string + json) \<Rightarrow> bytes \<Rightarrow> json result" where
  "decode_doc from_slice b = (case from_slice b of Inl err \<Rightarrow> Inl (JsonErr err) | Inr v \<Rightarrow> Inr v)"

text \<open>The standard library's \<^verbatim>\<open>str::split\<close> at one character and \<^verbatim>\<open>usize::from_str\<close>.\<close>

fun split_on :: "'a \<Rightarrow> 'a list \<Rightarrow> 'a list list" where
  "split_on c [] = [[]]"
| "split_on c (x # xs) =
     (if x = c then [] # split_on c xs
      else case split_on c xs of [] \<Rightarrow> [[x]] | s # ss \<Rightarrow> (x # s) # ss)"

definition parse_usize :: "bytes \<Rightarrow> nat option" where
  "parse_usize s =
     (let ds = (case s of b # rest \<Rightarrow> if b = 43 \<and> rest \<noteq> [] then rest else s | [] \<Rightarrow> s);
          n = foldl (\<lambda>a b. a * 10 + (unat b - 48)) 0 ds
      in if ds = [] \<or> (\<exists>b\<in>set ds. b < 48 \<or> 57 < b) \<or> 2 ^ 64 \<le> n then None else Some n)"

fun extract_path :: "json \<Rightarrow> bytes list \<Rightarrow> json option" where
  "extract_path v [] = Some v"
| "extract_path (JObj m) (s # ss) = (case map_of m s of None \<Rightarrow> None | Some v \<Rightarrow> extract_path v ss)"
| "extract_path (JArr xs) (s # ss) =
     (case parse_usize s of None \<Rightarrow> None | Some i \<Rightarrow> if i < length xs then extract_path (xs ! i) ss else None)"
| "extract_path _ (s # ss) = None"

definition extract_field :: "json \<Rightarrow> bytes \<Rightarrow> json option" where
  "extract_field doc path = (if path = [] then Some doc else extract_path doc (split_on 46 path))"

text \<open>A name is shown as the string of its bytes.\<close>

definition str :: "bytes \<Rightarrow> string" where
  "str b = map (\<lambda>x. char_of (unat x)) b"

definition quoted :: "bytes \<Rightarrow> string" where
  "quoted b = [CHR 0x27] @ str b @ [CHR 0x27]"

definition name_byte :: "byte \<Rightarrow> bool" where
  "name_byte b \<longleftrightarrow> 48 \<le> b \<and> b \<le> 57 \<or> 65 \<le> b \<and> b \<le> 90 \<or> 97 \<le> b \<and> b \<le> 122 \<or> b = 95 \<or> b = 45"

definition validate_name :: "bytes \<Rightarrow> unit result" where
  "validate_name name =
     (if name = [] then Inl (JsonDbErr ''name cannot be empty'')
      else if 255 < length name then Inl (JsonDbErr ''name too long (max 255 bytes)'')
      else if \<not> list_all name_byte name
        then Inl (JsonDbErr (''invalid name '' @ quoted name @ '': only alphanumeric, underscore and dash are allowed''))
      else Inr ())"

definition encode_composite_value :: "(json \<Rightarrow> string + bytes) \<Rightarrow> json list \<Rightarrow> bytes" where
  "encode_composite_value to_vec vs =
     fold (\<lambda>(i, v) buf. (if i > 0 then buf @ [SEP] else buf) @ encode_index_value to_vec v) (enumerate 0 vs) []"

section \<open>Byte order of the encodings\<close>

lemma be_val_less:
  "length xs = length ys \<Longrightarrow> xs < ys \<longleftrightarrow> be_val xs < be_val ys"
proof (induction xs ys rule: list_induct2)
  case Nil
  then show ?case by simp
next
  case (Cons x xs y ys)
  let ?n = "256 ^ length ys"
  have b: "be_val xs < ?n" "be_val ys < ?n" using be_val_bound [of xs] be_val_bound [of ys] Cons.hyps by auto
  have mono: "unat x * ?n + u < unat y * ?n + v" if "unat x < unat y" "u < ?n" for x y :: byte and u v
  proof -
    have "Suc (unat x) * ?n \<le> unat y * ?n" using that by (intro mult_right_mono) auto
    with that(2) show ?thesis by simp
  qed
  show ?case
  proof (cases "unat x" "unat y" rule: linorder_cases)
    case less
    with mono [OF less b(1), of "be_val ys"] Cons.hyps show ?thesis by (simp add: be_val_Cons word_less_nat_alt)
  next
    case equal
    then have "x = y" by (simp add: word_unat_eq_iff)
    with Cons show ?thesis by (simp add: be_val_Cons)
  next
    case greater
    with mono [OF greater b(2), of "be_val xs"] Cons.hyps show ?thesis by (auto simp: be_val_Cons word_less_nat_alt)
  qed
qed

lemma be_bytes_less:
  assumes "a < 256 ^ n" "b < 256 ^ n"
  shows "be_bytes n a < be_bytes n b \<longleftrightarrow> a < b" "be_bytes n a = be_bytes n b \<longleftrightarrow> a = b"
proof -
  show "be_bytes n a < be_bytes n b \<longleftrightarrow> a < b" using assms be_val_less [of "be_bytes n a" "be_bytes n b"] by simp
  show "be_bytes n a = be_bytes n b \<longleftrightarrow> a = b" using assms by (metis be_val_be_bytes mod_less)
qed

lemma flip_top: "w XOR top_bit = w + 2 ^ 63"
proof -
  have "w XOR top_bit = flip_bit 63 w" by (simp only: top_bit_def flip_bit_def)
  also have "\<dots> = (if bit w 63 then w - 2 ^ 63 else w + 2 ^ 63)"
    using unset_bit_eq [of 63 w] set_bit_eq [of 63 w] by (simp add: flip_bit_eq_if)
  finally show ?thesis by simp
qed

text \<open>The order the encoding gives to scalar values: first the kind of value, then, within a kind, integers and floats by number
  (floats in the IEEE total order, with \<open>-0\<close> before \<open>0\<close>), strings by bytes.\<close>

definition f64_rank :: "64 word \<Rightarrow> int" where
  "f64_rank w = (if bit w 63 then 2 ^ 63 - 1 - uint w else uint w)"

fun num_rank :: "number \<Rightarrow> nat \<times> int" where
  "num_rank (PosInt n) = (if int n \<le> i64_max then 4 else 6, int n)"
| "num_rank (NegInt i) = (4, i)"
| "num_rank (Float w) = (5, f64_rank w)"

fun json_rank :: "json \<Rightarrow> nat \<times> int \<times> bytes" where
  "json_rank JNull = (1, 0, [])"
| "json_rank (JBool b) = (if b then 3 else 2, 0, [])"
| "json_rank (JNum n) = (fst (num_rank n), snd (num_rank n), [])"
| "json_rank (JStr s) = (7, 0, s)"
| "json_rank v = (8, 0, [])"

fun num_ok :: "number \<Rightarrow> bool" where
  "num_ok (PosInt n) \<longleftrightarrow> n < 2 ^ 64"
| "num_ok (NegInt i) \<longleftrightarrow> i64 i \<and> i < 0"
| "num_ok (Float w) \<longleftrightarrow> True"

fun scalar :: "json \<Rightarrow> bool" where
  "scalar (JNum n) \<longleftrightarrow> num_ok n"
| "scalar (JArr _) \<longleftrightarrow> False"
| "scalar (JObj _) \<longleftrightarrow> False"
| "scalar _ \<longleftrightarrow> True"

definition num_payload :: "number \<Rightarrow> nat" where
  "num_payload n = nat (snd (num_rank n) + (if fst (num_rank n) = 6 then - (2 ^ 63) else 2 ^ 63))"

lemma uint_bounds: "0 \<le> uint w" "uint w < 2 ^ 64" for w :: "64 word"
  using uint_lt2p [of w] by simp_all

lemma bit63: "bit w 63 \<longleftrightarrow> 2 ^ 63 \<le> uint w" for w :: "64 word"
proof -
  have "bit w 63 \<longleftrightarrow> bit (uint w) 63" by (simp add: bit_uint_iff)
  also have "\<dots> \<longleftrightarrow> odd (uint w div 2 ^ 63)" by (simp only: bit_iff_odd)
  also have "uint w div 2 ^ 63 = (if 2 ^ 63 \<le> uint w then 1 else 0)" using uint_bounds [of w] by auto
  finally show ?thesis by simp
qed

lemma uint_NOT: "uint (NOT w) = 2 ^ 64 - 1 - uint w" for w :: "64 word"
proof -
  have "NOT w = word_of_int (2 ^ 64 - 1 - uint w)" by (simp add: not_eq_complement)
  then have "uint (NOT w) = (2 ^ 64 - 1 - uint w) mod 2 ^ 64" by (simp only: uint_word_of_int) simp
  also have "\<dots> = 2 ^ 64 - 1 - uint w" by (intro mod_pos_pos_trivial) (use uint_bounds [of w] in linarith)+
  finally show ?thesis .
qed

lemma unat_f64:
  "unat (if w AND top_bit \<noteq> 0 then NOT w else w XOR top_bit) = nat (f64_rank w + 2 ^ 63)" for w :: "64 word"
proof -
  have b: "w AND top_bit \<noteq> 0 \<longleftrightarrow> bit w 63"
    unfolding top_bit_def by (rule bit_iff_and_push_bit_not_eq_0 [symmetric])
  show ?thesis
  proof (cases "bit w 63")
    case True
    then have "f64_rank w + 2 ^ 63 = 2 ^ 64 - 1 - uint w" by (simp add: f64_rank_def)
    then show ?thesis using True by (simp only: b if_True unat_eq_nat_uint uint_NOT)
  next
    case False
    then have "uint w < 2 ^ 63" by (simp add: bit63)
    then have "uint (w + 2 ^ 63) = uint w + 2 ^ 63" by (simp add: uint_word_ariths)
    with False show ?thesis by (simp only: b if_False flip_top unat_eq_nat_uint f64_rank_def)
  qed
qed

lemma unat_shift:
  "i64 i \<Longrightarrow> unat (word_of_int i XOR top_bit) = nat (i + 2 ^ 63)"
  "2 ^ 63 \<le> n \<Longrightarrow> n < 2 ^ 64 \<Longrightarrow> unat (word_of_nat n XOR top_bit) = n - 2 ^ 63"
proof -
  assume "i64 i"
  then have "0 \<le> i + 2 ^ 63" "i + 2 ^ 63 < 2 ^ 64" by (simp_all add: i64_def i64_min_def i64_max_def)
  moreover have "word_of_int i XOR top_bit = (word_of_int (i + 2 ^ 63) :: 64 word)" by (simp add: flip_top)
  ultimately show "unat (word_of_int i XOR top_bit) = nat (i + 2 ^ 63)"
    by (simp only: unat_eq_nat_uint uint_word_of_int) simp
next
  assume n: "2 ^ 63 \<le> n" "n < 2 ^ 64"
  have "word_of_nat n XOR top_bit = (word_of_nat (n + 2 ^ 63) :: 64 word)" by (simp add: flip_top)
  then have "unat (word_of_nat n XOR top_bit) = (n + 2 ^ 63) mod 2 ^ 64" by (simp only: unat_of_nat) simp
  also have "\<dots> = n - 2 ^ 63" using n by (simp add: mod_if)
  finally show "unat (word_of_nat n XOR top_bit) = n - 2 ^ 63" .
qed

lemma rank_arith:
  fixes u v :: int
  assumes "0 \<le> u" "u < 2 ^ 64"
  shows "- (2 ^ 63) \<le> (if 2 ^ 63 \<le> u then 2 ^ 63 - 1 - u else u)" "(if 2 ^ 63 \<le> u then 2 ^ 63 - 1 - u else u) < 2 ^ 63"
    "0 \<le> v \<Longrightarrow> (if 2 ^ 63 \<le> u then 2 ^ 63 - 1 - u else u) = (if 2 ^ 63 \<le> v then 2 ^ 63 - 1 - v else v) \<Longrightarrow> u = v"
  using assms by (auto split: if_splits)

lemma f64_rank_bound: "- (2 ^ 63) \<le> f64_rank w" "f64_rank w < 2 ^ 63"
  unfolding f64_rank_def bit63 by (rule rank_arith [OF uint_bounds])+

lemma num_range:
  assumes "num_ok n"
  shows "0 \<le> snd (num_rank n) + (if fst (num_rank n) = 6 then - (2 ^ 63) else 2 ^ 63)"
    "snd (num_rank n) + (if fst (num_rank n) = 6 then - (2 ^ 63) else 2 ^ 63) < 2 ^ 64"
proof -
  have "0 \<le> f64_rank w + 2 ^ 63" "f64_rank w + 2 ^ 63 < 2 ^ 64" for w using f64_rank_bound [of w] by simp_all
  then show "0 \<le> snd (num_rank n) + (if fst (num_rank n) = 6 then - (2 ^ 63) else 2 ^ 63)"
    "snd (num_rank n) + (if fst (num_rank n) = 6 then - (2 ^ 63) else 2 ^ 63) < 2 ^ 64"
    using assms by (cases n; simp add: i64_def i64_min_def i64_max_def)+
qed

lemma encode_num:
  assumes "num_ok n"
  shows "encode_index_value to_vec (JNum n) = word_of_nat (fst (num_rank n)) # be_bytes 8 (num_payload n)"
    and "num_payload n < 256 ^ 8"
proof -
  show "encode_index_value to_vec (JNum n) = word_of_nat (fst (num_rank n)) # be_bytes 8 (num_payload n)"
  proof (cases n)
    case (PosInt m)
    show ?thesis
    proof (cases "int m \<le> i64_max")
      case True
      then have "i64 (int m)" by (simp add: i64_def i64_min_def)
      with True PosInt unat_shift(1) [of "int m"] show ?thesis by (simp add: num_payload_def tag_defs)
    next
      case False
      then have "2 ^ 63 \<le> m" by (simp add: i64_max_def)
      with False PosInt assms show ?thesis by (simp add: unat_shift num_payload_def tag_defs nat_diff_distrib)
    qed
  next
    case (NegInt i)
    with assms show ?thesis by (simp add: unat_shift num_payload_def tag_defs)
  next
    case (Float w)
    then show ?thesis using unat_f64 [of w] by (simp add: num_payload_def tag_defs)
  qed
  show "num_payload n < 256 ^ 8"
    using num_range [OF assms] by (simp add: num_payload_def nat_less_iff)
qed

lemma payload_less:
  assumes "num_ok n" "num_ok m" "fst (num_rank n) = fst (num_rank m)"
  shows "num_payload n < num_payload m \<longleftrightarrow> snd (num_rank n) < snd (num_rank m)"
    "num_payload n = num_payload m \<longleftrightarrow> snd (num_rank n) = snd (num_rank m)"
proof -
  show "num_payload n < num_payload m \<longleftrightarrow> snd (num_rank n) < snd (num_rank m)"
    "num_payload n = num_payload m \<longleftrightarrow> snd (num_rank n) = snd (num_rank m)"
    using num_range(1) [OF assms(1)] num_range(1) [OF assms(2)] assms(3)
    by (auto simp: num_payload_def nat_less_eq_zless eq_nat_nat_iff)
qed

lemma num_rank_inj: "num_ok n \<Longrightarrow> num_ok m \<Longrightarrow> num_rank n = num_rank m \<longleftrightarrow> n = m"
proof -
  have "u = w" if "f64_rank u = f64_rank w" for u w
    using that rank_arith(3) [OF uint_bounds uint_bounds(1)] unfolding f64_rank_def bit63 by (auto simp: word_uint_eq_iff)
  then show "num_ok n \<Longrightarrow> num_ok m \<Longrightarrow> num_rank n = num_rank m \<longleftrightarrow> n = m"
    by (cases n; cases m) (auto split: if_splits)
qed

lemma num_tags: "fst (num_rank n) \<in> {4, 5, 6}"
  by (cases n) auto

lemma num_tags_other:
  "fst (num_rank n) \<noteq> Suc 0" "fst (num_rank n) \<noteq> 2" "fst (num_rank n) \<noteq> 3" "fst (num_rank n) \<noteq> 7"
  using num_tags [of n] by auto

lemma tag_less: "a < 256 \<Longrightarrow> b < 256 \<Longrightarrow> (word_of_nat a :: byte) < word_of_nat b \<longleftrightarrow> a < b"
  "a < 256 \<Longrightarrow> b < 256 \<Longrightarrow> (word_of_nat a :: byte) = word_of_nat b \<longleftrightarrow> a = b"
  by (simp_all add: word_less_nat_alt word_unat_eq_iff unat_of_nat)

lemma encode_scalar:
  assumes "scalar v"
  shows "encode_index_value to_vec v = word_of_nat (fst (json_rank v)) #
    (case v of JNum n \<Rightarrow> be_bytes 8 (num_payload n) | JStr s \<Rightarrow> s | _ \<Rightarrow> [])"
  using assms encode_num by (cases v) (auto simp: tag_defs simp del: encode_index_value.simps(3))

lemma encode_scalar_order:
  assumes "scalar v" "scalar w"
  shows "(encode_index_value to_vec v < encode_index_value to_vec w \<longleftrightarrow> json_rank v < json_rank w)
    \<and> (encode_index_value to_vec v = encode_index_value to_vec w \<longleftrightarrow> v = w)"
proof -
  have "fst (num_rank n) < 256" for n using num_tags [of n] by auto
  then have r: "fst (json_rank u) < 256" if "scalar u" for u using that by (cases u) auto
  note tags = tag_less [OF r [OF assms(1)] r [OF assms(2)]]
  show ?thesis
  proof (cases "fst (json_rank v) = fst (json_rank w)")
    case False
    then have "v \<noteq> w" by auto
    with False tags show ?thesis unfolding encode_scalar [OF assms(1)] encode_scalar [OF assms(2)]
      by (cases "json_rank v"; cases "json_rank w") auto
  next
    case True
    have num: "v = JNum n \<Longrightarrow> \<exists>m. w = JNum m" for n using True num_tags [of n] by (cases w) (auto split: if_splits)
    show ?thesis
    proof (cases v)
      case (JNum n)
      with num obtain m where w: "w = JNum m" by blast
      have ok: "num_ok n" "num_ok m" and t: "fst (num_rank n) = fst (num_rank m)" using assms True JNum w by auto
      note p = payload_less [OF ok t] be_bytes_less [OF encode_num(2) [OF ok(1)] encode_num(2) [OF ok(2)]]
      show ?thesis using p t num_rank_inj [OF ok] unfolding encode_scalar [OF assms(1)] encode_scalar [OF assms(2)]
        by (auto simp: JNum w prod_eq_iff)
    qed (use True [symmetric] assms in \<open>cases w; auto simp: num_tags_other tag_defs split: if_splits\<close>)+
  qed
qed

text \<open>C12. The encoding of index values orders scalar values by kind (null, false, true, 64-bit signed integers, floats, larger
  unsigned integers, strings) and within a kind by value, and distinguishes all of them: integers compare
  as numbers, floats in the IEEE total order, strings by their bytes.  Across kinds of numbers it is not the numeric
  order: every integer up to \<^verbatim>\<open>i64::MAX\<close> sorts before every float.\<close>

theorem index_value_order:
  assumes "scalar v" "scalar w"
  shows "(encode_index_value to_vec v < encode_index_value to_vec w \<longleftrightarrow> json_rank v < json_rank w)
    \<and> (encode_index_value to_vec v = encode_index_value to_vec w \<longleftrightarrow> v = w)"
  by (rule encode_scalar_order [OF assms])

theorem index_value_order_witness:
  "encode_index_value (\<lambda>_. Inl []) (JNum (NegInt (- 7))) < encode_index_value (\<lambda>_. Inl []) (JNum (PosInt 3))
   \<and> encode_index_value (\<lambda>_. Inl []) (JNum (PosInt 3)) < encode_index_value (\<lambda>_. Inl []) (JNum (Float 0))"
  using index_value_order [of "JNum (NegInt (- 7))" "JNum (PosInt 3)" "\<lambda>_. Inl []"]
    index_value_order [of "JNum (PosInt 3)" "JNum (Float 0)" "\<lambda>_. Inl []"]
  by (simp add: i64_def i64_min_def i64_max_def)

section \<open>Keys do not meet\<close>

text \<open>Splitting at the first separator.\<close>

lemma sep_prefix:
  assumes "0 \<notin> set a" "0 \<notin> set b"
  shows "prefix (a @ (0 :: byte) # x) (b @ 0 # y) \<longleftrightarrow> a = b \<and> prefix x y"
  using assms
proof (induction a arbitrary: b)
  case Nil
  then show ?case by (cases b) auto
next
  case (Cons c a)
  then show ?case by (cases b) auto
qed

lemma sep_eq:
  assumes "0 \<notin> set a" "0 \<notin> set b"
  shows "a @ (0 :: byte) # x = b @ 0 # y \<longleftrightarrow> a = b \<and> x = y"
  using assms
proof (induction a arbitrary: b)
  case Nil
  then show ?case by (cases b) auto
next
  case (Cons c a)
  then show ?case by (cases b) auto
qed

lemma name_no_sep: "validate_name name = Inr () \<Longrightarrow> 0 \<notin> set name"
  by (auto simp: validate_name_def list_all_iff name_byte_def split: if_splits)

text \<open>A value whose encoding an index lookup can tell apart: no string with a NUL byte.\<close>

fun no_nul :: "json \<Rightarrow> bool" where
  "no_nul (JStr s) \<longleftrightarrow> 0 \<notin> set s"
| "no_nul _ \<longleftrightarrow> True"

lemma value_prefix:
  assumes "scalar v" "scalar w" "no_nul v" "no_nul w"
  shows "prefix (encode_index_value to_vec v @ [0]) (encode_index_value to_vec w @ 0 # k) \<longleftrightarrow> v = w"
proof
  assume p: "prefix (encode_index_value to_vec v @ [0]) (encode_index_value to_vec w @ 0 # k)"
  let ?body = "\<lambda>v. case v of JNum n \<Rightarrow> be_bytes 8 (num_payload n) | JStr s \<Rightarrow> s | _ \<Rightarrow> []"
  have num: "fst (num_rank n) < 256" for n using num_tags [of n] by auto
  have r: "fst (json_rank u) < 256" if "scalar u" for u using that num by (cases u) auto
  from p have t: "fst (json_rank v) = fst (json_rank w)" and b: "prefix (?body v @ [0]) (?body w @ 0 # k)"
    unfolding encode_scalar [OF assms(1)] encode_scalar [OF assms(2)] using tag_less(2) [OF r [OF assms(1)] r [OF assms(2)]] by auto
  have "?body v = ?body w"
  proof (cases v)
    case (JNum n)
    with t num_tags [of n] obtain m where "w = JNum m" by (cases w) (auto split: if_splits)
    with JNum b show ?thesis by (auto simp: prefix_def append_eq_append_conv)
  next
    case (JStr s)
    with t obtain s' where "w = JStr s'" by (cases w) (auto simp: num_tags_other [symmetric] split: if_splits dest: sym)
    with JStr b assms(3,4) show ?thesis by (auto simp: sep_prefix)
  qed (use t assms(1,2) in \<open>cases w; auto simp: num_tags_other split: if_splits dest: sym\<close>)+
  then have "encode_index_value to_vec v = encode_index_value to_vec w"
    unfolding encode_scalar [OF assms(1)] encode_scalar [OF assms(2)] using t by simp
  then show "v = w" using encode_scalar_order [OF assms(1,2)] by blast
qed auto

lemmas key_defs = doc_key_def doc_prefix_def idx_key_def idx_prefix_def idx_value_prefix_def schema_key_def schema_prefix_def
  counter_key_def DOC_PREFIX_def IDX_PREFIX_def SCH_PREFIX_def CTR_PREFIX_def SEP_def

text \<open>C13. Looking up a scalar value in an index by prefix is exact: for names that pass validation and values without NUL bytes in
  strings, the key of an index entry starts with the lookup prefix exactly when store, index and value are those looked
  up.  With a NUL byte it is not: the prefix of the string \<open>a\<close> also matches the entries of every string that
  continues \<open>a\<close> with a NUL byte.\<close>

theorem index_lookup_exact:
  assumes "validate_name st = Inr ()" "validate_name st' = Inr ()" "validate_name ix = Inr ()" "validate_name ix' = Inr ()"
    and "scalar v" "scalar w" "no_nul v" "no_nul w"
  shows "(prefix (idx_value_prefix st ix (encode_index_value to_vec v)) (idx_key st' ix' (encode_index_value to_vec w) k)
        \<longleftrightarrow> st = st' \<and> ix = ix' \<and> v = w)
    \<and> prefix (idx_value_prefix st ix (encode_index_value to_vec (JStr a)))
        (idx_key st ix (encode_index_value to_vec (JStr (a @ [0] @ b))) k)"
proof -
  note n = assms(1-4) [THEN name_no_sep]
  have "prefix (idx_value_prefix st ix (encode_index_value to_vec v)) (idx_key st' ix' (encode_index_value to_vec w) k)
      \<longleftrightarrow> st = st' \<and> ix = ix' \<and> v = w"
    using value_prefix [OF assms(5-8), of to_vec k] n by (simp add: key_defs sep_prefix)
  then show ?thesis by (simp add: key_defs)
qed

theorem index_lookup_exact_witness:
  "\<not> prefix (idx_value_prefix [97] [98] (encode_index_value (\<lambda>_. Inl []) (JStr [120])))
      (idx_key [97] [98] (encode_index_value (\<lambda>_. Inl []) (JStr [120, 121])) [49])"
  using index_lookup_exact [of "[97]" "[97]" "[98]" "[98]" "JStr [120]" "JStr [120, 121]" "\<lambda>_. Inl []" "[49]"]
  by (simp add: validate_name_def name_byte_def)

text \<open>C22. The key spaces are separate: documents, index entries, schemas and counters never share a key, and a prefix scan over
  one store (or one index of it) matches exactly the keys of that store (or index), for names that pass validation.\<close>

theorem key_spaces_separate:
  assumes "validate_name st = Inr ()" "validate_name st' = Inr ()" "validate_name ix = Inr ()" "validate_name ix' = Inr ()"
  shows "(prefix (doc_prefix st) (doc_key st' k) \<longleftrightarrow> st = st')
    \<and> (prefix (idx_prefix st ix) (idx_key st' ix' v k) \<longleftrightarrow> st = st' \<and> ix = ix')
    \<and> (doc_key st k = doc_key st' k' \<longleftrightarrow> st = st' \<and> k = k')
    \<and> \<not> prefix (doc_prefix st) (idx_key st' ix' v k) \<and> \<not> prefix (idx_prefix st ix) (doc_key st' k)
    \<and> \<not> prefix schema_prefix (doc_key st k) \<and> \<not> prefix schema_prefix (idx_key st ix v k) \<and> \<not> prefix schema_prefix (counter_key st)
    \<and> counter_key st \<noteq> doc_key st' k \<and> counter_key st \<noteq> idx_key st' ix' v k"
  using assms [THEN name_no_sep] by (auto simp: key_defs sep_prefix sep_eq)

theorem key_spaces_separate_witness:
  "\<not> prefix (doc_prefix [97]) (doc_key [97, 98] [99])"
  using key_spaces_separate [of "[97]" "[97, 98]" "[97]" "[97]" "[99]"] by (simp add: validate_name_def name_byte_def)

text \<open>Primary keys of different types collide: a number and the string of its digits, or a boolean and its name, are
  encoded to the same bytes, so they denote the same document.\<close>

theorem primary_keys_collide:
  assumes "0 \<notin> set (num_str n)"
  shows "encode_primary_key to_vec num_str (JNum n) = encode_primary_key to_vec num_str (JStr (num_str n))
    \<and> encode_primary_key to_vec num_str (JBool True) = encode_primary_key to_vec num_str (JStr [116, 114, 117, 101])"
  using assms by (simp add: of_char_def)

theorem primary_keys_collide_witness:
  "encode_primary_key (\<lambda>_. Inl []) (\<lambda>_. [52, 50]) (JNum (PosInt 42)) = encode_primary_key (\<lambda>_. Inl []) (\<lambda>_. [52, 50]) (JStr [52, 50])"
  using primary_keys_collide [of "\<lambda>_. [52, 50]" "PosInt 42" "\<lambda>_. Inl []"] by simp

section \<open>Field access\<close>

lemma split_on_single: "c \<notin> set xs \<Longrightarrow> split_on c xs = [xs]"
  by (induction xs) auto

lemma extract_field_top: "46 \<notin> set p \<Longrightarrow> p \<noteq> [] \<Longrightarrow> extract_field (JObj m) p = map_of m p"
  by (simp add: extract_field_def split_on_single split: option.split)

end
