(* ===== verification/Jsondb.thy ===== *)
theory Jsondb
  imports Engine Json_Encoding
begin

text \<open>
  \<^verbatim>\<open>src/jsondb/schema.rs\<close>, \<^verbatim>\<open>helpers.rs\<close>, \<^verbatim>\<open>db.rs\<close>: the document database over the engine: store and index definitions,
  the batches that keep documents and index entries together, and the database calls.
  A call is a function from the database to its next state and a result; \<open>None\<close> is a call that panics
  or does not return.  A call reads the clock once (\<open>now_us\<close>).  Each call is one step: the calls that read, compute and write
  documents hold the write lock; the schema calls and a commit do not, so the model has no interleaving of them.
  Messages that print a value with \<^verbatim>\<open>{:?}\<close> are given without it.
\<close>

section \<open>Calls\<close>

type_synonym ('s, 'a) call = "'s \<Rightarrow> ('s \<times> 'a result) option"

definition ret :: "'a \<Rightarrow> ('s, 'a) call" where
  "ret x = (\<lambda>s. Some (s, Inr x))"

definition lift_res :: "'a result \<Rightarrow> ('s, 'a) call" where
  "lift_res r = (\<lambda>s. Some (s, r))"

definition bind_call :: "('s, 'a) call \<Rightarrow> ('a \<Rightarrow> ('s, 'b) call) \<Rightarrow> ('s, 'b) call" where
  "bind_call m f = (\<lambda>s. case m s of
       None \<Rightarrow> None
     | Some (s, Inl err) \<Rightarrow> Some (s, Inl err)
     | Some (s, Inr x) \<Rightarrow> f x s)"

lemma bind_call_SomeD:
  assumes "bind_call m f s = Some (s', Inr y)"
  obtains s1 x where "m s = Some (s1, Inr x)" "f x s1 = Some (s', Inr y)"
  using assms by (auto simp: bind_call_def split: option.splits prod.splits sum.splits)

fun for_each :: "('a \<Rightarrow> ('s, 'b) call) \<Rightarrow> 'a list \<Rightarrow> ('s, 'b list) call" where
  "for_each f [] = ret []"
| "for_each f (x # xs) = bind_call (f x) (\<lambda>y. bind_call (for_each f xs) (\<lambda>ys. ret (y # ys)))"

section \<open>Definitions of stores and indexes\<close>

record IndexDef =
  key_paths :: "bytes list"
  ix_name :: bytes
  unique :: bool
  multi_entry :: bool

record StoreDef =
  sd_name :: bytes
  key_path :: bytes
  auto_increment :: bool
  indexes :: "IndexDef list"
  next_auto_id :: nat

text \<open>The custom \<^verbatim>\<open>Deserialize\<close> of an index definition, from the fields \<^verbatim>\<open>serde\<close> has parsed.\<close>

record raw_index =
  raw_name :: bytes
  raw_key_path :: json
  raw_unique :: "bool option"
  raw_multi_entry :: "bool option"

definition index_def_of_raw :: "raw_index \<Rightarrow> string + IndexDef" where
  "index_def_of_raw raw =
     (case (case raw_key_path raw of
              JStr s \<Rightarrow> Inr [s]
            | JArr xs \<Rightarrow> Inr (List.map_filter (\<lambda>v. case v of JStr s \<Rightarrow> Some s | _ \<Rightarrow> None) xs)
            | _ \<Rightarrow> Inl ''key_paths must be a string or array of strings'') of
        Inl err \<Rightarrow> Inl err
      | Inr ps \<Rightarrow>
          if ps = [] then Inl ''key_paths must not be empty''
          else Inr \<lparr>key_paths = ps, ix_name = raw_name raw,
                    unique = (case raw_unique raw of Some b \<Rightarrow> b | None \<Rightarrow> False),
                    multi_entry = (case raw_multi_entry raw of Some b \<Rightarrow> b | None \<Rightarrow> False)\<rparr>)"

definition StoreDef_new :: "bytes \<Rightarrow> bytes \<Rightarrow> StoreDef" where
  "StoreDef_new name kp =
     \<lparr>sd_name = name, key_path = kp, auto_increment = False, indexes = [], next_auto_id = 0\<rparr>"

definition with_index :: "bytes \<Rightarrow> bytes list \<Rightarrow> bool \<Rightarrow> StoreDef \<Rightarrow> StoreDef" where
  "with_index name paths u def =
     def\<lparr>indexes := indexes def @ [\<lparr>key_paths = paths, ix_name = name, unique = u, multi_entry = False\<rparr>]\<rparr>"

definition with_auto_increment :: "StoreDef \<Rightarrow> StoreDef" where
  "with_auto_increment def = def\<lparr>auto_increment := True\<rparr>"

text \<open>The schema cache is a map; the externals are \<^verbatim>\<open>serde_json\<close> on documents and on store definitions, and
  the \<^verbatim>\<open>Display\<close> of its numbers.\<close>

type_synonym Schema = "bytes \<rightharpoonup> StoreDef"

record json_ext =
  to_vec :: "json \<Rightarrow> string + bytes"
  from_slice :: "bytes \<Rightarrow> string + json"
  num_str :: "number \<Rightarrow> bytes"
  def_to_vec :: "StoreDef \<Rightarrow> string + bytes"
  def_from_slice :: "bytes \<Rightarrow> string + StoreDef"

definition schema_insert :: "StoreDef \<Rightarrow> Schema \<Rightarrow> Schema" where
  "schema_insert def sch = sch(sd_name def \<mapsto> def)"

definition schema_remove :: "bytes \<Rightarrow> Schema \<Rightarrow> Schema" where
  "schema_remove name sch = sch(name := None)"

definition validate_store_def :: "bytes \<Rightarrow> bytes \<Rightarrow> unit result" where
  "validate_store_def name kp =
     (case validate_name name of
        Inl err \<Rightarrow> Inl err
      | Inr _ \<Rightarrow> if kp = [] then Inl (JsonDbErr ''key_path cannot be empty'') else Inr ())"

definition validate_index_def :: "StoreDef \<Rightarrow> bytes \<Rightarrow> bytes list \<Rightarrow> unit result" where
  "validate_index_def store name paths =
     (case validate_name name of
        Inl err \<Rightarrow> Inl err
      | Inr _ \<Rightarrow>
          if paths = [] \<or> [] \<in> set paths then Inl (JsonDbErr ''index key_paths cannot be empty'')
          else if \<exists>i\<in>set (indexes store). ix_name i = name
            then Inl (JsonDbErr (''index '' @ quoted name @ '' already exists in store '' @ quoted (sd_name store)))
          else Inr ())"

definition schema_record :: "json_ext \<Rightarrow> StoreDef \<Rightarrow> Record result" where
  "schema_record jx def =
     (case def_to_vec jx def of Inl err \<Rightarrow> Inl (JsonErr err) | Inr b \<Rightarrow> Inr (Record_new (schema_key (sd_name def)) 0 b))"

definition schema_delete_record :: "bytes \<Rightarrow> InternalRecord" where
  "schema_delete_record store = delete_rec (schema_key store) 0 0"

section \<open>Calls to the engine\<close>

definition eng_get :: "'l externals \<Rightarrow> int \<Rightarrow> bytes \<Rightarrow> ('l Engine, Record option) call" where
  "eng_get ext now_us k = (\<lambda>e. case get_bytes ext now_us k 0 e of (e, r) \<Rightarrow> Some (e, Inr r))"

text \<open>A scan and its records; an iteration that stops early ignores the rest.\<close>

definition eng_scan :: "'l externals \<Rightarrow> int \<Rightarrow> ScanRange \<Rightarrow> ('l Engine, Record list) call" where
  "eng_scan ext now_us rng = (\<lambda>e. map_option (\<lambda>(e, it). (e, Inr (scan_collect it))) (scan_default ext now_us rng e))"

definition eng_write :: "'l externals \<Rightarrow> int \<Rightarrow> InternalRecord list \<Rightarrow> ('l Engine, unit) call" where
  "eng_write ext now_us recs = (\<lambda>e. map_option (\<lambda>e. (e, Inr ())) (write_internal ext now_us recs e))"

section \<open>Batches\<close>

definition extract_index_values :: "json \<Rightarrow> IndexDef \<Rightarrow> json list list" where
  "extract_index_values doc idx =
     (let raw = map (extract_field doc) (key_paths idx)
      in if None \<in> set raw then []
         else case (multi_entry idx \<and> length (key_paths idx) = 1, map the raw) of
                (True, JArr xs # _) \<Rightarrow> map (\<lambda>v. [v]) xs
              | (_, vs) \<Rightarrow> [vs])"

definition index_entry_key :: "json_ext \<Rightarrow> bytes \<Rightarrow> IndexDef \<Rightarrow> bytes \<Rightarrow> json list \<Rightarrow> bytes" where
  "index_entry_key jx store idx key_bytes vals = idx_key store (ix_name idx) (encode_composite_value (to_vec jx) vals) key_bytes"

definition index_puts :: "json_ext \<Rightarrow> bytes \<Rightarrow> IndexDef \<Rightarrow> bytes \<Rightarrow> json list list \<Rightarrow> InternalRecord list" where
  "index_puts jx store idx key_bytes vs =
     map (\<lambda>vals. from_record (Record_new (index_entry_key jx store idx key_bytes vals) 0 key_bytes) 0) vs"

definition index_deletes :: "json_ext \<Rightarrow> StoreDef \<Rightarrow> bytes \<Rightarrow> bytes \<Rightarrow> json \<Rightarrow> InternalRecord list" where
  "index_deletes jx def store key_bytes old =
     concat (map (\<lambda>idx. map (\<lambda>vals. delete_rec (index_entry_key jx store idx key_bytes vals) 0 0) (extract_index_values old idx))
       (indexes def))"

definition read_old_doc :: "'l externals \<Rightarrow> json_ext \<Rightarrow> int \<Rightarrow> bytes \<Rightarrow> bytes \<Rightarrow> ('l Engine, json option) call" where
  "read_old_doc ext jx now_us store key_bytes =
     bind_call (eng_get ext now_us (doc_key store key_bytes)) (\<lambda>r.
       case r of
         None \<Rightarrow> ret None
       | Some r \<Rightarrow> (case decode_doc (from_slice jx) (pval r) of
             Inr d \<Rightarrow> ret (Some d)
           | Inl _ \<Rightarrow> lift_res (Inl (JsonDbErr ''corrupted document''))))"

fun check_unique :: "'l externals \<Rightarrow> json_ext \<Rightarrow> int \<Rightarrow> bytes \<Rightarrow> IndexDef \<Rightarrow> bytes \<Rightarrow> json list list \<Rightarrow> ('l Engine, unit) call" where
  "check_unique ext jx now_us store idx key_bytes [] = ret ()"
| "check_unique ext jx now_us store idx key_bytes (vals # vs) =
     bind_call (eng_scan ext now_us (prefix_range (idx_value_prefix store (ix_name idx) (encode_composite_value (to_vec jx) vals)))) (\<lambda>rs.
       if \<exists>r\<in>set rs. pval r \<noteq> key_bytes
       then lift_res (Inl (JsonDbErr (''unique constraint violation: index '' @ quoted (ix_name idx))))
       else check_unique ext jx now_us store idx key_bytes vs)"

definition put_index_entries :: "'l externals \<Rightarrow> json_ext \<Rightarrow> int \<Rightarrow> bytes \<Rightarrow> bytes \<Rightarrow> json \<Rightarrow> IndexDef
    \<Rightarrow> ('l Engine, InternalRecord list) call" where
  "put_index_entries ext jx now_us store key_bytes doc idx =
     (let vs = extract_index_values doc idx
      in bind_call (if unique idx then check_unique ext jx now_us store idx key_bytes vs else ret ())
           (\<lambda>_. ret (index_puts jx store idx key_bytes vs)))"

definition build_put_batch :: "'l externals \<Rightarrow> json_ext \<Rightarrow> int \<Rightarrow> StoreDef \<Rightarrow> bytes \<Rightarrow> bytes \<Rightarrow> bytes \<Rightarrow> json
    \<Rightarrow> ('l Engine, InternalRecord list) call" where
  "build_put_batch ext jx now_us def store key_bytes doc_bytes doc =
     bind_call (read_old_doc ext jx now_us store key_bytes) (\<lambda>old.
       let dels = (case old of Some d \<Rightarrow> index_deletes jx def store key_bytes d | None \<Rightarrow> []);
           put = from_record (Record_new (doc_key store key_bytes) 0 doc_bytes) 0
       in bind_call (for_each (put_index_entries ext jx now_us store key_bytes doc) (indexes def)) (\<lambda>es.
            ret (dels @ [put] @ concat es)))"

definition build_delete_batch :: "'l externals \<Rightarrow> json_ext \<Rightarrow> int \<Rightarrow> StoreDef \<Rightarrow> bytes \<Rightarrow> bytes
    \<Rightarrow> ('l Engine, InternalRecord list) call" where
  "build_delete_batch ext jx now_us def store key_bytes =
     bind_call (read_old_doc ext jx now_us store key_bytes) (\<lambda>old.
       ret ((case old of Some d \<Rightarrow> index_deletes jx def store key_bytes d | None \<Rightarrow> [])
            @ [delete_rec (doc_key store key_bytes) 0 0]))"

text \<open>The counter is eight bytes; the addition wraps (release build).\<close>

definition prepare_counter :: "'l externals \<Rightarrow> int \<Rightarrow> bytes \<Rightarrow> ('l Engine, nat \<times> InternalRecord) call" where
  "prepare_counter ext now_us store =
     bind_call (eng_get ext now_us (counter_key store)) (\<lambda>r.
       bind_call (case r of
             Some r \<Rightarrow> if length (pval r) = 8 then ret (be_val (pval r))
                       else lift_res (Inl (JsonDbErr (''corrupted auto-increment counter for store '' @ quoted store)))
           | None \<Rightarrow> ret 0) (\<lambda>current.
         let next = (current + 1) mod 2 ^ 64
         in ret (next, from_record (Record_new (counter_key store) 0 (be_bytes 8 next)) 0)))"

section \<open>The database\<close>

record 'l JsonDB =
  jd_engine :: "'l Engine"
  jd_schema :: Schema

definition on_engine :: "('l Engine, 'a) call \<Rightarrow> ('l JsonDB, 'a) call" where
  "on_engine m = (\<lambda>db. map_option (\<lambda>(e, r). (db\<lparr>jd_engine := e\<rparr>, r)) (m (jd_engine db)))"

definition with_store :: "bytes \<Rightarrow> (StoreDef \<Rightarrow> ('l JsonDB, 'a) call) \<Rightarrow> ('l JsonDB, 'a) call" where
  "with_store store f = (\<lambda>db. case jd_schema db store of
       None \<Rightarrow> Some (db, Inl (JsonDbErr (''store '' @ quoted store @ '' not found'')))
     | Some def \<Rightarrow> f def db)"

definition set_schema :: "(Schema \<Rightarrow> Schema) \<Rightarrow> ('l JsonDB, unit) call" where
  "set_schema f = (\<lambda>db. Some (db\<lparr>jd_schema := f (jd_schema db)\<rparr>, Inr ()))"

fun load_defs :: "json_ext \<Rightarrow> Record list \<Rightarrow> Schema \<Rightarrow> Schema result" where
  "load_defs jx [] sch = Inr sch"
| "load_defs jx (r # rs) sch =
     (case def_from_slice jx (pval r) of Inl err \<Rightarrow> Inl (JsonErr err) | Inr def \<Rightarrow> load_defs jx rs (schema_insert def sch))"

definition load_schemas :: "'l externals \<Rightarrow> json_ext \<Rightarrow> int \<Rightarrow> ('l Engine, Schema) call" where
  "load_schemas ext jx now_us =
     bind_call (eng_scan ext now_us (prefix_range schema_prefix)) (\<lambda>rs. lift_res (load_defs jx rs Map.empty))"

definition from_engine :: "'l externals \<Rightarrow> json_ext \<Rightarrow> int \<Rightarrow> 'l Engine \<Rightarrow> 'l JsonDB result option" where
  "from_engine ext jx now_us e =
     map_option (\<lambda>(e, r). case r of Inl err \<Rightarrow> Inl err | Inr sch \<Rightarrow> Inr \<lparr>jd_engine = e, jd_schema = sch\<rparr>)
       (load_schemas ext jx now_us e)"

definition json_open :: "'l externals \<Rightarrow> json_ext \<Rightarrow> nat \<Rightarrow> int \<Rightarrow> Config \<Rightarrow> disk option \<Rightarrow> 'l JsonDB result option" where
  "json_open ext jx stack_size now_us cfg d =
     (case engine_open ext stack_size cfg d of Inl err \<Rightarrow> Some (Inl err) | Inr e \<Rightarrow> from_engine ext jx now_us e)"

definition json_close :: "'l externals \<Rightarrow> int \<Rightarrow> 'l JsonDB \<Rightarrow> 'l JsonDB" where
  "json_close ext now_us db = db\<lparr>jd_engine := close ext now_us (jd_engine db)\<rparr>"

definition json_shutdown :: "'l externals \<Rightarrow> int \<Rightarrow> 'l JsonDB \<Rightarrow> 'l Engine" where
  "json_shutdown ext now_us db = shutdown ext now_us (jd_engine db)"

definition create_object_store :: "'l externals \<Rightarrow> json_ext \<Rightarrow> int \<Rightarrow> bytes \<Rightarrow> bytes \<Rightarrow> ('l JsonDB, unit) call" where
  "create_object_store ext jx now_us name kp =
     bind_call (lift_res (validate_store_def name kp)) (\<lambda>_ db.
       case jd_schema db name of
         Some d \<Rightarrow>
           if key_path d \<noteq> kp
           then Some (db, Inl (JsonDbErr (''store '' @ quoted name @ '' already exists with a different key_path'')))
           else Some (db, Inr ())
       | None \<Rightarrow>
           (let entry = StoreDef_new name kp
            in bind_call (lift_res (schema_record jx entry)) (\<lambda>r.
               bind_call (on_engine (eng_write ext now_us [from_record r 0])) (\<lambda>_.
               set_schema (schema_insert entry))) db))"

definition delete_object_store :: "'l externals \<Rightarrow> int \<Rightarrow> bytes \<Rightarrow> ('l JsonDB, unit) call" where
  "delete_object_store ext now_us name =
     with_store name (\<lambda>def.
       let recs = map (\<lambda>idx. let p = idx_prefix name (ix_name idx) in delete_range_rec p (increment_prefix_bytes p) 0) (indexes def)
             @ [delete_range_rec (doc_prefix name) (increment_prefix_bytes (doc_prefix name)) 0, schema_delete_record name,
                delete_rec (counter_key name) 0 0]
       in bind_call (on_engine (eng_write ext now_us recs)) (\<lambda>_. set_schema (schema_remove name)))"

text \<open>The index entries of the documents a new index finds.\<close>

definition backfill :: "json_ext \<Rightarrow> StoreDef \<Rightarrow> bytes \<Rightarrow> IndexDef \<Rightarrow> Record \<Rightarrow> ('s, InternalRecord list) call" where
  "backfill jx def store index r =
     bind_call (lift_res (decode_doc (from_slice jx) (pval r))) (\<lambda>doc.
       for_each (\<lambda>vals.
         bind_call (lift_res (encode_primary_key (to_vec jx) (num_str jx)
             (case extract_field doc (key_path def) of Some k \<Rightarrow> k | None \<Rightarrow> JNull))) (\<lambda>key_bytes.
           ret (from_record (Record_new (index_entry_key jx store index key_bytes vals) 0 key_bytes) 0)))
         (extract_index_values doc index))"

definition create_index :: "'l externals \<Rightarrow> json_ext \<Rightarrow> int \<Rightarrow> bytes \<Rightarrow> bytes \<Rightarrow> bytes list \<Rightarrow> bool \<Rightarrow> ('l JsonDB, unit) call" where
  "create_index ext jx now_us store name paths u =
     with_store store (\<lambda>def.
       bind_call (lift_res (validate_index_def def name paths)) (\<lambda>_.
         let index = \<lparr>key_paths = paths, ix_name = name, unique = u, multi_entry = False\<rparr>;
             def = def\<lparr>indexes := indexes def @ [index]\<rparr>
         in bind_call (lift_res (schema_record jx def)) (\<lambda>sr.
            bind_call (on_engine (eng_scan ext now_us (prefix_range (doc_prefix store)))) (\<lambda>docs.
            bind_call (for_each (backfill jx def store index) docs) (\<lambda>es.
            bind_call (on_engine (eng_write ext now_us (from_record sr 0 # concat es))) (\<lambda>_.
            set_schema (schema_insert def)))))))"

definition create_index_on :: "'l externals \<Rightarrow> json_ext \<Rightarrow> int \<Rightarrow> bytes \<Rightarrow> bytes \<Rightarrow> bytes \<Rightarrow> bool \<Rightarrow> ('l JsonDB, unit) call" where
  "create_index_on ext jx now_us store name path u = create_index ext jx now_us store name [path] u"

text \<open>\<open>remove_index\<close> removes the first index of that name.\<close>

fun remove_index :: "bytes \<Rightarrow> IndexDef list \<Rightarrow> IndexDef list" where
  "remove_index name [] = []"
| "remove_index name (i # is) = (if ix_name i = name then is else i # remove_index name is)"

definition delete_index :: "'l externals \<Rightarrow> json_ext \<Rightarrow> int \<Rightarrow> bytes \<Rightarrow> bytes \<Rightarrow> ('l JsonDB, unit) call" where
  "delete_index ext jx now_us store name =
     with_store store (\<lambda>def.
       if \<forall>i\<in>set (indexes def). ix_name i \<noteq> name
       then lift_res (Inl (JsonDbErr (''index '' @ quoted name @ '' not found on store '' @ quoted store)))
       else let def = def\<lparr>indexes := remove_index name (indexes def)\<rparr>; p = idx_prefix store name
            in bind_call (lift_res (schema_record jx def)) (\<lambda>sr.
               bind_call (on_engine (eng_write ext now_us [delete_range_rec p (increment_prefix_bytes p) 0, from_record sr 0])) (\<lambda>_.
               set_schema (schema_insert def))))"

definition get_store :: "bytes \<Rightarrow> 'l JsonDB \<Rightarrow> StoreDef option" where
  "get_store name db = jd_schema db name"

text \<open>\<open>order\<close> is the iteration order of the schema cache.\<close>

definition store_names :: "bytes list \<Rightarrow> 'l JsonDB \<Rightarrow> bytes list" where
  "store_names order db = map sd_name (List.map_filter (jd_schema db) order)"

definition apply_new_store :: "'l externals \<Rightarrow> json_ext \<Rightarrow> int \<Rightarrow> StoreDef \<Rightarrow> ('l JsonDB, unit) call" where
  "apply_new_store ext jx now_us def =
     bind_call (create_object_store ext jx now_us (sd_name def) (key_path def)) (\<lambda>_.
     bind_call (if auto_increment def
        then (\<lambda>db. case jd_schema db (sd_name def) of
                None \<Rightarrow> None
              | Some current \<Rightarrow>
                  (let current = current\<lparr>auto_increment := True\<rparr>
                   in bind_call (lift_res (schema_record jx current)) (\<lambda>r.
                      bind_call (on_engine (eng_write ext now_us [from_record r 0])) (\<lambda>_.
                      set_schema (schema_insert current))) db))
        else ret ()) (\<lambda>_.
     bind_call (for_each (\<lambda>idx. create_index ext jx now_us (sd_name def) (ix_name idx) (key_paths idx) (unique idx)) (indexes def)) (\<lambda>_.
     ret ())))"

definition index_conflict :: "StoreDef \<Rightarrow> IndexDef \<Rightarrow> bool" where
  "index_conflict existing idx \<longleftrightarrow>
     (case find (\<lambda>i. ix_name i = ix_name idx) (indexes existing) of
        Some ex \<Rightarrow> key_paths ex \<noteq> key_paths idx \<or> unique ex \<noteq> unique idx
      | None \<Rightarrow> False)"

definition apply_store :: "'l externals \<Rightarrow> json_ext \<Rightarrow> int \<Rightarrow> StoreDef \<Rightarrow> ('l JsonDB, unit) call" where
  "apply_store ext jx now_us def = (\<lambda>db.
     case jd_schema db (sd_name def) of
       None \<Rightarrow> apply_new_store ext jx now_us def db
     | Some existing \<Rightarrow>
         if key_path existing \<noteq> key_path def
         then Some (db, Inl (JsonDbErr (''store '' @ quoted (sd_name def) @ '' already exists with a different key_path ('' @
                quoted (key_path existing) @ '' vs '' @ quoted (key_path def) @ '')'')))
         else case filter (index_conflict existing) (indexes def) of
                idx # _ \<Rightarrow> Some (db, Inl (JsonDbErr (''index '' @ quoted (ix_name idx) @ '' on store '' @ quoted (sd_name def) @
                             '' already exists with different definition'')))
              | [] \<Rightarrow>
                  bind_call (for_each (\<lambda>idx. create_index ext jx now_us (sd_name def) (ix_name idx) (key_paths idx) (unique idx))
                     (filter (\<lambda>idx. \<forall>i\<in>set (indexes existing). ix_name i \<noteq> ix_name idx) (indexes def))) (\<lambda>_.
                  bind_call (for_each (\<lambda>ex. delete_index ext jx now_us (sd_name def) (ix_name ex))
                     (filter (\<lambda>ex. \<forall>i\<in>set (indexes def). ix_name i \<noteq> ix_name ex) (indexes existing))) (\<lambda>_.
                  ret ())) db)"

definition apply_schemas :: "'l externals \<Rightarrow> json_ext \<Rightarrow> int \<Rightarrow> StoreDef list \<Rightarrow> ('l JsonDB, unit) call" where
  "apply_schemas ext jx now_us stores = bind_call (for_each (apply_store ext jx now_us) stores) (\<lambda>_. ret ())"

section \<open>Documents\<close>

definition missing_key :: "StoreDef \<Rightarrow> bytes \<Rightarrow> flow_error" where
  "missing_key def store = JsonDbErr (''document missing key_path '' @ quoted (key_path def) @ '' for store '' @ quoted store)"

definition json_put :: "'l externals \<Rightarrow> json_ext \<Rightarrow> int \<Rightarrow> bytes \<Rightarrow> json \<Rightarrow> ('l JsonDB, json) call" where
  "json_put ext jx now_us store doc =
     with_store store (\<lambda>def.
       case extract_field doc (key_path def) of
         None \<Rightarrow> lift_res (Inl (missing_key def store))
       | Some key_val \<Rightarrow>
           bind_call (lift_res (encode_primary_key (to_vec jx) (num_str jx) key_val)) (\<lambda>key_bytes.
           bind_call (lift_res (encode_doc (to_vec jx) doc)) (\<lambda>doc_bytes.
           bind_call (on_engine (build_put_batch ext jx now_us def store key_bytes doc_bytes doc)) (\<lambda>batch.
           bind_call (on_engine (eng_write ext now_us batch)) (\<lambda>_.
           ret key_val)))))"

definition json_get :: "'l externals \<Rightarrow> json_ext \<Rightarrow> int \<Rightarrow> bytes \<Rightarrow> json \<Rightarrow> ('l JsonDB, json option) call" where
  "json_get ext jx now_us store k =
     with_store store (\<lambda>_.
       bind_call (lift_res (encode_primary_key (to_vec jx) (num_str jx) k)) (\<lambda>key_bytes.
       bind_call (on_engine (eng_get ext now_us (doc_key store key_bytes))) (\<lambda>r.
         case r of
           Some r \<Rightarrow> bind_call (lift_res (decode_doc (from_slice jx) (pval r))) (\<lambda>d. ret (Some d))
         | None \<Rightarrow> ret None)))"

definition json_delete :: "'l externals \<Rightarrow> json_ext \<Rightarrow> int \<Rightarrow> bytes \<Rightarrow> json \<Rightarrow> ('l JsonDB, unit) call" where
  "json_delete ext jx now_us store k =
     with_store store (\<lambda>def.
       bind_call (lift_res (encode_primary_key (to_vec jx) (num_str jx) k)) (\<lambda>key_bytes.
       bind_call (on_engine (build_delete_batch ext jx now_us def store key_bytes)) (\<lambda>batch.
       on_engine (eng_write ext now_us batch))))"

text \<open>Injecting a generated key; the path is used as one field name.\<close>

definition inject_key :: "bytes \<Rightarrow> json \<Rightarrow> json \<Rightarrow> json" where
  "inject_key kp k doc = (case doc of JObj m \<Rightarrow> JObj (bt_insert kp k m) | _ \<Rightarrow> doc)"

definition digits :: "nat \<Rightarrow> bytes" where
  "digits n = map (\<lambda>c. word_of_nat (of_char c)) (show_nat n)"

definition put_auto :: "'l externals \<Rightarrow> json_ext \<Rightarrow> int \<Rightarrow> bytes \<Rightarrow> json \<Rightarrow> ('l JsonDB, json) call" where
  "put_auto ext jx now_us store doc =
     with_store store (\<lambda>def.
       if \<not> auto_increment def then lift_res (Inl (JsonDbErr (''store '' @ quoted store @ '' is not auto-increment'')))
       else
         bind_call (on_engine (prepare_counter ext now_us store)) (\<lambda>(next_id, counter_rec).
           let key_val = JNum (PosInt next_id); doc = inject_key (key_path def) key_val doc
           in bind_call (lift_res (encode_doc (to_vec jx) doc)) (\<lambda>doc_bytes.
              bind_call (on_engine (build_put_batch ext jx now_us def store (digits next_id) doc_bytes doc)) (\<lambda>batch.
              bind_call (on_engine (eng_write ext now_us (batch @ [counter_rec]))) (\<lambda>_.
              ret key_val)))))"

definition json_count :: "'l externals \<Rightarrow> int \<Rightarrow> bytes \<Rightarrow> ('l JsonDB, nat) call" where
  "json_count ext now_us store =
     with_store store (\<lambda>_.
       bind_call (on_engine (eng_scan ext now_us (prefix_range (doc_prefix store)))) (\<lambda>rs. ret (length rs)))"

definition json_scan :: "'l externals \<Rightarrow> json_ext \<Rightarrow> int \<Rightarrow> bytes \<Rightarrow> ('l JsonDB, json list) call" where
  "json_scan ext jx now_us store =
     with_store store (\<lambda>_.
       bind_call (on_engine (eng_scan ext now_us (prefix_range (doc_prefix store)))) (\<lambda>rs.
       for_each (\<lambda>r. lift_res (decode_doc (from_slice jx) (pval r))) rs))"

definition find_index :: "StoreDef \<Rightarrow> bytes \<Rightarrow> bytes \<Rightarrow> IndexDef result" where
  "find_index def store index =
     (case find (\<lambda>i. ix_name i = index) (indexes def) of
        Some i \<Rightarrow> Inr i
      | None \<Rightarrow> Inl (JsonDbErr (''index '' @ quoted index @ '' not found on '' @ quoted store)))"

definition encode_lookup :: "json_ext \<Rightarrow> IndexDef \<Rightarrow> json \<Rightarrow> bytes" where
  "encode_lookup jx idx v =
     (if 1 < length (key_paths idx)
      then case v of JArr xs \<Rightarrow> encode_composite_value (to_vec jx) xs | _ \<Rightarrow> encode_index_value (to_vec jx) v
      else encode_index_value (to_vec jx) v)"

text \<open>The documents that index entries point to; an entry without a document is skipped.\<close>

definition fetch_doc :: "'l externals \<Rightarrow> json_ext \<Rightarrow> int \<Rightarrow> bytes \<Rightarrow> Record \<Rightarrow> ('l Engine, json list) call" where
  "fetch_doc ext jx now_us store r =
     bind_call (eng_get ext now_us (doc_key store (pval r))) (\<lambda>d.
       case d of Some d \<Rightarrow> bind_call (lift_res (decode_doc (from_slice jx) (pval d))) (\<lambda>d. ret [d]) | None \<Rightarrow> ret [])"

definition fetch_docs :: "'l externals \<Rightarrow> json_ext \<Rightarrow> int \<Rightarrow> bytes \<Rightarrow> ScanRange \<Rightarrow> ('l Engine, json list) call" where
  "fetch_docs ext jx now_us store rng =
     bind_call (eng_scan ext now_us rng) (\<lambda>rs.
     bind_call (for_each (fetch_doc ext jx now_us store) rs) (\<lambda>ds. ret (concat ds)))"

definition get_by_index :: "'l externals \<Rightarrow> json_ext \<Rightarrow> int \<Rightarrow> bytes \<Rightarrow> bytes \<Rightarrow> json \<Rightarrow> ('l JsonDB, json list) call" where
  "get_by_index ext jx now_us store index v =
     with_store store (\<lambda>def.
       bind_call (lift_res (find_index def store index)) (\<lambda>idx.
       on_engine (fetch_docs ext jx now_us store (prefix_range (idx_value_prefix store index (encode_lookup jx idx v))))))"

definition range_by_index :: "'l externals \<Rightarrow> json_ext \<Rightarrow> int \<Rightarrow> bytes \<Rightarrow> bytes \<Rightarrow> json \<Rightarrow> json \<Rightarrow> ('l JsonDB, json list) call" where
  "range_by_index ext jx now_us store index s e =
     with_store store (\<lambda>def.
       bind_call (lift_res (find_index def store index)) (\<lambda>idx.
         let p = idx_prefix store index
         in on_engine (fetch_docs ext jx now_us store
              \<lparr>key_start = Included (p @ encode_lookup jx idx s), key_end = Excluded (p @ encode_lookup jx idx e),
               ts_start = Unbounded, ts_end = Unbounded\<rparr>)))"

text \<open>Key arguments and their conversion to values.\<close>

datatype KeyArg = KStr bytes | KI64 int | KI32 int | KU64 nat | KU32 nat | KVal json

definition number_of_i64 :: "int \<Rightarrow> number" where
  "number_of_i64 i = (if i < 0 then NegInt i else PosInt (nat i))"

fun into_value :: "KeyArg \<Rightarrow> json" where
  "into_value (KStr s) = JStr s"
| "into_value (KI64 i) = JNum (number_of_i64 i)"
| "into_value (KI32 i) = JNum (number_of_i64 i)"
| "into_value (KU64 n) = JNum (PosInt n)"
| "into_value (KU32 n) = JNum (PosInt n)"
| "into_value (KVal v) = v"

text \<open>The typed calls; \<open>ser\<close> and \<open>de\<close> are \<^verbatim>\<open>serde_json::to_value\<close> and \<^verbatim>\<open>from_value\<close> at the caller's type.\<close>

definition json_result :: "string + 'a \<Rightarrow> 'a result" where
  "json_result r = (case r of Inl err \<Rightarrow> Inl (JsonErr err) | Inr x \<Rightarrow> Inr x)"

definition put_doc :: "'l externals \<Rightarrow> json_ext \<Rightarrow> ('t \<Rightarrow> string + json) \<Rightarrow> int \<Rightarrow> bytes \<Rightarrow> 't \<Rightarrow> ('l JsonDB, json) call" where
  "put_doc ext jx ser now_us store doc =
     bind_call (lift_res (json_result (ser doc))) (\<lambda>v. json_put ext jx now_us store v)"

definition get_doc :: "'l externals \<Rightarrow> json_ext \<Rightarrow> (json \<Rightarrow> string + 't) \<Rightarrow> int \<Rightarrow> bytes \<Rightarrow> KeyArg \<Rightarrow> ('l JsonDB, 't option) call" where
  "get_doc ext jx de now_us store k =
     bind_call (json_get ext jx now_us store (into_value k)) (\<lambda>r.
       case r of
         Some v \<Rightarrow> bind_call (lift_res (json_result (de v))) (\<lambda>t. ret (Some t))
       | None \<Rightarrow> ret None)"

definition delete_doc :: "'l externals \<Rightarrow> json_ext \<Rightarrow> int \<Rightarrow> bytes \<Rightarrow> KeyArg \<Rightarrow> ('l JsonDB, unit) call" where
  "delete_doc ext jx now_us store k = json_delete ext jx now_us store (into_value k)"

end
