(* ===== verification/Json_Query.thy ===== *)
theory Json_Query
  imports Jsondb
begin

text \<open>
  \<^verbatim>\<open>src/jsondb/query.rs\<close>: the query builder: filters, the choice of an index and its scan range, the scan with early
  termination, filtering, sorting, offset and limit.  The sum of limit and offset is taken without overflow.
\<close>

section \<open>Builder\<close>

datatype SortDir = Asc | Desc

datatype QueryFilter = QEq bytes json | QRange bytes json json | QIn bytes "json list"

record QueryBuilder =
  q_store :: bytes
  q_filters :: "QueryFilter list"
  order_field :: "bytes option"
  order_dir :: SortDir
  q_limit :: "nat option"
  q_offset :: nat

definition QueryBuilder_new :: "bytes \<Rightarrow> QueryBuilder" where
  "QueryBuilder_new store =
     \<lparr>q_store = store, q_filters = [], order_field = None, order_dir = Asc, q_limit = None, q_offset = 0\<rparr>"

definition where_eq :: "bytes \<Rightarrow> json \<Rightarrow> QueryBuilder \<Rightarrow> QueryBuilder" where
  "where_eq f v q = q\<lparr>q_filters := q_filters q @ [QEq f v]\<rparr>"

definition where_range :: "bytes \<Rightarrow> json \<Rightarrow> json \<Rightarrow> QueryBuilder \<Rightarrow> QueryBuilder" where
  "where_range f s e q = q\<lparr>q_filters := q_filters q @ [QRange f s e]\<rparr>"

definition where_in :: "bytes \<Rightarrow> json list \<Rightarrow> QueryBuilder \<Rightarrow> QueryBuilder" where
  "where_in f vs q = q\<lparr>q_filters := q_filters q @ [QIn f vs]\<rparr>"

definition order_by :: "bytes \<Rightarrow> SortDir \<Rightarrow> QueryBuilder \<Rightarrow> QueryBuilder" where
  "order_by f d q = q\<lparr>order_field := Some f, order_dir := d\<rparr>"

definition limit :: "nat \<Rightarrow> QueryBuilder \<Rightarrow> QueryBuilder" where
  "limit n q = q\<lparr>q_limit := Some n\<rparr>"

definition offset :: "nat \<Rightarrow> QueryBuilder \<Rightarrow> QueryBuilder" where
  "offset n q = q\<lparr>q_offset := n\<rparr>"

section \<open>Filters\<close>

fun filter_matches :: "json_ext \<Rightarrow> json \<Rightarrow> QueryFilter \<Rightarrow> bool" where
  "filter_matches jx doc (QEq f v) \<longleftrightarrow> value_eq (extract_field doc f) (Some v)"
| "filter_matches jx doc (QRange f s e) \<longleftrightarrow>
     (case extract_field doc f of
        Some v \<Rightarrow> encode_index_value (to_vec jx) s \<le> encode_index_value (to_vec jx) v
                  \<and> encode_index_value (to_vec jx) v < encode_index_value (to_vec jx) e
      | None \<Rightarrow> False)"
| "filter_matches jx doc (QIn f vs) \<longleftrightarrow>
     (case extract_field doc f of
        Some v \<Rightarrow> \<exists>w\<in>set vs. encode_index_value (to_vec jx) v = encode_index_value (to_vec jx) w
      | None \<Rightarrow> False)"

fun filter_field :: "QueryFilter \<Rightarrow> bytes" where
  "filter_field (QEq f _) = f"
| "filter_field (QRange f _ _) = f"
| "filter_field (QIn f _) = f"

section \<open>Planning\<close>

datatype ScanPlan = IndexPlan bytes "bytes option" "bytes option" | FullScan

fun score_paths :: "QueryFilter list \<Rightarrow> bytes list \<Rightarrow> nat" where
  "score_paths fs [] = 0"
| "score_paths fs (p # ps) = (if \<exists>f\<in>set fs. filter_field f = p then Suc (score_paths fs ps) else 0)"

definition score_index :: "QueryBuilder \<Rightarrow> IndexDef \<Rightarrow> nat" where
  "score_index q idx = score_paths (q_filters q) (key_paths idx)"

text \<open>The end key of a range: the encoded \<open>Eq\<close> values of the paths before, then the end value.\<close>

fun range_end_key :: "json_ext \<Rightarrow> QueryFilter list \<Rightarrow> bytes \<Rightarrow> bytes \<Rightarrow> bytes list \<Rightarrow> bytes \<Rightarrow> bytes" where
  "range_end_key jx fs path enc_end [] acc = acc"
| "range_end_key jx fs path enc_end (p # ps) acc =
     (if p = path then acc @ enc_end
      else range_end_key jx fs path enc_end ps
        (case find (\<lambda>f. case f of QEq g _ \<Rightarrow> g = p | _ \<Rightarrow> False) fs of
           Some (QEq _ v) \<Rightarrow> acc @ encode_index_value (to_vec jx) v @ [SEP]
         | _ \<Rightarrow> acc))"

text \<open>The loop of \<^verbatim>\<open>build_index_scan\<close>: the start key so far and the end key of a range filter.\<close>

fun scan_keys :: "json_ext \<Rightarrow> QueryFilter list \<Rightarrow> bytes \<Rightarrow> bytes list \<Rightarrow> bytes list \<Rightarrow> bytes \<Rightarrow> bytes \<times> bytes option" where
  "scan_keys jx fs pfx all_paths [] partial = (partial, None)"
| "scan_keys jx fs pfx all_paths (p # ps) partial =
     (case find (\<lambda>f. filter_field f = p) fs of
        Some (QEq _ v) \<Rightarrow> scan_keys jx fs pfx all_paths ps (partial @ encode_index_value (to_vec jx) v @ [SEP])
      | Some (QRange _ s e) \<Rightarrow>
          (partial @ encode_index_value (to_vec jx) s,
           Some (range_end_key jx fs p (encode_index_value (to_vec jx) e) all_paths pfx))
      | Some (QIn _ _) \<Rightarrow> (partial, None)
      | None \<Rightarrow> (partial, None))"

definition build_index_scan :: "json_ext \<Rightarrow> QueryBuilder \<Rightarrow> IndexDef \<Rightarrow> ScanPlan" where
  "build_index_scan jx q idx =
     (let pfx = idx_prefix (q_store q) (ix_name idx);
          (partial, range_end_bytes) = scan_keys jx (q_filters q) pfx (key_paths idx) (key_paths idx) pfx;
          partial = (if partial \<noteq> [] \<and> last partial = SEP then butlast partial else partial)
      in IndexPlan partial (if partial \<noteq> [] then Some partial else None) range_end_bytes)"

text \<open>The first index with the greatest positive score.\<close>

definition best_index :: "QueryBuilder \<Rightarrow> IndexDef list \<Rightarrow> (nat \<times> IndexDef) option" where
  "best_index q is =
     fold (\<lambda>idx best. if (case best of Some (s, _) \<Rightarrow> s | None \<Rightarrow> 0) < score_index q idx then Some (score_index q idx, idx) else best)
       is None"

definition plan_scan :: "json_ext \<Rightarrow> QueryBuilder \<Rightarrow> StoreDef \<Rightarrow> ScanPlan \<times> IndexDef option" where
  "plan_scan jx q def =
     (case best_index q (indexes def) of
        Some (_, idx) \<Rightarrow> (build_index_scan jx q idx, Some idx)
      | None \<Rightarrow> (FullScan, None))"

section \<open>Execution\<close>

definition needs_sort :: "QueryBuilder \<Rightarrow> IndexDef option \<Rightarrow> bool" where
  "needs_sort q used =
     (case order_field q of
        None \<Rightarrow> False
      | Some f \<Rightarrow> \<not> (case used of
            Some idx \<Rightarrow> order_dir q = Asc \<and> key_paths idx \<noteq> [] \<and> hd (key_paths idx) = f
          | None \<Rightarrow> False))"

text \<open>The two loops with early termination: \<open>target\<close> is the number of results after which the scan stops.\<close>

fun index_loop :: "'l externals \<Rightarrow> json_ext \<Rightarrow> int \<Rightarrow> bytes \<Rightarrow> nat option \<Rightarrow> Record list \<Rightarrow> json list \<Rightarrow> ('l Engine, json list) call" where
  "index_loop ext jx now_us store target [] acc = ret acc"
| "index_loop ext jx now_us store target (r # rs) acc =
     bind_call (fetch_doc ext jx now_us store r) (\<lambda>ds.
       let acc = acc @ ds
       in if (case target of Some t \<Rightarrow> t \<le> length acc | None \<Rightarrow> False) then ret acc
          else index_loop ext jx now_us store target rs acc)"

fun full_loop :: "json_ext \<Rightarrow> nat option \<Rightarrow> Record list \<Rightarrow> json list \<Rightarrow> json list result" where
  "full_loop jx target [] acc = Inr acc"
| "full_loop jx target (r # rs) acc =
     (case decode_doc (from_slice jx) (pval r) of
        Inl err \<Rightarrow> Inl err
      | Inr d \<Rightarrow>
          (let acc = acc @ [d]
           in if (case target of Some t \<Rightarrow> t \<le> length acc | None \<Rightarrow> False) then Inr acc else full_loop jx target rs acc))"

definition plan_range :: "bytes \<Rightarrow> bytes option \<Rightarrow> bytes option \<Rightarrow> ScanRange" where
  "plan_range pfx s e =
     (case (s, e) of
        (Some s, Some e) \<Rightarrow> \<lparr>key_start = Included s, key_end = Excluded e, ts_start = Unbounded, ts_end = Unbounded\<rparr>
      | _ \<Rightarrow> prefix_range pfx)"

text \<open>The sum of limit and offset is a \<^verbatim>\<open>usize\<close> and wraps (release build).\<close>

definition limit_target :: "QueryBuilder \<Rightarrow> nat option" where
  "limit_target q = map_option (\<lambda>l. (l + q_offset q) mod 2 ^ 64) (q_limit q)"

definition scan_docs :: "'l externals \<Rightarrow> json_ext \<Rightarrow> int \<Rightarrow> QueryBuilder \<Rightarrow> bool \<Rightarrow> ScanPlan \<Rightarrow> ('l Engine, json list) call" where
  "scan_docs ext jx now_us q sorting plan =
     (case plan of
        IndexPlan pfx s e \<Rightarrow>
          bind_call (eng_scan ext now_us (plan_range pfx s e)) (\<lambda>rs.
            index_loop ext jx now_us (q_store q) (if sorting then None else limit_target q) rs [])
      | FullScan \<Rightarrow>
          bind_call (eng_scan ext now_us (prefix_range (doc_prefix (q_store q)))) (\<lambda>rs.
            lift_res (full_loop jx (limit_target q) rs [])))"

definition order_key :: "json_ext \<Rightarrow> bytes \<Rightarrow> json \<Rightarrow> bytes" where
  "order_key jx f doc = encode_index_value (to_vec jx) (case extract_field doc f of Some v \<Rightarrow> v | None \<Rightarrow> JNull)"

text \<open>\<^verbatim>\<open>sort_by\<close> is stable; a stable sort by the reversed comparison is the reverse of the stable sort of the reversed list.\<close>

definition sort_docs :: "json_ext \<Rightarrow> QueryBuilder \<Rightarrow> json list \<Rightarrow> json list" where
  "sort_docs jx q docs =
     (case order_field q of
        None \<Rightarrow> docs
      | Some f \<Rightarrow> (case order_dir q of
            Asc \<Rightarrow> sort_key (order_key jx f) docs
          | Desc \<Rightarrow> rev (sort_key (order_key jx f) (rev docs))))"

definition finish_query :: "json_ext \<Rightarrow> QueryBuilder \<Rightarrow> bool \<Rightarrow> json list \<Rightarrow> json list" where
  "finish_query jx q sorting docs =
     (let docs = fold (\<lambda>f docs. filter (\<lambda>d. filter_matches jx d f) docs) (q_filters q) docs;
          docs = (if sorting then sort_docs jx q docs else docs);
          docs = drop (q_offset q) docs
      in case q_limit q of Some l \<Rightarrow> take l docs | None \<Rightarrow> docs)"

definition collect_query :: "'l externals \<Rightarrow> json_ext \<Rightarrow> int \<Rightarrow> QueryBuilder \<Rightarrow> ('l JsonDB, json list) call" where
  "collect_query ext jx now_us q =
     with_store (q_store q) (\<lambda>def.
       let (plan, used) = plan_scan jx q def; sorting = needs_sort q used
       in bind_call (on_engine (scan_docs ext jx now_us q sorting plan)) (\<lambda>docs. ret (finish_query jx q sorting docs)))"

text \<open>\<^verbatim>\<open>collect_doc\<close> at the caller's type.\<close>

definition collect_doc :: "'l externals \<Rightarrow> json_ext \<Rightarrow> (json \<Rightarrow> string + 't) \<Rightarrow> int \<Rightarrow> QueryBuilder \<Rightarrow> ('l JsonDB, 't list) call" where
  "collect_doc ext jx de now_us q =
     bind_call (collect_query ext jx now_us q) (\<lambda>vs. for_each (\<lambda>v. lift_res (json_result (de v))) vs)"

end
