(* ===== verification/Json_Plan.thy ===== *)
theory Json_Plan
  imports Json_Query
begin

text \<open>
  The plan of a query: the key range that \<^verbatim>\<open>build_index_scan\<close> computes contains the index entry of every document that satisfies the
  filters, and a plan for a filter with several values also scans other indexes.
\<close>

section \<open>Composite values\<close>

text \<open>The encoded values, each closed by a separator.\<close>

definition seps :: "json_ext \<Rightarrow> json list \<Rightarrow> bytes" where
  "seps jx vs = concat (map (\<lambda>v. encode_index_value (to_vec jx) v @ [SEP]) vs)"

lemma seps_simps [simp]: "seps jx [] = []" "seps jx (v # vs) = encode_index_value (to_vec jx) v @ [SEP] @ seps jx vs"
  "seps jx (us @ vs) = seps jx us @ seps jx vs"
  by (simp_all add: seps_def)

lemma composite_seps: "vs \<noteq> [] \<Longrightarrow> encode_composite_value (to_vec jx) vs @ [SEP] = seps jx vs"
proof -
  let ?f = "\<lambda>(i, v) buf. (if i > 0 then buf @ [SEP] else buf) @ encode_index_value (to_vec jx) v"
  have rest: "fold ?f (enumerate (Suc n) vs) buf @ [SEP] = buf @ [SEP] @ seps jx vs" for n buf vs
    by (induction vs arbitrary: n buf) simp_all
  assume "vs \<noteq> []"
  then obtain u us where "vs = u # us" by (cases vs) auto
  then show ?thesis using rest [of 0 us "encode_index_value (to_vec jx) u"] by (simp add: encode_composite_value_def del: seps_simps(3))
qed

lemma entry_key_seps: "vs \<noteq> [] \<Longrightarrow> index_entry_key jx store idx kb vs = idx_prefix store (ix_name idx) @ seps jx vs @ kb"
  using composite_seps [of vs jx] by (simp add: index_entry_key_def idx_key_def idx_prefix_def append.assoc [symmetric] del: append.assoc)

section \<open>Byte order of keys\<close>

lemma append_le: "(a :: bytes) @ b \<le> a @ c \<longleftrightarrow> b \<le> c"
  by (induction a) simp_all

lemma append_less: "(a :: bytes) @ b < a @ c \<longleftrightarrow> b < c"
  by (induction a) simp_all

lemma le_append: "(a :: bytes) \<le> b \<Longrightarrow> a \<le> b @ c"
proof (induction a arbitrary: b)
  case (Cons x a)
  then show ?case by (cases b) auto
qed simp

lemma butlast_le: "butlast (a :: bytes) \<le> a"
  by (cases a rule: rev_cases) (simp_all add: le_append)

text \<open>A strictly smaller string stays smaller when it is continued, unless it is a prefix that the other continues with a smaller byte.\<close>

lemma less_append:
  assumes "(a :: bytes) < b" "\<not> prefix a b"
  shows "a @ c < b"
  using assms
proof (induction a arbitrary: b)
  case (Cons x a)
  then show ?case by (cases b) auto
qed simp

lemma enc_nonempty: "encode_index_value tv v \<noteq> []"
  by (cases v) (auto split: option.split number.split)

lemma enc_number: "scalar (JNum n) \<Longrightarrow> length (encode_index_value tv (JNum n)) = 9 \<and> hd (encode_index_value tv (JNum n)) \<in> {4, 5, 6}"
  using num_tags [of n] by (auto simp: encode_num simp del: encode_index_value.simps)

lemma enc_number_prefix:
  assumes "scalar (JNum n)" "prefix (encode_index_value tv v) (encode_index_value tv (JNum n))"
  shows "encode_index_value tv v = encode_index_value tv (JNum n)"
proof -
  have h: "hd (encode_index_value tv v) \<in> {4, 5, 6}"
    using assms enc_number [OF assms(1)] enc_nonempty [of tv v] by (cases "encode_index_value tv v") (auto simp: prefix_def)
  then have "length (encode_index_value tv v) = 9"
    by (cases v) (auto simp: tag_defs split: option.splits number.splits if_splits)
  then show ?thesis using assms(2) enc_number [OF assms(1)] by (auto simp: prefix_def)
qed

lemma enc_sep_less:
  assumes "encode_index_value tv v < encode_index_value tv e" "scalar e" "no_nul e"
  shows "encode_index_value tv v @ [SEP] @ z < encode_index_value tv e"
proof (cases "prefix (encode_index_value tv v) (encode_index_value tv e)")
  case False
  then show ?thesis by (rule less_append [OF assms(1)])
next
  case True
  then obtain x where x: "encode_index_value tv e = encode_index_value tv v @ x" by (auto simp: prefix_def)
  then have nx: "x \<noteq> []" using assms(1) by auto
  show ?thesis
  proof (cases e)
    case (JStr s)
    then obtain u where "s = u @ x" using x enc_nonempty [of tv v] by (cases "encode_index_value tv v") auto
    then have "0 \<notin> set x" using JStr assms(3) by auto
    then obtain y ys where "x = y # ys" "y \<noteq> 0" using nx by (cases x) auto
    then show ?thesis unfolding x append_less by (simp add: SEP_def word_neq_0_conv)
  next
    case (JNum n)
    then show ?thesis using enc_number_prefix [of n tv v] True assms(1,2) by auto
  qed (use x nx enc_nonempty [of tv v] assms(2) in \<open>auto simp: append_eq_Cons_conv Cons_eq_append_conv split: if_splits\<close>)
qed

section \<open>The range of an index plan\<close>

text \<open>A document that satisfies the filters, equality taken without identifying \<open>-0\<close> and \<open>0\<close>, and range filters whose end is a scalar
  without NUL bytes.\<close>

definition plain_match :: "json_ext \<Rightarrow> QueryFilter list \<Rightarrow> json \<Rightarrow> bool" where
  "plain_match jx fs doc \<longleftrightarrow> (\<forall>f\<in>set fs. filter_matches jx doc f
     \<and> (case f of QEq p v \<Rightarrow> extract_field doc p = Some v | QRange _ _ e \<Rightarrow> scalar e \<and> no_nul e | QIn _ _ \<Rightarrow> True))"

lemma find_field: "find (\<lambda>f. filter_field f = p) fs = Some f \<Longrightarrow> f \<in> set fs \<and> filter_field f = p"
  by (auto simp: find_Some_iff)

lemma find_eq:
  "find (\<lambda>f. filter_field f = p) fs = Some (QEq p v) \<Longrightarrow> find (\<lambda>f. case f of QEq g _ \<Rightarrow> g = p | _ \<Rightarrow> False) fs = Some (QEq p v)"
  by (induction fs) (auto split: if_splits QueryFilter.splits)

lemma range_end_key_eq:
  assumes "list_all2 (\<lambda>p v. find (\<lambda>f. filter_field f = p) fs = Some (QEq p v)) pre us" "path \<notin> set pre"
  shows "range_end_key jx fs path enc_end (pre @ path # rest) acc = acc @ seps jx us @ enc_end"
  using assms by (induction arbitrary: acc rule: list_all2_induct) (auto dest!: find_eq)

definition in_scan :: "bytes \<times> bytes option \<Rightarrow> bytes \<Rightarrow> bool" where
  "in_scan re k \<longleftrightarrow> (case snd re of None \<Rightarrow> prefix (fst re) k | Some e \<Rightarrow> fst re \<le> k \<and> k < e)"

lemma scan_keys_prefix: "prefix part (fst (scan_keys jx fs pfx paths ps part))"
proof (induction ps arbitrary: part)
  case (Cons p ps)
  have "prefix part (fst (scan_keys jx fs pfx paths ps (part @ x)))" for x using Cons.IH [of "part @ x"] by (rule append_prefixD)
  then show ?case by (auto split: option.split QueryFilter.split)
qed simp

lemma scan_keys_covers:
  assumes "list_all2 (\<lambda>p v. extract_field doc p = Some v) ps vs" "plain_match jx fs doc"
    and "list_all2 (\<lambda>p v. find (\<lambda>f. filter_field f = p) fs = Some (QEq p v)) pre us" "distinct (pre @ ps)"
  shows "in_scan (scan_keys jx fs pfx (pre @ ps) ps (pfx @ seps jx us)) (pfx @ seps jx us @ seps jx vs @ kb)"
  using assms(1,3,4)
proof (induction arbitrary: pre us rule: list_all2_induct)
  case Nil
  then show ?case by (simp add: in_scan_def)
next
  case (Cons p ps v vs)
  show ?case
  proof (cases "find (\<lambda>f. filter_field f = p) fs")
    case None
    then show ?thesis by (simp add: in_scan_def)
  next
    case (Some f)
    from find_field [OF Some] have f: "f \<in> set fs" "filter_field f = p" by auto
    then have m: "filter_matches jx doc f \<and> (case f of QEq p v \<Rightarrow> extract_field doc p = Some v | QRange _ _ e \<Rightarrow> scalar e \<and> no_nul e | QIn _ _ \<Rightarrow> True)"
      using assms(2) by (auto simp: plain_match_def)
    show ?thesis
    proof (cases f)
      case (QEq g w)
      with f m Cons.hyps(1) have e: "f = QEq p v" by auto
      have a: "list_all2 (\<lambda>p v. find (\<lambda>f. filter_field f = p) fs = Some (QEq p v)) (pre @ [p]) (us @ [v])"
        using Cons.prems(1) Some e by (simp add: list_all2_appendI)
      from Cons.IH [OF a] Cons.prems(2) show ?thesis by (simp add: Some e)
    next
      case (QRange g s e)
      with f m Cons.hyps(1) have r: "f = QRange p s e" "encode_index_value (to_vec jx) s \<le> encode_index_value (to_vec jx) v"
        "encode_index_value (to_vec jx) v < encode_index_value (to_vec jx) e" "scalar e" "no_nul e" by auto
      have "range_end_key jx fs p (encode_index_value (to_vec jx) e) (pre @ p # ps) pfx = pfx @ seps jx us @ encode_index_value (to_vec jx) e"
        using Cons.prems by (intro range_end_key_eq) auto
      with r(2) enc_sep_less [OF r(3-5)] show ?thesis by (simp add: in_scan_def Some r(1) append_le append_less le_append)
    next
      case (QIn g ws)
      then show ?thesis using f by (simp add: in_scan_def Some)
    qed
  qed
qed

text \<open>C11. An index plan misses no match: when a document has a value for each path of the chosen index and satisfies every filter of the
  query, the key of its index entry lies in the key range the plan scans (has the plan's prefix, or lies between its start and its
  end).  Equality is meant without identifying \<open>-0\<close> and \<open>0\<close>, and range ends are scalars without NUL bytes.\<close>

theorem index_plan_complete:
  assumes "list_all2 (\<lambda>p v. extract_field doc p = Some v) (key_paths idx) vs" "key_paths idx \<noteq> []" "distinct (key_paths idx)"
    and "plain_match jx (q_filters q) doc" "build_index_scan jx q idx = IndexPlan pfx start end_key"
    and "ik = index_entry_key jx (q_store q) idx kb vs"
  shows "case end_key of None \<Rightarrow> prefix pfx ik | Some e \<Rightarrow> (\<exists>s. start = Some s \<and> s \<le> ik) \<and> ik < e"
proof -
  let ?p = "idx_prefix (q_store q) (ix_name idx)"
  have ik: "ik = ?p @ seps jx vs @ kb" using entry_key_seps assms(1,2,6) by (metis list_all2_Nil2)
  obtain r e where sk: "scan_keys jx (q_filters q) ?p (key_paths idx) (key_paths idx) ?p = (r, e)" by fastforce
  define r' where "r' = (if r \<noteq> [] \<and> last r = SEP then butlast r else r)"
  have plan: "pfx = r'" "start = (if r' \<noteq> [] then Some r' else None)" "end_key = e"
    using assms(5) sk by (auto simp: build_index_scan_def Let_def r'_def)
  have c: "in_scan (r, e) ik" using scan_keys_covers [OF assms(1,4), of "[]" "[]" ?p kb] assms(3) sk by (simp add: ik)
  have "3 \<le> length r"
    using prefix_length_le [OF scan_keys_prefix [of ?p jx "q_filters q" ?p "key_paths idx" "key_paths idx"]] sk by (simp add: idx_prefix_def)
  then have "r' \<noteq> []" unfolding r'_def by (cases r rule: rev_cases) auto
  moreover have "r' \<le> r" "prefix r' r" using butlast_le by (auto simp: r'_def prefixeq_butlast)
  ultimately show ?thesis using c plan by (auto simp: in_scan_def split: option.splits dest: prefix_order.trans)
qed

text \<open>For examples: an index on the paths \<^verbatim>\<open>c\<close> and \<^verbatim>\<open>a\<close>, and a parser that is not asked.\<close>

definition city_age :: IndexDef where
  "city_age = \<lparr>key_paths = [[99], [97]], ix_name = [120], unique = False, multi_entry = False\<rparr>"

definition no_json :: json_ext where
  "no_json = \<lparr>to_vec = \<lambda>_. Inl [], from_slice = \<lambda>_. Inl [], num_str = \<lambda>_. [], def_to_vec = \<lambda>_. Inl [], def_from_slice = \<lambda>_. Inl []\<rparr>"

theorem index_plan_complete_witness:
  "\<exists>pfx start e. build_index_scan no_json (where_range [97] (JNum (PosInt 25)) (JNum (PosInt 35)) (where_eq [99] (JStr [78]) (QueryBuilder_new [115]))) city_age
      = IndexPlan pfx start (Some e)
    \<and> (\<exists>s. start = Some s \<and> s \<le> index_entry_key no_json [115] city_age [49] [JStr [78], JNum (PosInt 30)])
    \<and> index_entry_key no_json [115] city_age [49] [JStr [78], JNum (PosInt 30)] < e"
proof -
  let ?q = "where_range [97] (JNum (PosInt 25)) (JNum (PosInt 35)) (where_eq [99] (JStr [78]) (QueryBuilder_new [115]))"
  let ?d = "JObj [([97], JNum (PosInt 30)), ([99], JStr [78])]" and ?vs = "[JStr [78], JNum (PosInt 30)]"
  have f: "q_filters ?q = [QEq [99] (JStr [78]), QRange [97] (JNum (PosInt 25)) (JNum (PosInt 35))]" "q_store ?q = [115]"
    by (simp_all add: where_range_def where_eq_def QueryBuilder_new_def)
  have x: "extract_field ?d [97] = Some (JNum (PosInt 30))" "extract_field ?d [99] = Some (JStr [78])" by (simp_all add: extract_field_top)
  have le: "encode_index_value tv (JNum (PosInt a)) < encode_index_value tv (JNum (PosInt b)) \<longleftrightarrow> a < b" if "a < 100" "b < 100" for tv a b
    using encode_scalar_order [of "JNum (PosInt a)" "JNum (PosInt b)" tv] that by (simp add: i64_max_def del: encode_index_value.simps)
  have m: "plain_match no_json (q_filters ?q) ?d"
    unfolding f plain_match_def using x le [of 25 30] le [of 30 35] by (simp add: value_eq_def less_imp_le del: encode_index_value.simps)
  obtain pfx start e where b: "build_index_scan no_json ?q city_age = IndexPlan pfx start (Some e)"
    by (simp add: build_index_scan_def f city_age_def Let_def)
  from index_plan_complete [OF _ _ _ m b refl, of ?vs "[49]"] x b f(2) show ?thesis by (simp add: city_age_def)
qed

text \<open>A filter with several values on the first path of an index scans more than that index: the plan's prefix is the key prefix
  of the index without its last separator, so it also matches the entries of every index of the store whose name continues the
  name of the chosen one.\<close>

theorem where_in_scans_other_indexes:
  assumes "key_paths idx = p # ps" "find (\<lambda>f. filter_field f = p) (q_filters q) = Some (QIn p vs)" "prefix (ix_name idx) other"
  shows "\<exists>pfx. build_index_scan jx q idx = IndexPlan pfx (Some pfx) None \<and> prefix pfx (idx_key (q_store q) other v k)"
proof -
  let ?p = "[IDX_PREFIX] @ q_store q @ [SEP] @ ix_name idx"
  have "build_index_scan jx q idx = IndexPlan ?p (Some ?p) None"
    using assms(1,2) by (simp add: build_index_scan_def idx_prefix_def butlast_append Let_def)
  moreover have "prefix ?p (idx_key (q_store q) other v k)" using assms(3) by (auto simp: idx_key_def prefix_def)
  ultimately show ?thesis by blast
qed

theorem where_in_scans_other_indexes_witness:
  "\<exists>pfx. build_index_scan no_json (where_in [99] [JNull] (QueryBuilder_new [115])) city_age = IndexPlan pfx (Some pfx) None
    \<and> prefix pfx (idx_key [115] [120, 121] [7] [49])"
  using where_in_scans_other_indexes [of city_age "[99]" "[[97]]" "where_in [99] [JNull] (QueryBuilder_new [115])" "[JNull]" "[120, 121]" no_json "[7]" "[49]"]
  by (simp add: city_age_def where_in_def QueryBuilder_new_def)

end
