(* ===== verification/Json_Frame.thy ===== *)
theory Json_Frame
  imports Engine_Correct Jsondb
begin

text \<open>
  What a call of the document layer leaves alone, and what a write of it does to the memtables.  \<open>keeps I m\<close> says
  that the call \<open>m\<close> keeps the state predicate \<open>I\<close>, whatever it returns; the rules of the collection \<open>keeps_intros\<close> follow the
  structure of a call.  Reads keep everything of the engine but its block cache and its open readers.
\<close>

named_theorems keeps_intros

section \<open>Calls that keep a predicate\<close>

definition keeps :: "('s \<Rightarrow> bool) \<Rightarrow> ('s, 'a) call \<Rightarrow> bool" where
  "keeps I m \<longleftrightarrow> (\<forall>s s' r. I s \<longrightarrow> m s = Some (s', r) \<longrightarrow> I s')"

lemma keepsI [intro?]: "(\<And>s s' r. I s \<Longrightarrow> m s = Some (s', r) \<Longrightarrow> I s') \<Longrightarrow> keeps I m"
  by (auto simp: keeps_def)

lemma keepsD: "keeps I m \<Longrightarrow> m s = Some (s', r) \<Longrightarrow> I s \<Longrightarrow> I s'"
  by (auto simp: keeps_def)

lemma keeps_ret [keeps_intros]: "keeps I (ret x)"
  by (auto simp: keeps_def ret_def)

lemma keeps_lift_res [keeps_intros]: "keeps I (lift_res r)"
  by (auto simp: keeps_def lift_res_def)

lemma keeps_bind:
  assumes "keeps I m" "\<And>s s' x. I s \<Longrightarrow> m s = Some (s', Inr x) \<Longrightarrow> keeps I (f x)"
  shows "keeps I (bind_call m f)"
proof
  fix s s' r
  assume s: "I s" and b: "bind_call m f s = Some (s', r)"
  from b obtain s1 y where m: "m s = Some (s1, y)" by (auto simp: bind_call_def split: option.splits)
  then have i: "I s1" using s assms(1) by (rule keepsD [rotated])
  show "I s'"
  proof (cases y)
    case (Inl err)
    then show ?thesis using b m i by (simp add: bind_call_def)
  next
    case (Inr x)
    then have "f x s1 = Some (s', r)" using b m by (simp add: bind_call_def)
    then show ?thesis using keepsD [OF assms(2)] s i m Inr by blast
  qed
qed

lemma keeps_bind_simple [keeps_intros]: "keeps I m \<Longrightarrow> (\<And>x. keeps I (f x)) \<Longrightarrow> keeps I (bind_call m f)"
  by (rule keeps_bind)

lemma keeps_lift_bind: "(\<And>x. r = Inr x \<Longrightarrow> keeps I (f x)) \<Longrightarrow> keeps I (bind_call (lift_res r) f)"
  by (rule keeps_bind [OF keeps_lift_res]) (auto simp: lift_res_def)

lemma keeps_for_each [keeps_intros]: "(\<And>x. x \<in> set xs \<Longrightarrow> keeps I (f x)) \<Longrightarrow> keeps I (for_each f xs)"
  by (induction xs) (auto intro!: keeps_intros)

lemma keeps_if [keeps_intros]: "(P \<Longrightarrow> keeps I m) \<Longrightarrow> (\<not> P \<Longrightarrow> keeps I m') \<Longrightarrow> keeps I (if P then m else m')"
  by simp

lemma keeps_option [keeps_intros]:
  "(x = None \<Longrightarrow> keeps I m) \<Longrightarrow> (\<And>y. x = Some y \<Longrightarrow> keeps I (f y)) \<Longrightarrow> keeps I (case x of None \<Rightarrow> m | Some y \<Rightarrow> f y)"
  by (cases x) auto

lemma keeps_sum [keeps_intros]:
  "(\<And>e. x = Inl e \<Longrightarrow> keeps I (f e)) \<Longrightarrow> (\<And>y. x = Inr y \<Longrightarrow> keeps I (g y)) \<Longrightarrow> keeps I (case x of Inl e \<Rightarrow> f e | Inr y \<Rightarrow> g y)"
  by (cases x) auto

lemma keeps_prod [keeps_intros]: "(\<And>a b. x = (a, b) \<Longrightarrow> keeps I (f a b)) \<Longrightarrow> keeps I (case x of (a, b) \<Rightarrow> f a b)"
  by (cases x) auto

lemma keeps_Let [keeps_intros]: "keeps I (f x) \<Longrightarrow> keeps I (Let x f)"
  by simp

lemma keeps_with_store [keeps_intros]: "(\<And>def. keeps I (f def)) \<Longrightarrow> keeps I (with_store store f)"
  by (auto simp: keeps_def with_store_def split: option.splits)

lemma keeps_store:
  assumes "\<And>db def. I db \<Longrightarrow> jd_schema db store = Some def \<Longrightarrow> keeps I (f def)"
  shows "keeps I (with_store store f)"
proof
  fix db db' r
  assume i: "I db" and w: "with_store store f db = Some (db', r)"
  show "I db'"
  proof (cases "jd_schema db store")
    case (Some def)
    with w have "f def db = Some (db', r)" by (simp add: with_store_def)
    then show ?thesis using keepsD [OF assms [OF i Some]] i by blast
  qed (use i w in \<open>simp add: with_store_def\<close>)
qed

text \<open>What the results of a loop come from.\<close>

lemma for_each_results:
  assumes "for_each f xs s = Some (s', Inr ys)"
  shows "list_all2 (\<lambda>x y. \<exists>s s'. f x s = Some (s', Inr y)) xs ys"
  using assms by (induction xs arbitrary: s ys) (auto simp: ret_def elim!: bind_call_SomeD)

lemma for_each_results_keeps:
  assumes "for_each f xs s = Some (s', Inr ys)" "\<And>x. keeps I (f x)" "I s"
  shows "list_all2 (\<lambda>x y. \<exists>s s'. I s \<and> f x s = Some (s', Inr y)) xs ys"
  using assms(1,3)
proof (induction xs arbitrary: s ys)
  case (Cons x xs)
  from Cons.prems(1) obtain s1 y zs where x: "f x s = Some (s1, Inr y)" "for_each f xs s1 = Some (s', Inr zs)" "ys = y # zs"
    by (auto simp: ret_def elim!: bind_call_SomeD)
  with Cons.IH [OF x(2) keepsD [OF assms(2) x(1) Cons.prems(2)]] Cons.prems(2) show ?case by auto
qed (simp add: ret_def)

section \<open>Reads\<close>

text \<open>Everything of the engine but the block cache and the open readers.\<close>

definition engine_view :: "'l Engine \<Rightarrow> WriteWorker \<times> nat" where
  "engine_view e = (en_worker e, en_seq_counter e)"

definition db_view :: "'l JsonDB \<Rightarrow> (WriteWorker \<times> nat) \<times> Schema" where
  "db_view db = (engine_view (jd_engine db), jd_schema db)"

lemma get_reader_view [simp]: "engine_view (fst (get_reader sid e)) = engine_view e"
  by (simp add: get_reader_def engine_view_def split: option.split sum.split)

lemma block_search_view [simp]: "engine_view (fst (block_search ext k t now_us sid idx e)) = engine_view e"
  using get_reader_view [of sid e]
  by (auto simp: block_search_def engine_view_def split: prod.splits sum.splits option.splits)

lemma point_loop_st_inv:
  assumes "\<And>m s. P s \<Longrightarrow> P (fst (f m s))" "P s"
  shows "P (fst (point_loop_st ix k now_us f bs s))"
  using assms(2)
proof (induction bs arbitrary: s)
  case (Cons b bs)
  obtain sid blocks where b: "b = (sid, blocks)" by force
  show ?case using Cons.IH [OF Cons.prems] Cons.IH [OF assms(1) [OF Cons.prems]] assms(1) [OF Cons.prems] unfolding b
    by (auto split: option.split prod.split) (metis fst_conv)+
qed simp

lemma get_bytes_view [simp]: "engine_view (fst (get_bytes ext now_us k t e)) = engine_view e"
proof -
  have "engine_view (fst (point_loop_st ix k now_us (\<lambda>m. block_search ext k t now_us (bm_sst_id m) (bm_block_idx m)) bs e)) = engine_view e"
    for ix bs by (rule point_loop_st_inv [where P = "\<lambda>s. engine_view s = engine_view e"]) simp_all
  then show ?thesis by (simp add: get_bytes_def Let_def split: option.split)
qed

lemma keeps_eng_get [keeps_intros]: "keeps (\<lambda>e. P (engine_view e)) (eng_get ext now_us k)"
proof
  fix e e' r
  assume "P (engine_view e)" "eng_get ext now_us k e = Some (e', r)"
  then show "P (engine_view e')"
    using get_bytes_view [of ext now_us k 0 e] by (cases "get_bytes ext now_us k 0 e") (simp add: eng_get_def)
qed

lemma keeps_eng_scan [keeps_intros]: "keeps (\<lambda>e. P (engine_view e)) (eng_scan ext now_us rng)"
  by (rule keepsI) (auto simp: eng_scan_def scan_default_def scan_opt_def engine_scan_def engine_view_def split: prod.splits)

lemma keeps_on_engine [keeps_intros]:
  "keeps (\<lambda>e. P (engine_view e)) m \<Longrightarrow> keeps (\<lambda>db. P (engine_view (jd_engine db))) (on_engine m)"
  by (fastforce simp: keeps_def on_engine_def)

lemma keeps_on_engine_db [keeps_intros]:
  assumes "\<And>Q. keeps (\<lambda>e. Q (engine_view e)) m"
  shows "keeps (\<lambda>db. P (db_view db)) (on_engine m)"
proof
  fix db db' r
  assume "P (db_view db)" "on_engine m db = Some (db', r)"
  then obtain e' where "m (jd_engine db) = Some (e', r)" "db' = db\<lparr>jd_engine := e'\<rparr>" by (auto simp: on_engine_def)
  with \<open>P (db_view db)\<close> keepsD [OF assms [of "\<lambda>v. v = engine_view (jd_engine db)"]] show "P (db_view db')"
    by (fastforce simp: db_view_def)
qed

lemma keeps_on_engine_schema [keeps_intros]: "keeps (\<lambda>db. P (jd_schema db)) (on_engine m)"
  by (auto simp: keeps_def on_engine_def)

lemma keeps_check_unique [keeps_intros]: "keeps (\<lambda>e. P (engine_view e)) (check_unique ext jx now_us store idx key_bytes vs)"
  by (induction vs) (auto intro!: keeps_intros)

lemma keeps_read_old_doc [keeps_intros]: "keeps (\<lambda>e. P (engine_view e)) (read_old_doc ext jx now_us store key_bytes)"
  unfolding read_old_doc_def by (intro keeps_intros)

lemma keeps_build_put_batch [keeps_intros]:
  "keeps (\<lambda>e. P (engine_view e)) (build_put_batch ext jx now_us def store key_bytes doc_bytes doc)"
  unfolding build_put_batch_def put_index_entries_def by (intro keeps_intros)

lemma keeps_build_delete_batch [keeps_intros]:
  "keeps (\<lambda>e. P (engine_view e)) (build_delete_batch ext jx now_us def store key_bytes)"
  unfolding build_delete_batch_def by (intro keeps_intros)

lemma keeps_prepare_counter [keeps_intros]: "keeps (\<lambda>e. P (engine_view e)) (prepare_counter ext now_us store)"
  unfolding prepare_counter_def by (intro keeps_intros)

lemma keeps_fetch_doc [keeps_intros]: "keeps (\<lambda>e. P (engine_view e)) (fetch_doc ext jx now_us store r)"
  unfolding fetch_doc_def by (intro keeps_intros)

lemma keeps_fetch_docs [keeps_intros]: "keeps (\<lambda>e. P (engine_view e)) (fetch_docs ext jx now_us store rng)"
  unfolding fetch_docs_def by (intro keeps_intros)

section \<open>Writes in memory\<close>

text \<open>What a point lookup finds in the memtables: operation and value.  A write that neither waits for a flush nor ends with one
  only inserts its records.\<close>

definition mem_look :: "int \<Rightarrow> MemTables \<Rightarrow> bytes \<Rightarrow> (Op \<times> bytes) option" where
  "mem_look now_us ms k = map_option (\<lambda>r. (rop r, val r)) (mts_get k 0 now_us ms)"

definition active_ok :: "MemTables \<Rightarrow> bool" where
  "active_ok ms \<longleftrightarrow> (\<forall>v i. point_index (active ms) v = Some i \<longrightarrow> i < length (records (active ms)))"

definition no_flush :: "'l Engine \<Rightarrow> 'l Engine \<Rightarrow> bool" where
  "no_flush e e' \<longleftrightarrow> \<not> frozen_backpressure (ww_memtables (en_worker e)) \<and> records (active (ww_memtables (en_worker e'))) \<noteq> []"

lemma mts_ok_active: "mts_ok ms \<Longrightarrow> active_ok ms"
  by (auto simp: mts_ok_def mt_ok_def active_ok_def)

lemma active_ok_insert: "active_ok ms \<Longrightarrow> active_ok (mts_insert r ms)"
  by (fastforce simp: active_ok_def mts_insert_def mt_insert_def)

lemma active_ok_fold: "active_ok ms \<Longrightarrow> active_ok (fold mts_insert rs ms)"
  by (induction rs arbitrary: ms) (auto intro: active_ok_insert)

lemma mts_get_insert:
  assumes "active_ok ms" "now_us \<le> expire_at r"
  shows "mts_get k t now_us (mts_insert r ms) = (if version r = (k, t) then Some r else mts_get k t now_us ms)"
proof (cases "version r = (k, t)")
  case True
  then show ?thesis using assms(2) by (simp add: mts_get_def mts_insert_def mt_insert_def mt_get_def version_def)
next
  case False
  have "mt_get k t (mt_insert r (active ms)) = mt_get k t (active ms)"
    using assms(1) False by (auto simp: mt_get_def mt_insert_def nth_append version_def active_ok_def split: option.split)
  then show ?thesis using False by (simp add: mts_get_def mts_insert_def)
qed

text \<open>The last record for a key in a batch decides.\<close>

definition batch_look :: "InternalRecord list \<Rightarrow> bytes \<Rightarrow> (Op \<times> bytes) option" where
  "batch_look rs k = map_option (\<lambda>r. (rop r, val r)) (find (\<lambda>r. version r = (k, 0)) (rev rs))"

lemma find_append: "find P (xs @ ys) = (case find P xs of Some x \<Rightarrow> Some x | None \<Rightarrow> find P ys)"
  by (induction xs) simp_all

lemma batch_look_append: "batch_look (xs @ ys) k = (case batch_look ys k of Some x \<Rightarrow> Some x | None \<Rightarrow> batch_look xs k)"
  by (simp add: batch_look_def find_append split: option.split)

lemma batch_look_Nil [simp]: "batch_look [] k = None"
  by (simp add: batch_look_def)

lemma batch_look_one: "batch_look [r] k = (if version r = (k, 0) then Some (rop r, val r) else None)"
  by (simp add: batch_look_def)

lemma batch_look_Cons:
  "batch_look (r # rs) k = (case batch_look rs k of Some x \<Rightarrow> Some x | None \<Rightarrow> if version r = (k, 0) then Some (rop r, val r) else None)"
  using batch_look_append [of "[r]" rs k] by (simp add: batch_look_one split: option.split)

lemma batch_look_none: "batch_look rs k = None \<longleftrightarrow> (\<forall>r\<in>set rs. version r \<noteq> (k, 0))"
  by (auto simp: batch_look_def find_None_iff)

lemma batch_look_const:
  "\<forall>r\<in>set rs. version r = (k, 0) \<longrightarrow> (rop r, val r) = x \<Longrightarrow> batch_look rs k = (if \<exists>r\<in>set rs. version r = (k, 0) then Some x else None)"
  by (induction rs rule: rev_induct) (auto simp: batch_look_append batch_look_one)

lemma mem_look_fold:
  assumes "active_ok ms" "\<forall>r\<in>set rs. now_us \<le> expire_at r"
  shows "mem_look now_us (fold mts_insert rs ms) k = (case batch_look rs k of Some x \<Rightarrow> Some x | None \<Rightarrow> mem_look now_us ms k)"
  using assms(2)
proof (induction rs rule: rev_induct)
  case (snoc r rs)
  then show ?case using active_ok_fold [OF assms(1), of rs]
    by (simp add: mem_look_def mts_get_insert batch_look_append batch_look_one)
qed simp

lemma batch_look_number: "batch_look (map (\<lambda>(i, r). r\<lparr>seq := f i\<rparr>) (enumerate n rs)) k = batch_look rs k"
  by (induction rs arbitrary: n) (simp_all add: batch_look_Cons version_def split: option.split)

lemma write_internal_memory:
  assumes "write_internal ext now_us recs e = Some e'" "no_flush e e'" "recs \<noteq> []"
  shows "ww_memtables (en_worker e') = fold mts_insert (map (\<lambda>(i, r). r\<lparr>seq := (en_seq_counter e + i) mod 2 ^ 64\<rparr>) (enumerate 0 recs))
    (ww_memtables (en_worker e))"
proof -
  have fw: "flush_while (ev_compress ext) (ev_ser ext) now_us (en_worker e) = Some (en_worker e)"
    using assms(2) by (subst flush_while.simps) (simp add: no_flush_def)
  show ?thesis
    using assms fw
    by (auto simp: write_internal_def do_write_def process_batch_group_def process_batch_inner_def fetch_add_def Let_def no_flush_def
        do_flush_memtables freeze_pop_fields split: if_splits)
qed

lemma eng_write_memory:
  assumes "eng_write ext now_us recs e = Some (e', r)" "no_flush e e'" "recs \<noteq> []" "active_ok (ww_memtables (en_worker e))"
    and "\<forall>r\<in>set recs. expire_at r = i64_max" "now' \<le> i64_max"
  shows "active_ok (ww_memtables (en_worker e'))"
    and "mem_look now' (ww_memtables (en_worker e')) k =
      (case batch_look recs k of Some x \<Rightarrow> Some x | None \<Rightarrow> mem_look now' (ww_memtables (en_worker e)) k)"
proof -
  let ?n = "map (\<lambda>(i, r). r\<lparr>seq := (en_seq_counter e + i) mod 2 ^ 64\<rparr>) (enumerate 0 recs)"
  have w: "write_internal ext now_us recs e = Some e'" using assms(1) by (auto simp: eng_write_def)
  note m = write_internal_memory [OF w assms(2,3)]
  show "active_ok (ww_memtables (en_worker e'))" unfolding m by (rule active_ok_fold [OF assms(4)])
  have "\<forall>r\<in>set ?n. now' \<le> expire_at r" using assms(5,6) by (auto simp: in_set_enumerate_eq)
  from mem_look_fold [OF assms(4) this] show "mem_look now' (ww_memtables (en_worker e')) k =
      (case batch_look recs k of Some x \<Rightarrow> Some x | None \<Rightarrow> mem_look now' (ww_memtables (en_worker e)) k)"
    unfolding m by (simp add: batch_look_number)
qed

text \<open>A lookup that memory answers changes nothing.\<close>

lemma eng_get_memory:
  assumes "mem_look now_us (ww_memtables (en_worker e)) k = Some (oper, v)"
  shows "\<exists>r. eng_get ext now_us k e = Some (e, Inr (if oper = Delete then None else Some r)) \<and> pval r = v"
  using assms by (force simp: mem_look_def eng_get_def get_bytes_def to_record_def)

section \<open>Engines in memory\<close>

text \<open>An engine without tables whose active memtable has room for \<open>room\<close> more bytes: calls return, and memory alone answers.\<close>

definition calm :: "nat \<Rightarrow> 'l Engine \<Rightarrow> bool" where
  "calm room e \<longleftrightarrow> \<not> frozen_backpressure (ww_memtables (en_worker e)) \<and> active_ok (ww_memtables (en_worker e))
     \<and> mt_bytes (active (ww_memtables (en_worker e))) + room < memtable_size_limit (ww_memtables (en_worker e))
     \<and> by_key (ww_index (en_worker e)) = [] \<and> sst_blocks (ww_index (en_worker e)) = []"

lemma calm_less: "calm room e \<Longrightarrow> room' \<le> room \<Longrightarrow> calm room' e"
  by (simp add: calm_def)

lemma calm_view: "engine_view e = engine_view e' \<Longrightarrow> calm room e \<longleftrightarrow> calm room e'"
  by (simp add: calm_def engine_view_def)

declare fold_insert_fields [simp]

lemma size_number: "sum_list (map (estimated_size \<circ> (\<lambda>(i, r). r\<lparr>seq := f i\<rparr>)) (enumerate n rs)) = sum_list (map estimated_size rs)"
  by (induction rs arbitrary: n) (simp_all add: estimated_size_def)

lemma calm_write:
  assumes "calm room e" "sum_list (map estimated_size recs) \<le> room" "recs \<noteq> []"
  obtains e' where "eng_write ext now_us recs e = Some (e', Inr ())" "no_flush e e'" "calm (room - sum_list (map estimated_size recs)) e'"
proof -
  let ?n = "map (\<lambda>(i, r). r\<lparr>seq := (en_seq_counter e + i) mod 2 ^ 64\<rparr>) (enumerate 0 recs)"
  let ?ms = "fold mts_insert ?n (ww_memtables (en_worker e))"
  have fw: "flush_while (ev_compress ext) (ev_ser ext) now_us (en_worker e) = Some (en_worker e)"
    using assms(1) by (subst flush_while.simps) (simp add: calm_def)
  have sf: "\<not> should_flush ?ms" using assms(1,2) by (simp add: should_flush_def calm_def size_number)
  obtain e' where w: "write_internal ext now_us recs e = Some e'" and m: "ww_memtables (en_worker e') = ?ms"
    and ix: "ww_index (en_worker e') = ww_index (en_worker e)"
    using fw sf assms(3) by (auto simp: write_internal_def do_write_def process_batch_group_def process_batch_inner_def fetch_add_def Let_def)
  have "?n \<noteq> []" using assms(3) by (cases recs) simp_all
  then have "no_flush e e'" using assms(1) m by (simp add: no_flush_def calm_def)
  moreover have "calm (room - sum_list (map estimated_size recs)) e'"
    using assms(1,2) active_ok_fold [of "ww_memtables (en_worker e)" ?n] m ix
    by (simp add: calm_def size_number frozen_backpressure_def)
  ultimately show thesis using that w by (simp add: eng_write_def)
qed

lemma calm_get:
  assumes "calm room e"
  shows "\<exists>r. eng_get ext now_us k e = Some (e, Inr r) \<and> map_option pval r =
    (case mem_look now_us (ww_memtables (en_worker e)) k of None \<Rightarrow> None | Some (oper, v) \<Rightarrow> if oper = Delete then None else Some v)"
  using assms by (auto simp: calm_def eng_get_def get_bytes_def single_sst_point_def mem_look_def to_record_def split: option.split)

lemma sort_empty [simp]: "sort_key f xs = [] \<longleftrightarrow> xs = []"
  by (metis length_0_conv length_sort)

lemma to_query_prefix: "to_query_params (prefix_range p) = (Prefix p, None)"
  by (simp add: to_query_params_def prefix_range_def is_prefix_range_def)

lemma calm_scan:
  assumes "calm room e" "\<forall>r\<in>set (mts_query_prefix p now_us (ww_memtables (en_worker e))). rop r \<noteq> DeleteRange"
  shows "eng_scan ext now_us (prefix_range p) e =
    Some (e, Inr (emit [] None (sort_key sort_ord (mts_query_prefix p now_us (ww_memtables (en_worker e))))))"
proof -
  let ?ms = "ww_memtables (en_worker e)"
  let ?q = "\<lparr>key_filter = Prefix p, time_range = None\<rparr>"
  have mem: "scan_mem ?q ?ms now_us = mts_query_prefix p now_us ?ms" by (simp add: scan_mem_def)
  have t: "List.map_filter (\<lambda>r. if rop r = DeleteRange then map_option (Pair (key r)) (range_end r) else None) (mts_query_prefix p now_us ?ms) = []"
    using assms(2) by (simp add: List.map_filter_def filter_empty_conv)
  have ix: "ix_query (ww_index (en_worker e)) (Prefix p) None now_us = Some []"
    using assms(1) by (simp add: calm_def ix_query_def metas_of_def)
  define it where "it = \<lparr>sc_sources = (if mts_query_prefix p now_us ?ms = [] then [] else [sort_key sort_ord (mts_query_prefix p now_us ?ms)]),
    sc_heap = [], sc_tombstones = [], sc_last_dedup = None, sc_fast_source = (if mts_query_prefix p now_us ?ms = [] then None else Some 0)\<rparr>"
  have b: "scan_build (ev_lru ext) (ev_decompress ext) ?q ?ms (ww_index (en_worker e)) (en_cache e) (en_readers e) (ww_ssts (en_worker e)) now_us
      = Some (en_cache e, it)"
    by (simp add: scan_build_def mem t ix it_def Let_def)
  have "scan_collect it = emit [] None (sort_key sort_ord (mts_query_prefix p now_us ?ms))"
  proof (cases "mts_query_prefix p now_us ?ms = []")
    case True
    then have "scan_next it = (it, None)" by (simp add: scan_next_def it_def heap_next_None heap_pop_def)
    then show ?thesis using True by (simp add: collect_next(1))
  next
    case False
    then show ?thesis using collect_fast [of it 0] by (simp add: it_def)
  qed
  then show ?thesis by (simp add: eng_scan_def scan_default_def scan_opt_def to_query_prefix engine_scan_def b)
qed

end
