(* ===== verification/Json_Tx.thy ===== *)
theory Json_Tx
  imports Jsondb
begin

text \<open>
  \<^verbatim>\<open>src/jsondb/transaction.rs\<close>: transactions that buffer writes until they commit as one batch.  The state of a call is the database
  and the transaction.  The buffer is a hash map; calls that iterate over it take the order of its keys
  as the argument \<open>order\<close>.
\<close>

section \<open>State\<close>

datatype TransactionMode = ReadOnly | ReadWrite

record Transaction =
  tx_mode :: TransactionMode
  tx_writes :: "bytes \<times> bytes \<rightharpoonup> bytes option"
  tx_counter_updates :: "InternalRecord list"
  tx_next_ids :: "bytes \<rightharpoonup> nat"
  tx_committed :: bool

type_synonym ('l, 'a) tx_call = "('l JsonDB \<times> Transaction, 'a) call"

definition transaction :: "bytes list \<Rightarrow> TransactionMode \<Rightarrow> 'l JsonDB \<Rightarrow> Transaction result" where
  "transaction stores mode db =
     (case filter (\<lambda>name. jd_schema db name = None) stores of
        name # _ \<Rightarrow> Inl (JsonDbErr (''store '' @ quoted name @ '' not found''))
      | [] \<Rightarrow> Inr \<lparr>tx_mode = mode, tx_writes = Map.empty, tx_counter_updates = [], tx_next_ids = Map.empty, tx_committed = False\<rparr>)"

definition on_db :: "('l JsonDB, 'a) call \<Rightarrow> ('l, 'a) tx_call" where
  "on_db m = (\<lambda>(db, tx). map_option (\<lambda>(db, r). ((db, tx), r)) (m db))"

definition tx_engine :: "('l Engine, 'a) call \<Rightarrow> ('l, 'a) tx_call" where
  "tx_engine m = on_db (on_engine m)"

definition require_read_write :: "('l, unit) tx_call" where
  "require_read_write = (\<lambda>(db, tx).
     Some ((db, tx), if tx_mode tx = ReadOnly then Inl (JsonDbErr ''cannot write in a read-only transaction'') else Inr ()))"

definition require_store :: "bytes \<Rightarrow> ('l, StoreDef) tx_call" where
  "require_store name = on_db (with_store name ret)"

definition buffer_write :: "bytes \<Rightarrow> bytes \<Rightarrow> bytes option \<Rightarrow> ('l, unit) tx_call" where
  "buffer_write store k v = (\<lambda>(db, tx). Some ((db, tx\<lparr>tx_writes := (tx_writes tx)((store, k) \<mapsto> v)\<rparr>), Inr ()))"

definition buffered :: "bytes \<Rightarrow> bytes \<Rightarrow> ('l, bytes option option) tx_call" where
  "buffered store k = (\<lambda>(db, tx). Some ((db, tx), Inr (tx_writes tx (store, k))))"

text \<open>The buffered writes in the order of iteration.\<close>

definition write_list :: "(bytes \<times> bytes) list \<Rightarrow> Transaction \<Rightarrow> ((bytes \<times> bytes) \<times> bytes option) list" where
  "write_list order tx = List.map_filter (\<lambda>k. map_option (Pair k) (tx_writes tx k)) order"

definition all_writes :: "(bytes \<times> bytes) list \<Rightarrow> ('l, ((bytes \<times> bytes) \<times> bytes option) list) tx_call" where
  "all_writes order = (\<lambda>(db, tx). Some ((db, tx), Inr (write_list order tx)))"

section \<open>Document calls\<close>

definition tx_put :: "json_ext \<Rightarrow> bytes \<Rightarrow> json \<Rightarrow> ('l, json) tx_call" where
  "tx_put jx store doc =
     bind_call require_read_write (\<lambda>_.
     bind_call (require_store store) (\<lambda>def.
       case extract_field doc (key_path def) of
         None \<Rightarrow> lift_res (Inl (missing_key def store))
       | Some key_val \<Rightarrow>
           bind_call (lift_res (encode_primary_key (to_vec jx) (num_str jx) key_val)) (\<lambda>key_bytes.
           bind_call (lift_res (encode_doc (to_vec jx) doc)) (\<lambda>doc_bytes.
           bind_call (buffer_write store key_bytes (Some doc_bytes)) (\<lambda>_.
           ret key_val)))))"

definition tx_get :: "'l externals \<Rightarrow> json_ext \<Rightarrow> int \<Rightarrow> bytes \<Rightarrow> json \<Rightarrow> ('l, json option) tx_call" where
  "tx_get ext jx now_us store k =
     bind_call (require_store store) (\<lambda>_.
     bind_call (lift_res (encode_primary_key (to_vec jx) (num_str jx) k)) (\<lambda>key_bytes.
     bind_call (buffered store key_bytes) (\<lambda>w.
       case w of
         Some (Some b) \<Rightarrow> bind_call (lift_res (decode_doc (from_slice jx) b)) (\<lambda>d. ret (Some d))
       | Some None \<Rightarrow> ret None
       | None \<Rightarrow>
           bind_call (tx_engine (eng_get ext now_us (doc_key store key_bytes))) (\<lambda>r.
             case r of
               Some r \<Rightarrow> bind_call (lift_res (decode_doc (from_slice jx) (pval r))) (\<lambda>d. ret (Some d))
             | None \<Rightarrow> ret None))))"

definition tx_delete :: "json_ext \<Rightarrow> bytes \<Rightarrow> json \<Rightarrow> ('l, unit) tx_call" where
  "tx_delete jx store k =
     bind_call require_read_write (\<lambda>_.
     bind_call (require_store store) (\<lambda>_.
     bind_call (lift_res (encode_primary_key (to_vec jx) (num_str jx) k)) (\<lambda>key_bytes.
     buffer_write store key_bytes None)))"

text \<open>The buffered puts of a store that the engine does not hold yet.\<close>

definition new_puts :: "'l externals \<Rightarrow> int \<Rightarrow> bytes \<Rightarrow> (bytes \<times> bytes) list \<Rightarrow> ('l, bytes list) tx_call" where
  "new_puts ext now_us store order =
     bind_call (all_writes order) (\<lambda>ws.
     bind_call (for_each (\<lambda>((s, k), v).
         if s \<noteq> store then ret []
         else case v of
                None \<Rightarrow> ret []
              | Some b \<Rightarrow> bind_call (tx_engine (eng_get ext now_us (doc_key store k))) (\<lambda>r. ret (if r = None then [b] else []))) ws) (\<lambda>bs.
     ret (concat bs)))"

definition tx_count :: "'l externals \<Rightarrow> int \<Rightarrow> (bytes \<times> bytes) list \<Rightarrow> bytes \<Rightarrow> ('l, nat) tx_call" where
  "tx_count ext now_us order store =
     bind_call (require_store store) (\<lambda>_.
     bind_call (tx_engine (eng_scan ext now_us (prefix_range (doc_prefix store)))) (\<lambda>rs.
     bind_call (for_each (\<lambda>r. buffered store (drop (length (doc_prefix store)) (pkey r))) rs) (\<lambda>bs.
     bind_call (new_puts ext now_us store order) (\<lambda>news.
     ret (length (filter (\<lambda>b. b \<noteq> Some None) bs) + length news)))))"

definition tx_scan :: "'l externals \<Rightarrow> json_ext \<Rightarrow> int \<Rightarrow> (bytes \<times> bytes) list \<Rightarrow> bytes \<Rightarrow> ('l, json list) tx_call" where
  "tx_scan ext jx now_us order store =
     bind_call (require_store store) (\<lambda>_.
     bind_call (tx_engine (eng_scan ext now_us (prefix_range (doc_prefix store)))) (\<lambda>rs.
     bind_call (for_each (\<lambda>r.
         bind_call (buffered store (drop (length (doc_prefix store)) (pkey r))) (\<lambda>w.
           case w of
             Some (Some b) \<Rightarrow> bind_call (lift_res (decode_doc (from_slice jx) b)) (\<lambda>d. ret [d])
           | Some None \<Rightarrow> ret []
           | None \<Rightarrow> bind_call (lift_res (decode_doc (from_slice jx) (pval r))) (\<lambda>d. ret [d]))) rs) (\<lambda>ds.
     bind_call (new_puts ext now_us store order) (\<lambda>news.
     bind_call (for_each (\<lambda>b. lift_res (decode_doc (from_slice jx) b)) news) (\<lambda>nds.
     ret (concat ds @ nds))))))"

section \<open>Index lookups\<close>

definition first_path :: "IndexDef \<Rightarrow> bytes" where
  "first_path idx = (case key_paths idx of p # _ \<Rightarrow> p | [] \<Rightarrow> [])"

text \<open>The documents that the entries of a scan point to, those in the buffer when they satisfy \<open>P\<close>.\<close>

definition tx_entries :: "'l externals \<Rightarrow> json_ext \<Rightarrow> int \<Rightarrow> bytes \<Rightarrow> (json \<Rightarrow> bool) \<Rightarrow> ScanRange \<Rightarrow> ('l, json list) tx_call" where
  "tx_entries ext jx now_us store P rng =
     bind_call (tx_engine (eng_scan ext now_us rng)) (\<lambda>rs.
     bind_call (for_each (\<lambda>r.
         bind_call (buffered store (pval r)) (\<lambda>w.
           case w of
             Some (Some b) \<Rightarrow> bind_call (lift_res (decode_doc (from_slice jx) b)) (\<lambda>d. ret (if P d then [d] else []))
           | Some None \<Rightarrow> ret []
           | None \<Rightarrow> tx_engine (fetch_doc ext jx now_us store r))) rs) (\<lambda>ds.
     ret (concat ds)))"

text \<open>Buffered puts are appended unless a document with the same primary key has been returned already.\<close>

definition add_unseen :: "StoreDef \<Rightarrow> json list \<Rightarrow> json list \<Rightarrow> json list" where
  "add_unseen def docs news =
     fold (\<lambda>d acc. if \<exists>x\<in>set acc. value_eq (extract_field x (key_path def)) (extract_field d (key_path def)) then acc else acc @ [d]) news docs"

definition tx_get_by_index :: "'l externals \<Rightarrow> json_ext \<Rightarrow> int \<Rightarrow> (bytes \<times> bytes) list \<Rightarrow> bytes \<Rightarrow> bytes \<Rightarrow> json
    \<Rightarrow> ('l, json list) tx_call" where
  "tx_get_by_index ext jx now_us order store index v =
     bind_call (require_store store) (\<lambda>def.
     bind_call (lift_res (find_index def store index)) (\<lambda>idx.
       let P = (\<lambda>d. value_eq (extract_field d (first_path idx)) (Some v))
       in bind_call (tx_entries ext jx now_us store P
             (prefix_range (idx_value_prefix store index (encode_index_value (to_vec jx) v)))) (\<lambda>docs.
          bind_call (all_writes order) (\<lambda>ws.
          bind_call (for_each (\<lambda>((s, k), w).
              if s \<noteq> store then ret []
              else case w of
                     None \<Rightarrow> ret []
                   | Some b \<Rightarrow> bind_call (lift_res (decode_doc (from_slice jx) b)) (\<lambda>d. ret (if P d then [d] else []))) ws) (\<lambda>news.
          ret (add_unseen def docs (concat news)))))))"

definition tx_range_by_index :: "'l externals \<Rightarrow> json_ext \<Rightarrow> int \<Rightarrow> (bytes \<times> bytes) list \<Rightarrow> bytes \<Rightarrow> bytes \<Rightarrow> json \<Rightarrow> json
    \<Rightarrow> ('l, json list) tx_call" where
  "tx_range_by_index ext jx now_us order store index s e =
     bind_call (require_store store) (\<lambda>def.
     bind_call (lift_res (find_index def store index)) (\<lambda>idx.
       let p = idx_prefix store index;
           enc_start = encode_index_value (to_vec jx) s;
           enc_end = encode_index_value (to_vec jx) e;
           P = (\<lambda>d. case extract_field d (first_path idx) of
                  Some v \<Rightarrow> enc_start \<le> encode_index_value (to_vec jx) v \<and> encode_index_value (to_vec jx) v < enc_end
                | None \<Rightarrow> False)
       in bind_call (tx_entries ext jx now_us store P
             \<lparr>key_start = Included (p @ enc_start), key_end = Excluded (p @ enc_end), ts_start = Unbounded, ts_end = Unbounded\<rparr>) (\<lambda>docs.
          bind_call (new_puts ext now_us store order) (\<lambda>news.
          bind_call (for_each (\<lambda>b. lift_res (decode_doc (from_slice jx) b)) news) (\<lambda>nds.
          ret (docs @ filter P nds))))))"

section \<open>Generated keys\<close>

definition tx_next_id :: "'l externals \<Rightarrow> int \<Rightarrow> bytes \<Rightarrow> ('l, nat) tx_call" where
  "tx_next_id ext now_us store = (\<lambda>(db, tx).
     case tx_next_ids tx store of
       Some existing \<Rightarrow> Some ((db, tx\<lparr>tx_next_ids := (tx_next_ids tx)(store \<mapsto> (existing + 1) mod 2 ^ 64)\<rparr>), Inr ((existing + 1) mod 2 ^ 64))
     | None \<Rightarrow>
         bind_call (tx_engine (prepare_counter ext now_us store)) (\<lambda>(i, counter_rec) (db, tx).
           Some ((db, tx\<lparr>tx_counter_updates := tx_counter_updates tx @ [counter_rec], tx_next_ids := (tx_next_ids tx)(store \<mapsto> i)\<rparr>), Inr i))
           (db, tx))"

definition tx_put_auto :: "'l externals \<Rightarrow> json_ext \<Rightarrow> int \<Rightarrow> bytes \<Rightarrow> json \<Rightarrow> ('l, json) tx_call" where
  "tx_put_auto ext jx now_us store doc =
     bind_call require_read_write (\<lambda>_.
     bind_call (require_store store) (\<lambda>def.
       if \<not> auto_increment def then lift_res (Inl (JsonDbErr (''store '' @ quoted store @ '' is not auto-increment'')))
       else
         bind_call (tx_next_id ext now_us store) (\<lambda>next_id.
           let key_val = JNum (PosInt next_id)
           in bind_call (lift_res (encode_doc (to_vec jx) (inject_key (key_path def) key_val doc))) (\<lambda>doc_bytes.
              bind_call (buffer_write store (digits next_id) (Some doc_bytes)) (\<lambda>_.
              ret key_val)))))"

section \<open>Commit\<close>

text \<open>The old document; one that does not decode counts as absent.\<close>

definition old_doc_lenient :: "'l externals \<Rightarrow> json_ext \<Rightarrow> int \<Rightarrow> bytes \<Rightarrow> bytes \<Rightarrow> ('l Engine, json option) call" where
  "old_doc_lenient ext jx now_us store key_bytes =
     bind_call (eng_get ext now_us (doc_key store key_bytes)) (\<lambda>r.
       ret (case r of
              Some r \<Rightarrow> (case decode_doc (from_slice jx) (pval r) of Inr d \<Rightarrow> Some d | Inl _ \<Rightarrow> None)
            | None \<Rightarrow> None))"

text \<open>Two buffered documents of the transaction with the same value of a unique index.\<close>

fun buffer_conflict :: "json_ext \<Rightarrow> bytes \<Rightarrow> bytes \<Rightarrow> IndexDef \<Rightarrow> bytes \<Rightarrow> ((bytes \<times> bytes) \<times> bytes option) list \<Rightarrow> unit result" where
  "buffer_conflict jx store key_bytes idx encoded [] = Inr ()"
| "buffer_conflict jx store key_bytes idx encoded (((s, k), v) # ws) =
     (if s \<noteq> store \<or> k = key_bytes then buffer_conflict jx store key_bytes idx encoded ws
      else case v of
             None \<Rightarrow> buffer_conflict jx store key_bytes idx encoded ws
           | Some b \<Rightarrow>
               (case decode_doc (from_slice jx) b of
                  Inl err \<Rightarrow> Inl err
                | Inr d \<Rightarrow>
                    if \<exists>ov\<in>set (extract_index_values d idx). encode_composite_value (to_vec jx) ov = encoded
                    then Inl (JsonDbErr (''unique constraint violation in transaction: index '' @ quoted (ix_name idx)))
                    else buffer_conflict jx store key_bytes idx encoded ws))"

fun tx_check_unique :: "'l externals \<Rightarrow> json_ext \<Rightarrow> int \<Rightarrow> bytes \<Rightarrow> IndexDef \<Rightarrow> bytes \<Rightarrow> ((bytes \<times> bytes) \<times> bytes option) list
    \<Rightarrow> json list list \<Rightarrow> ('l Engine, unit) call" where
  "tx_check_unique ext jx now_us store idx key_bytes ws [] = ret ()"
| "tx_check_unique ext jx now_us store idx key_bytes ws (vals # vs) =
     (let encoded = encode_composite_value (to_vec jx) vals
      in bind_call (eng_scan ext now_us (prefix_range (idx_value_prefix store (ix_name idx) encoded))) (\<lambda>rs.
           if \<exists>r\<in>set rs. pval r \<noteq> key_bytes
           then lift_res (Inl (JsonDbErr (''unique constraint violation: index '' @ quoted (ix_name idx))))
           else bind_call (lift_res (buffer_conflict jx store key_bytes idx encoded ws)) (\<lambda>_.
                tx_check_unique ext jx now_us store idx key_bytes ws vs)))"

definition tx_index_entries :: "'l externals \<Rightarrow> json_ext \<Rightarrow> int \<Rightarrow> bytes \<Rightarrow> bytes \<Rightarrow> json \<Rightarrow> ((bytes \<times> bytes) \<times> bytes option) list
    \<Rightarrow> IndexDef \<Rightarrow> ('l Engine, InternalRecord list) call" where
  "tx_index_entries ext jx now_us store key_bytes doc ws idx =
     (let vs = extract_index_values doc idx
      in bind_call (if unique idx then tx_check_unique ext jx now_us store idx key_bytes ws vs else ret ())
           (\<lambda>_. ret (index_puts jx store idx key_bytes vs)))"

definition commit_write :: "'l externals \<Rightarrow> json_ext \<Rightarrow> int \<Rightarrow> ((bytes \<times> bytes) \<times> bytes option) list \<Rightarrow> (bytes \<times> bytes) \<times> bytes option
    \<Rightarrow> ('l JsonDB, InternalRecord list) call" where
  "commit_write ext jx now_us ws = (\<lambda>((store, key_bytes), v).
     with_store store (\<lambda>def.
       on_engine (bind_call (old_doc_lenient ext jx now_us store key_bytes) (\<lambda>old.
         let dels = (case old of Some d \<Rightarrow> index_deletes jx def store key_bytes d | None \<Rightarrow> [])
         in case v of
              Some doc_bytes \<Rightarrow>
                bind_call (lift_res (decode_doc (from_slice jx) doc_bytes)) (\<lambda>new_doc.
                bind_call (for_each (tx_index_entries ext jx now_us store key_bytes new_doc ws) (indexes def)) (\<lambda>es.
                ret (dels @ [from_record (Record_new (doc_key store key_bytes) 0 doc_bytes) 0] @ concat es)))
            | None \<Rightarrow> ret (dels @ [delete_rec (doc_key store key_bytes) 0 0])))))"

definition tx_commit :: "'l externals \<Rightarrow> json_ext \<Rightarrow> int \<Rightarrow> (bytes \<times> bytes) list \<Rightarrow> ('l, unit) tx_call" where
  "tx_commit ext jx now_us order = (\<lambda>(db, tx).
     if tx_committed tx then Some ((db, tx), Inr ())
     else let ws = write_list order tx
          in bind_call (on_db (for_each (commit_write ext jx now_us ws) ws)) (\<lambda>rs.
               let recs = tx_counter_updates tx @ concat rs
               in bind_call (if recs \<noteq> [] then tx_engine (eng_write ext now_us recs) else ret ()) (\<lambda>_ (db, tx).
                    Some ((db, tx\<lparr>tx_counter_updates := [], tx_committed := True\<rparr>), Inr ()))) (db, tx))"

end
