(* ===== verification/Json_Docs.thy ===== *)
theory Json_Docs
  imports Json_Frame Json_Tx
begin

text \<open>
  Documents: what reads see after writes.  A locale states what the database and a transaction have in common: an overlay over
  what was there before, in which a put or a delete replaces one key and a read of an overlaid key returns the last of them.
  It is interpreted for the database (the overlay is the memtables, as long as no write ends with a flush) and for a transaction (the
  overlay is its buffer).  The index entries a put writes are those of the new document.
\<close>

section \<open>Overlays\<close>

text \<open>A history of writes, newest last: the key and the new document, or \<open>None\<close> for a delete.\<close>

inductive doc_run :: "(int \<Rightarrow> json \<Rightarrow> ('s, json) call) \<Rightarrow> (int \<Rightarrow> json \<Rightarrow> ('s, unit) call) \<Rightarrow> ('s \<Rightarrow> 's \<Rightarrow> bool)
    \<Rightarrow> 's \<Rightarrow> (json \<times> json option) list \<Rightarrow> 's \<Rightarrow> bool" for put delete quiet s where
  run_start: "doc_run put delete quiet s [] s"
| run_put: "doc_run put delete quiet s h s1 \<Longrightarrow> put now_us d s1 = Some (s2, Inr k) \<Longrightarrow> quiet s1 s2
    \<Longrightarrow> doc_run put delete quiet s (h @ [(k, Some d)]) s2"
| run_delete: "doc_run put delete quiet s h s1 \<Longrightarrow> delete now_us k s1 = Some (s2, Inr ()) \<Longrightarrow> quiet s1 s2
    \<Longrightarrow> doc_run put delete quiet s (h @ [(k, None)]) s2"

text \<open>The last write of a key in a history.\<close>

definition last_write :: "(json \<Rightarrow> bytes result) \<Rightarrow> (json \<times> json option) list \<Rightarrow> bytes \<Rightarrow> json option option" where
  "last_write enc h kb = map_of (rev (map (\<lambda>(k, w). (enc k, w)) h)) (Inr kb)"

lemma last_write_Nil [simp]: "last_write enc [] kb = None"
  by (simp add: last_write_def)

lemma last_write_snoc: "last_write enc (h @ [(k, w)]) kb = (if enc k = Inr kb then Some w else last_write enc h kb)"
  by (auto simp: last_write_def)

locale overlay =
  fixes look :: "'s \<Rightarrow> bytes \<Rightarrow> json option option"
    and put :: "int \<Rightarrow> json \<Rightarrow> ('s, json) call"
    and get :: "json \<Rightarrow> ('s, json option) call"
    and delete :: "int \<Rightarrow> json \<Rightarrow> ('s, unit) call"
    and enc :: "json \<Rightarrow> bytes result"
    and fits :: "json \<Rightarrow> bool"
    and ready :: "'s \<Rightarrow> bool"
    and quiet :: "'s \<Rightarrow> 's \<Rightarrow> bool"
  assumes look_put: "\<lbrakk>put now_us d s = Some (s', Inr k); ready s; quiet s s'; fits d\<rbrakk>
      \<Longrightarrow> ready s' \<and> (\<exists>kb. enc k = Inr kb \<and> look s' = (look s)(kb \<mapsto> Some d))"
    and look_delete: "\<lbrakk>delete now_us k s = Some (s', Inr ()); ready s; quiet s s'\<rbrakk>
      \<Longrightarrow> ready s' \<and> (\<exists>kb. enc k = Inr kb \<and> look s' = (look s)(kb \<mapsto> None))"
    and get_look: "\<lbrakk>ready s; enc k = Inr kb; look s kb = Some r\<rbrakk> \<Longrightarrow> get k s = Some (s, Inr r)"
begin

lemma run_look:
  assumes "doc_run put delete quiet s h s'" "ready s" "\<forall>d. Some d \<in> snd ` set h \<longrightarrow> fits d"
  shows "ready s' \<and> look s' kb = (case last_write enc h kb of Some w \<Rightarrow> Some w | None \<Rightarrow> look s kb)"
  using assms
proof (induction arbitrary: kb rule: doc_run.induct)
  case run_start
  then show ?case by simp
next
  case (run_put h s1 now_us d s2 k)
  then have ih: "ready s1" "look s1 kb = (case last_write enc h kb of Some w \<Rightarrow> Some w | None \<Rightarrow> look s kb)" for kb
    by (auto simp: image_iff)
  from look_put [OF run_put.hyps(2) ih(1) run_put.hyps(3)] run_put.prems show ?case
    by (auto simp: last_write_snoc ih(2))
next
  case (run_delete h s1 now_us k s2)
  then have ih: "ready s1" "look s1 kb = (case last_write enc h kb of Some w \<Rightarrow> Some w | None \<Rightarrow> look s kb)" for kb
    by (auto simp: image_iff)
  from look_delete [OF run_delete.hyps(2) ih(1) run_delete.hyps(3)] show ?case
    by (auto simp: last_write_snoc ih(2))
qed

lemma run_get:
  assumes "doc_run put delete quiet s h s'" "ready s" "\<forall>d. Some d \<in> snd ` set h \<longrightarrow> fits d"
    and "enc k = Inr kb" "last_write enc h kb = Some w"
  shows "get k s' = Some (s', Inr w)"
  using run_look [OF assms(1-3), of kb] assms(4,5) by (auto intro: get_look)

end

section \<open>The batches of a put and a delete\<close>

abbreviation pk :: "json_ext \<Rightarrow> json \<Rightarrow> bytes result" where
  "pk jx \<equiv> encode_primary_key (to_vec jx) (num_str jx)"

text \<open>A document that \<^verbatim>\<open>serde_json\<close> reads back as it was written.\<close>

definition reads_back :: "json_ext \<Rightarrow> json \<Rightarrow> bool" where
  "reads_back jx d \<longleftrightarrow> (case to_vec jx d of Inr b \<Rightarrow> from_slice jx b = Inr d | Inl _ \<Rightarrow> True)"

definition entry_keys :: "json_ext \<Rightarrow> StoreDef \<Rightarrow> bytes \<Rightarrow> bytes \<Rightarrow> json \<Rightarrow> bytes list" where
  "entry_keys jx def store key_bytes doc =
     concat (map (\<lambda>idx. map (index_entry_key jx store idx key_bytes) (extract_index_values doc idx)) (indexes def))"

definition entry_puts :: "json_ext \<Rightarrow> StoreDef \<Rightarrow> bytes \<Rightarrow> bytes \<Rightarrow> json \<Rightarrow> InternalRecord list" where
  "entry_puts jx def store key_bytes doc = map (\<lambda>k. from_record (Record_new k 0 key_bytes) 0) (entry_keys jx def store key_bytes doc)"

lemma index_deletes_keys: "index_deletes jx def store key_bytes doc = map (\<lambda>k. delete_rec k 0 0) (entry_keys jx def store key_bytes doc)"
  by (simp add: index_deletes_def entry_keys_def map_concat comp_def)

lemma index_puts_keys:
  "concat (map (\<lambda>idx. index_puts jx store idx key_bytes (extract_index_values doc idx)) (indexes def)) = entry_puts jx def store key_bytes doc"
  by (simp add: index_puts_def entry_puts_def entry_keys_def map_concat comp_def)

definition old_deletes :: "json_ext \<Rightarrow> StoreDef \<Rightarrow> bytes \<Rightarrow> bytes \<Rightarrow> json option \<Rightarrow> InternalRecord list" where
  "old_deletes jx def store key_bytes old = (case old of Some d \<Rightarrow> index_deletes jx def store key_bytes d | None \<Rightarrow> [])"

lemma build_put_batch_shape:
  assumes "build_put_batch ext jx now_us def store key_bytes doc_bytes doc e = Some (e', Inr batch)"
  obtains e1 old where "read_old_doc ext jx now_us store key_bytes e = Some (e1, Inr old)"
    "batch = old_deletes jx def store key_bytes old @ [from_record (Record_new (doc_key store key_bytes) 0 doc_bytes) 0]
       @ entry_puts jx def store key_bytes doc"
proof -
  from assms obtain e1 old es e2 where o: "read_old_doc ext jx now_us store key_bytes e = Some (e1, Inr old)"
    and es: "for_each (put_index_entries ext jx now_us store key_bytes doc) (indexes def) e1 = Some (e2, Inr es)"
    and b: "batch = old_deletes jx def store key_bytes old @ [from_record (Record_new (doc_key store key_bytes) 0 doc_bytes) 0] @ concat es"
    by (auto simp: build_put_batch_def Let_def ret_def old_deletes_def elim!: bind_call_SomeD)
  have "y = index_puts jx store idx key_bytes (extract_index_values doc idx)"
    if "put_index_entries ext jx now_us store key_bytes doc idx s = Some (s', Inr y)" for idx s s' y
    using that by (auto simp: put_index_entries_def Let_def ret_def elim!: bind_call_SomeD)
  with for_each_results [OF es] have "list_all2 (\<lambda>idx y. y = index_puts jx store idx key_bytes (extract_index_values doc idx)) (indexes def) es"
    by (auto elim!: list_all2_mono)
  then have "es = map (\<lambda>idx. index_puts jx store idx key_bytes (extract_index_values doc idx)) (indexes def)"
    by (simp add: list_all2_conv_all_nth list_eq_iff_nth_eq)
  then show thesis using that [OF o] b index_puts_keys [of jx store key_bytes doc def] by simp
qed

lemma build_delete_batch_shape:
  assumes "build_delete_batch ext jx now_us def store key_bytes e = Some (e', Inr batch)"
  obtains e1 old where "read_old_doc ext jx now_us store key_bytes e = Some (e1, Inr old)"
    "batch = old_deletes jx def store key_bytes old @ [delete_rec (doc_key store key_bytes) 0 0]"
  using assms by (auto simp: build_delete_batch_def ret_def old_deletes_def elim!: bind_call_SomeD)

text \<open>Entries of an index never share a key with a document.\<close>

lemma entry_keys_not_doc [simp]: "doc_key st k \<notin> set (entry_keys jx def store key_bytes doc)"
  by (auto simp: entry_keys_def index_entry_key_def key_defs)

lemma doc_key_inj [simp]: "doc_key store k = doc_key store k' \<longleftrightarrow> k = k'"
  by (simp add: doc_key_def)

lemma batch_look_map:
  assumes "\<And>k. version (f k) = (k, 0)" "\<And>k. (rop (f k), val (f k)) = x"
  shows "batch_look (map f ks) k = (if k \<in> set ks then Some x else None)"
  using batch_look_const [of "map f ks" k x] assms by auto

lemma look_entry_puts:
  "batch_look (entry_puts jx def store kb doc) k = (if k \<in> set (entry_keys jx def store kb doc) then Some (Put, kb) else None)"
  unfolding entry_puts_def by (rule batch_look_map) (simp_all add: from_record_def Record_new_def version_def)

lemma look_old_deletes:
  "batch_look (old_deletes jx def store kb old) k =
     (if \<exists>d. old = Some d \<and> k \<in> set (entry_keys jx def store kb d) then Some (Delete, []) else None)"
proof -
  have "batch_look (index_deletes jx def store kb d) k = (if k \<in> set (entry_keys jx def store kb d) then Some (Delete, []) else None)" for d
    unfolding index_deletes_keys by (rule batch_look_map) (simp_all add: delete_rec_def version_def)
  then show ?thesis by (simp add: old_deletes_def split: option.split)
qed

text \<open>What a put batch decides, key by key: the new entries, the document, the entries of the old document that the new one has not.\<close>

lemma look_put_batch:
  "batch_look (old_deletes jx def store kb old @ [from_record (Record_new (doc_key store kb) 0 b) 0] @ entry_puts jx def store kb doc) k =
     (if k \<in> set (entry_keys jx def store kb doc) then Some (Put, kb)
      else if k = doc_key store kb then Some (Put, b)
      else if \<exists>d. old = Some d \<and> k \<in> set (entry_keys jx def store kb d) then Some (Delete, []) else None)"
  by (auto simp: batch_look_append batch_look_Cons look_entry_puts look_old_deletes version_def from_record_def Record_new_def)

lemma look_delete_batch:
  "batch_look (old_deletes jx def store kb old @ [delete_rec (doc_key store kb) 0 0]) k =
     (if k = doc_key store kb \<or> (\<exists>d. old = Some d \<and> k \<in> set (entry_keys jx def store kb d)) then Some (Delete, []) else None)"
  by (auto simp: batch_look_append look_old_deletes batch_look_one version_def delete_rec_def)

lemma batch_expire:
  "r \<in> set (old_deletes jx def store kb old) \<Longrightarrow> expire_at r = i64_max"
  "r \<in> set (entry_puts jx def store kb doc) \<Longrightarrow> expire_at r = i64_max"
  by (auto simp: old_deletes_def index_deletes_keys entry_puts_def delete_rec_def from_record_def Record_new_def split: option.splits)

section \<open>The database\<close>

definition read_op :: "json_ext \<Rightarrow> Op \<times> bytes \<Rightarrow> json option option" where
  "read_op jx x = (if fst x = Delete then Some None
     else case decode_doc (from_slice jx) (snd x) of Inr d \<Rightarrow> Some (Some d) | Inl _ \<Rightarrow> None)"

abbreviation memtables :: "'l JsonDB \<Rightarrow> MemTables" where
  "memtables db \<equiv> ww_memtables (en_worker (jd_engine db))"

definition mem_docs :: "json_ext \<Rightarrow> int \<Rightarrow> bytes \<Rightarrow> 'l JsonDB \<Rightarrow> bytes \<Rightarrow> json option option" where
  "mem_docs jx now_us store db kb = Option.bind (mem_look now_us (memtables db) (doc_key store kb)) (read_op jx)"

definition db_ready :: "int \<Rightarrow> bytes \<Rightarrow> 'l JsonDB \<Rightarrow> bool" where
  "db_ready now_us store db \<longleftrightarrow> jd_schema db store \<noteq> None \<and> active_ok (memtables db) \<and> now_us \<le> i64_max"

definition db_quiet :: "'l JsonDB \<Rightarrow> 'l JsonDB \<Rightarrow> bool" where
  "db_quiet db db' \<longleftrightarrow> no_flush (jd_engine db) (jd_engine db')"

lemma no_flush_view: "engine_view e = engine_view e1 \<Longrightarrow> no_flush e e' \<longleftrightarrow> no_flush e1 e'"
  by (simp add: engine_view_def no_flush_def)

lemma json_put_inv:
  assumes "json_put ext jx now_us store doc db = Some (db', Inr k)"
  obtains def kb b e1 e2 old e0 where "jd_schema db store = Some def" "extract_field doc (key_path def) = Some k" "pk jx k = Inr kb"
    "to_vec jx doc = Inr b" "read_old_doc ext jx now_us store kb (jd_engine db) = Some (e0, Inr old)"
    "engine_view e1 = engine_view (jd_engine db)"
    "eng_write ext now_us (old_deletes jx def store kb old @ [from_record (Record_new (doc_key store kb) 0 b) 0]
       @ entry_puts jx def store kb doc) e1 = Some (e2, Inr ())" "db' = db\<lparr>jd_engine := e2\<rparr>"
proof -
  from assms obtain def where def: "jd_schema db store = Some def" by (auto simp: json_put_def with_store_def split: option.splits)
  with assms obtain k' where k': "extract_field doc (key_path def) = Some k'"
    by (auto simp: json_put_def with_store_def lift_res_def split: option.splits)
  from assms obtain kb b e1 batch e2 where kb: "pk jx k' = Inr kb" and b: "encode_doc (to_vec jx) doc = Inr b"
    and bt: "build_put_batch ext jx now_us def store kb b doc (jd_engine db) = Some (e1, Inr batch)"
    and w: "eng_write ext now_us batch e1 = Some (e2, Inr ())" "db' = db\<lparr>jd_engine := e2\<rparr>" and k: "k' = k"
    by (auto simp: json_put_def with_store_def def k' lift_res_def ret_def on_engine_def elim!: bind_call_SomeD)
  from bt obtain e0 old where "read_old_doc ext jx now_us store kb (jd_engine db) = Some (e0, Inr old)"
    "batch = old_deletes jx def store kb old @ [from_record (Record_new (doc_key store kb) 0 b) 0] @ entry_puts jx def store kb doc"
    by (rule build_put_batch_shape)
  moreover have "engine_view e1 = engine_view (jd_engine db)"
    using keepsD [OF keeps_build_put_batch [where P = "\<lambda>v. v = engine_view (jd_engine db)"] bt] by simp
  moreover have "to_vec jx doc = Inr b" using b by (auto simp: encode_doc_def split: sum.splits)
  ultimately show thesis using that def k' kb w k by blast
qed

lemma json_delete_inv:
  assumes "json_delete ext jx now_us store k db = Some (db', Inr ())"
  obtains def kb e1 e2 old e0 where "jd_schema db store = Some def" "pk jx k = Inr kb"
    "read_old_doc ext jx now_us store kb (jd_engine db) = Some (e0, Inr old)" "engine_view e1 = engine_view (jd_engine db)"
    "eng_write ext now_us (old_deletes jx def store kb old @ [delete_rec (doc_key store kb) 0 0]) e1 = Some (e2, Inr ())"
    "db' = db\<lparr>jd_engine := e2\<rparr>"
proof -
  from assms obtain def where def: "jd_schema db store = Some def" by (auto simp: json_delete_def with_store_def split: option.splits)
  from assms obtain kb e1 batch e2 where kb: "pk jx k = Inr kb"
    and bt: "build_delete_batch ext jx now_us def store kb (jd_engine db) = Some (e1, Inr batch)"
    and w: "eng_write ext now_us batch e1 = Some (e2, Inr ())" "db' = db\<lparr>jd_engine := e2\<rparr>"
    by (auto simp: json_delete_def with_store_def def lift_res_def on_engine_def elim!: bind_call_SomeD)
  from bt obtain e0 old where "read_old_doc ext jx now_us store kb (jd_engine db) = Some (e0, Inr old)"
    "batch = old_deletes jx def store kb old @ [delete_rec (doc_key store kb) 0 0]"
    by (rule build_delete_batch_shape)
  moreover have "engine_view e1 = engine_view (jd_engine db)"
    using keepsD [OF keeps_build_delete_batch [where P = "\<lambda>v. v = engine_view (jd_engine db)"] bt] by simp
  ultimately show thesis using that def kb w by blast
qed

lemma quiet_write:
  assumes "eng_write ext now_us recs e1 = Some (e2, Inr ())" "engine_view e1 = engine_view (jd_engine db)" "db' = db\<lparr>jd_engine := e2\<rparr>"
    and "db_quiet db db'" "db_ready now' store db" "recs \<noteq> []" "\<forall>r\<in>set recs. expire_at r = i64_max"
  shows "db_ready now' store db'"
    and "mem_look now' (memtables db') k = (case batch_look recs k of Some x \<Rightarrow> Some x | None \<Rightarrow> mem_look now' (memtables db) k)"
proof -
  have m: "ww_memtables (en_worker e1) = memtables db" using assms(2) by (simp add: engine_view_def)
  have q: "no_flush e1 e2" using assms(3,4) no_flush_view [OF assms(2)] by (simp add: db_quiet_def)
  have r: "active_ok (ww_memtables (en_worker e1))" "now' \<le> i64_max" using assms(5) m by (simp_all add: db_ready_def)
  note w = eng_write_memory [OF assms(1) q assms(6) r(1) assms(7) r(2)]
  show "db_ready now' store db'" using assms(3,5) w(1) by (simp add: db_ready_def)
  show "mem_look now' (memtables db') k = (case batch_look recs k of Some x \<Rightarrow> Some x | None \<Rightarrow> mem_look now' (memtables db) k)"
    using w(2) [of k] m assms(3) by (simp split: option.split)
qed

lemma mem_docs_put:
  assumes "json_put ext jx now_us store d db = Some (db', Inr k)" "db_ready now' store db" "db_quiet db db'" "reads_back jx d"
  shows "db_ready now' store db' \<and> (\<exists>kb. pk jx k = Inr kb \<and> mem_docs jx now' store db' = (mem_docs jx now' store db)(kb \<mapsto> Some d))"
  using assms(1)
proof (rule json_put_inv)
  fix def kb b e1 e2 old e0
  assume a: "jd_schema db store = Some def" "extract_field d (key_path def) = Some k" "pk jx k = Inr kb"
    "to_vec jx d = Inr b" "read_old_doc ext jx now_us store kb (jd_engine db) = Some (e0, Inr old)"
    "engine_view e1 = engine_view (jd_engine db)"
    "eng_write ext now_us (old_deletes jx def store kb old @ [from_record (Record_new (doc_key store kb) 0 b) 0]
       @ entry_puts jx def store kb d) e1 = Some (e2, Inr ())" "db' = db\<lparr>jd_engine := e2\<rparr>"
  note w = quiet_write [OF a(7,6,8) assms(3,2)]
  have e: "\<forall>r\<in>set (old_deletes jx def store kb old @ [from_record (Record_new (doc_key store kb) 0 b) 0] @ entry_puts jx def store kb d).
      expire_at r = i64_max" using batch_expire by (auto simp: from_record_def Record_new_def)
  have "read_op jx (Put, b) = Some (Some d)" using assms(4) a(4) by (simp add: read_op_def reads_back_def decode_doc_def)
  then have "mem_docs jx now' store db' = (mem_docs jx now' store db)(kb \<mapsto> Some d)"
    using w(2) e by (simp add: fun_eq_iff mem_docs_def look_put_batch [simplified])
  with w(1) e a(3) show ?thesis by auto
qed

lemma mem_docs_delete:
  assumes "json_delete ext jx now_us store k db = Some (db', Inr ())" "db_ready now' store db" "db_quiet db db'"
  shows "db_ready now' store db' \<and> (\<exists>kb. pk jx k = Inr kb \<and> mem_docs jx now' store db' = (mem_docs jx now' store db)(kb \<mapsto> None))"
  using assms(1)
proof (rule json_delete_inv)
  fix def kb e1 e2 old e0
  assume a: "jd_schema db store = Some def" "pk jx k = Inr kb"
    "read_old_doc ext jx now_us store kb (jd_engine db) = Some (e0, Inr old)" "engine_view e1 = engine_view (jd_engine db)"
    "eng_write ext now_us (old_deletes jx def store kb old @ [delete_rec (doc_key store kb) 0 0]) e1 = Some (e2, Inr ())"
    "db' = db\<lparr>jd_engine := e2\<rparr>"
  note w = quiet_write [OF a(5,4,6) assms(3,2)]
  have e: "\<forall>r\<in>set (old_deletes jx def store kb old @ [delete_rec (doc_key store kb) 0 0]). expire_at r = i64_max"
    using batch_expire by (auto simp: delete_rec_def)
  have "mem_docs jx now' store db' = (mem_docs jx now' store db)(kb \<mapsto> None)"
    using w(2) e by (simp add: fun_eq_iff mem_docs_def look_delete_batch [simplified] read_op_def)
  with w(1) e a(2) show ?thesis by auto
qed

lemma mem_docs_get:
  assumes "db_ready now_us store db" "pk jx k = Inr kb" "mem_docs jx now_us store db kb = Some r"
  shows "json_get ext jx now_us store k db = Some (db, Inr r)"
proof -
  obtain def where def: "jd_schema db store = Some def" using assms(1) by (auto simp: db_ready_def)
  from assms(3) obtain oper v where l: "mem_look now_us (memtables db) (doc_key store kb) = Some (oper, v)" "read_op jx (oper, v) = Some r"
    by (auto simp: mem_docs_def bind_eq_Some_conv)
  from eng_get_memory [OF l(1), of ext] obtain x where x: "eng_get ext now_us (doc_key store kb) (jd_engine db)
      = Some (jd_engine db, Inr (if oper = Delete then None else Some x))" "pval x = v" by blast
  show ?thesis using l(2) x
    by (auto simp: json_get_def with_store_def def assms(2) bind_call_def lift_res_def on_engine_def ret_def read_op_def
        split: if_splits sum.splits)
qed

interpretation docs: overlay "mem_docs jx now' store" "\<lambda>now_us. json_put ext jx now_us store" "json_get ext jx now' store"
    "\<lambda>now_us. json_delete ext jx now_us store" "pk jx" "reads_back jx" "db_ready now' store" db_quiet
  by unfold_locales (rule mem_docs_put, assumption+, rule mem_docs_delete, assumption+, rule mem_docs_get, assumption+)

section \<open>Transactions\<close>

definition buffer_docs :: "json_ext \<Rightarrow> bytes \<Rightarrow> 'l JsonDB \<times> Transaction \<Rightarrow> bytes \<Rightarrow> json option option" where
  "buffer_docs jx store s kb = Option.bind (tx_writes (snd s) (store, kb))
     (\<lambda>w. read_op jx (case w of Some b \<Rightarrow> (Put, b) | None \<Rightarrow> (Delete, [])))"

definition tx_ready :: "bytes \<Rightarrow> 'l JsonDB \<times> Transaction \<Rightarrow> bool" where
  "tx_ready store s \<longleftrightarrow> jd_schema (fst s) store \<noteq> None"

lemmas tx_call_defs = require_read_write_def require_store_def buffer_write_def buffered_def on_db_def with_store_def lift_res_def ret_def

lemma buffer_docs_put:
  assumes "tx_put jx store d s = Some (s', Inr k)" "tx_ready store s" "reads_back jx d"
  shows "tx_ready store s' \<and> (\<exists>kb. pk jx k = Inr kb \<and> buffer_docs jx store s' = (buffer_docs jx store s)(kb \<mapsto> Some d))"
proof -
  obtain db tx def where s: "s = (db, tx)" "jd_schema db store = Some def" using assms(2) by (cases s) (auto simp: tx_ready_def)
  from assms(1) obtain k' where k': "extract_field d (key_path def) = Some k'"
    by (cases "extract_field d (key_path def)") (auto simp: tx_put_def s tx_call_defs elim!: bind_call_SomeD)
  from assms(1) obtain kb b where b: "pk jx k = Inr kb" "encode_doc (to_vec jx) d = Inr b"
    "s' = (db, tx\<lparr>tx_writes := (tx_writes tx)((store, kb) \<mapsto> Some b)\<rparr>)"
    by (auto simp: tx_put_def s k' tx_call_defs elim!: bind_call_SomeD split: if_splits)
  have "read_op jx (Put, b) = Some (Some d)"
    using assms(3) b(2) by (auto simp: read_op_def reads_back_def decode_doc_def encode_doc_def split: sum.splits)
  then show ?thesis using b s by (auto simp: tx_ready_def buffer_docs_def fun_eq_iff)
qed

lemma buffer_docs_delete:
  assumes "tx_delete jx store k s = Some (s', Inr ())" "tx_ready store s"
  shows "tx_ready store s' \<and> (\<exists>kb. pk jx k = Inr kb \<and> buffer_docs jx store s' = (buffer_docs jx store s)(kb \<mapsto> None))"
proof -
  obtain db tx def where s: "s = (db, tx)" "jd_schema db store = Some def" using assms(2) by (cases s) (auto simp: tx_ready_def)
  from assms(1) obtain kb where "pk jx k = Inr kb" "s' = (db, tx\<lparr>tx_writes := (tx_writes tx)((store, kb) \<mapsto> None)\<rparr>)"
    by (auto simp: tx_delete_def s tx_call_defs elim!: bind_call_SomeD split: if_splits)
  then show ?thesis using s by (auto simp: tx_ready_def buffer_docs_def fun_eq_iff read_op_def)
qed

lemma buffer_docs_get:
  assumes "tx_ready store s" "pk jx k = Inr kb" "buffer_docs jx store s kb = Some r"
  shows "tx_get ext jx now_us store k s = Some (s, Inr r)"
proof -
  obtain db tx def where s: "s = (db, tx)" "jd_schema db store = Some def" using assms(1) by (cases s) (auto simp: tx_ready_def)
  from assms(3) obtain w where w: "tx_writes tx (store, kb) = Some w" "read_op jx (case w of Some b \<Rightarrow> (Put, b) | None \<Rightarrow> (Delete, [])) = Some r"
    by (auto simp: buffer_docs_def s bind_eq_Some_conv)
  have g: "tx_get ext jx now_us store k s = (case w of
      Some b \<Rightarrow> bind_call (lift_res (decode_doc (from_slice jx) b)) (\<lambda>d. ret (Some d)) s | None \<Rightarrow> ret None s)"
    using w(1) by (simp add: tx_get_def s bind_call_def tx_call_defs assms(2) split: option.split)
  show ?thesis
  proof (cases w)
    case None
    then show ?thesis using g w(2) by (simp add: read_op_def ret_def)
  next
    case (Some b)
    then show ?thesis using g w(2) by (cases "decode_doc (from_slice jx) b") (simp_all add: read_op_def ret_def bind_call_def lift_res_def)
  qed
qed

interpretation buffer: overlay "buffer_docs jx store" "\<lambda>_. tx_put jx store" "tx_get ext jx now' store" "\<lambda>_. tx_delete jx store"
    "pk jx" "reads_back jx" "tx_ready store" "\<lambda>_ _. True"
  by unfold_locales (rule buffer_docs_put, assumption+, rule buffer_docs_delete, assumption+, rule buffer_docs_get, assumption+)

section \<open>Calls that return\<close>

text \<open>A store without indexes on an engine in memory.\<close>

lemma calm_read_old:
  assumes "calm room e" "\<forall>b. \<exists>d. from_slice jx b = Inr d"
  shows "\<exists>old. read_old_doc ext jx now_us store kb e = Some (e, Inr old)"
proof -
  obtain r where "eng_get ext now_us (doc_key store kb) e = Some (e, Inr r)" using calm_get [OF assms(1)] by blast
  moreover have "\<exists>d. decode_doc (from_slice jx) b = Inr d" for b using assms(2) by (metis decode_doc_def sum.case(2))
  ultimately show ?thesis
    by (cases r) (auto simp: read_old_doc_def bind_call_def ret_def split: sum.split, metis sum.simps(4))
qed

lemma no_indexes [simp]: "indexes def = [] \<Longrightarrow> old_deletes jx def store kb old = []"
  by (simp add: old_deletes_def index_deletes_def split: option.split)

lemma for_each_ret: "(\<And>x. x \<in> set xs \<Longrightarrow> f x s = Some (s, Inr (g x))) \<Longrightarrow> for_each f xs s = Some (s, Inr (map g xs))"
  by (induction xs) (simp_all add: ret_def bind_call_def)

lemma calm_put_indexed:
  assumes "jd_schema db store = Some def" "\<forall>idx\<in>set (indexes def). \<not> unique idx" "extract_field doc (key_path def) = Some k"
    and "pk jx k = Inr kb" "to_vec jx doc = Inr b" "read_old_doc ext jx now_us store kb (jd_engine db) = Some (jd_engine db, Inr old)"
    and "calm room (jd_engine db)" "sum_list (map estimated_size (old_deletes jx def store kb old
       @ [from_record (Record_new (doc_key store kb) 0 b) 0] @ entry_puts jx def store kb doc)) \<le> room"
  obtains db' where "json_put ext jx now_us store doc db = Some (db', Inr k)" "db_quiet db db'" "jd_schema db' = jd_schema db"
    "calm (room - sum_list (map estimated_size (old_deletes jx def store kb old
       @ [from_record (Record_new (doc_key store kb) 0 b) 0] @ entry_puts jx def store kb doc))) (jd_engine db')"
proof -
  let ?r = "old_deletes jx def store kb old @ [from_record (Record_new (doc_key store kb) 0 b) 0] @ entry_puts jx def store kb doc"
  have "for_each (put_index_entries ext jx now_us store kb doc) (indexes def) (jd_engine db)
      = Some (jd_engine db, Inr (map (\<lambda>idx. index_puts jx store idx kb (extract_index_values doc idx)) (indexes def)))"
    using assms(2) by (intro for_each_ret) (simp add: put_index_entries_def bind_call_def ret_def)
  then have bt: "build_put_batch ext jx now_us def store kb b doc (jd_engine db) = Some (jd_engine db, Inr ?r)"
    using assms(6) by (simp add: build_put_batch_def bind_call_def Let_def ret_def old_deletes_def index_puts_keys)
  obtain e' where w: "eng_write ext now_us ?r (jd_engine db) = Some (e', Inr ())" "no_flush (jd_engine db) e'"
    "calm (room - sum_list (map estimated_size ?r)) e'" by (rule calm_write [OF assms(7,8)]) simp
  have "json_put ext jx now_us store doc db = Some (db\<lparr>jd_engine := e'\<rparr>, Inr k)"
    using bt w(1) by (simp add: json_put_def with_store_def assms(1,3,4,5) encode_doc_def bind_call_def lift_res_def on_engine_def ret_def)
  then show thesis using that [of "db\<lparr>jd_engine := e'\<rparr>"] w(2,3) by (simp add: db_quiet_def)
qed

lemma calm_put:
  assumes "jd_schema db store = Some def" "indexes def = []" "extract_field doc (key_path def) = Some k" "pk jx k = Inr kb"
    and "to_vec jx doc = Inr b" "\<forall>b. \<exists>d. from_slice jx b = Inr d" "calm room (jd_engine db)"
    and "31 + length (doc_key store kb) + length b \<le> room"
  obtains db' where "json_put ext jx now_us store doc db = Some (db', Inr k)" "db_quiet db db'" "jd_schema db' = jd_schema db"
    "calm (room - (31 + length (doc_key store kb) + length b)) (jd_engine db')"
proof -
  obtain old where o: "read_old_doc ext jx now_us store kb (jd_engine db) = Some (jd_engine db, Inr old)"
    using calm_read_old [OF assms(7,6)] by blast
  have size: "sum_list (map estimated_size (old_deletes jx def store kb old @ [from_record (Record_new (doc_key store kb) 0 b) 0]
      @ entry_puts jx def store kb doc)) = 31 + length (doc_key store kb) + length b"
    using assms(2) by (simp add: estimated_size_def from_record_def Record_new_def entry_puts_def entry_keys_def)
  have nu: "\<forall>idx\<in>set (indexes def). \<not> unique idx" using assms(2) by simp
  show thesis by (rule calm_put_indexed [OF assms(1) nu assms(3-5) o assms(7)]) (use that assms(8) in \<open>simp_all only: size\<close>)
qed

lemma calm_delete:
  assumes "jd_schema db store = Some def" "indexes def = []" "pk jx k = Inr kb" "\<forall>b. \<exists>d. from_slice jx b = Inr d"
    and "calm room (jd_engine db)" "31 + length (doc_key store kb) \<le> room"
  obtains db' where "json_delete ext jx now_us store k db = Some (db', Inr ())" "db_quiet db db'" "jd_schema db' = jd_schema db"
    "calm (room - (31 + length (doc_key store kb))) (jd_engine db')"
proof -
  let ?r = "[delete_rec (doc_key store kb) 0 0]"
  obtain old where o: "read_old_doc ext jx now_us store kb (jd_engine db) = Some (jd_engine db, Inr old)"
    using calm_read_old [OF assms(5,4)] by blast
  have bt: "build_delete_batch ext jx now_us def store kb (jd_engine db) = Some (jd_engine db, Inr ?r)"
    using o assms(2) by (simp add: build_delete_batch_def bind_call_def ret_def index_deletes_def split: option.split)
  have size: "sum_list (map estimated_size ?r) = 31 + length (doc_key store kb)"
    by (simp add: estimated_size_def delete_rec_def)
  have room: "sum_list (map estimated_size ?r) \<le> room" unfolding size by (rule assms(6))
  obtain e' where w: "eng_write ext now_us ?r (jd_engine db) = Some (e', Inr ())" "no_flush (jd_engine db) e'"
    "calm (room - sum_list (map estimated_size ?r)) e'" by (rule calm_write [OF assms(5) room]) simp
  have "json_delete ext jx now_us store k db = Some (db\<lparr>jd_engine := e'\<rparr>, Inr ())"
    using bt w(1) by (simp add: json_delete_def with_store_def assms(1,3) bind_call_def lift_res_def on_engine_def)
  then show thesis using that [of "db\<lparr>jd_engine := e'\<rparr>"] w(2,3) size by (simp add: db_quiet_def)
qed

text \<open>For examples: documents with one field \<^verbatim>\<open>i\<close>, a string or a number, and a database in memory.\<close>

definition one_field :: json_ext where
  "one_field = \<lparr>to_vec = (\<lambda>v. case v of
        JObj [(f, JStr s)] \<Rightarrow> if f = [105] \<and> 255 \<notin> set s then Inr s else Inl []
      | JObj [(f, JNum (PosInt n))] \<Rightarrow> if f = [105] then Inr (255 # replicate n 1) else Inl []
      | _ \<Rightarrow> Inl []),
    from_slice = (\<lambda>b. Inr (JObj [([105], case b of c # bs \<Rightarrow> if c = 255 then JNum (PosInt (length bs)) else JStr b | [] \<Rightarrow> JStr [])])),
    num_str = (\<lambda>n. case n of PosInt m \<Rightarrow> digits m | _ \<Rightarrow> []),
    def_to_vec = (\<lambda>def. Inr (sd_name def)), def_from_slice = (\<lambda>b. Inr (StoreDef_new b [105]))\<rparr>"

definition mem_db :: "StoreDef \<Rightarrow> InternalRecord list \<Rightarrow> (nat \<times> (CacheKey \<times> InternalRecord list) list) JsonDB" where
  "mem_db def rs = \<lparr>jd_engine = mem_engine rs, jd_schema = [sd_name def \<mapsto> def]\<rparr>"

abbreviation idoc :: "bytes \<Rightarrow> json" where
  "idoc s \<equiv> JObj [([105], JStr s)]"

lemma one_field_to_vec [simp]: "255 \<notin> set s \<Longrightarrow> to_vec one_field (idoc s) = Inr s"
  by (simp add: one_field_def)

lemma one_field_total: "\<forall>b. \<exists>d. from_slice one_field b = Inr d"
  by (simp add: one_field_def)

lemma one_field_reads_back: "reads_back one_field (idoc s)"
  by (auto simp: reads_back_def one_field_def split: list.split)

lemma mem_engine_calm:
  assumes "sum_list (map estimated_size rs) + room < 64 * 1024 * 1024"
  shows "calm room (mem_engine rs)"
  using assms active_ok_fold [of "MemTables_new 2 (64 * 1024 * 1024)" rs]
  by (simp add: calm_def mem_engine_def worker_init_def Index_new_def frozen_backpressure_def MemTables_new_def active_ok_def
      MemTable_new_def)

section \<open>What reads see\<close>

text \<open>C4. Documents read back: after any sequence of puts and deletes in a store, none of which waits for a flush or ends with one, a
  get of a key that the sequence wrote returns the last document put under it, or nothing when the last write was
  a delete, and changes nothing; provided \<^verbatim>\<open>serde_json\<close> reads back the documents it wrote.\<close>

theorem documents_read_back:
  assumes "doc_run (\<lambda>t. json_put ext jx t store) (\<lambda>t. json_delete ext jx t store) db_quiet db h db'"
    and "jd_schema db store \<noteq> None" "mts_reach (memtables db)" "now_us \<le> i64_max"
    and "\<forall>d. Some d \<in> snd ` set h \<longrightarrow> reads_back jx d" "pk jx k = Inr kb" "last_write (pk jx) h kb = Some w"
  shows "json_get ext jx now_us store k db' = Some (db', Inr w)"
  using assms mts_ok_active [OF mts_reach_ok [OF assms(3)]]
  by (intro docs.run_get [OF assms(1) _ assms(5-7)]) (simp add: db_ready_def)

theorem documents_read_back_witness:
  "\<exists>db'. doc_run (\<lambda>t. json_put plain_ext one_field t [115]) (\<lambda>t. json_delete plain_ext one_field t [115]) db_quiet
      (mem_db (StoreDef_new [115] [105]) []) [(JStr [97], Some (idoc [97])), (JStr [98], Some (idoc [98])), (JStr [97], None)] db'
    \<and> json_get plain_ext one_field 5 [115] (JStr [97]) db' = Some (db', Inr None)
    \<and> json_get plain_ext one_field 5 [115] (JStr [98]) db' = Some (db', Inr (Some (idoc [98])))"
proof -
  let ?def = "StoreDef_new [115] [105]" and ?put = "\<lambda>t. json_put plain_ext one_field t [115]"
    and ?del = "\<lambda>t. json_delete plain_ext one_field t [115]"
  let ?db = "mem_db ?def []" and ?h = "[(JStr [97], Some (idoc [97])), (JStr [98], Some (idoc [98])), (JStr [97], None)]"
  have sch: "jd_schema ?db [115] = Some ?def" by (simp add: mem_db_def StoreDef_new_def)
  have ix: "indexes ?def = []" and kp: "extract_field (idoc s) (key_path ?def) = Some (JStr s)" for s
    by (simp_all add: StoreDef_new_def extract_field_top)
  have c: "calm 200 (jd_engine ?db)" by (simp add: mem_db_def mem_engine_calm)
  obtain db1 where 1: "?put 0 (idoc [97]) ?db = Some (db1, Inr (JStr [97]))" "db_quiet ?db db1" "jd_schema db1 = jd_schema ?db"
    "calm 164 (jd_engine db1)"
    by (rule calm_put [OF sch ix kp [of "[97]"] _ _ one_field_total c, of "[97]" "[97]"]) (simp_all add: key_defs)
  obtain db2 where 2: "?put 0 (idoc [98]) db1 = Some (db2, Inr (JStr [98]))" "db_quiet db1 db2" "jd_schema db2 = jd_schema db1"
    "calm 128 (jd_engine db2)"
    by (rule calm_put [OF sch [folded 1(3)] ix kp [of "[98]"] _ _ one_field_total 1(4), of "[98]" "[98]"]) (simp_all add: key_defs)
  obtain db3 where 3: "?del 0 (JStr [97]) db2 = Some (db3, Inr ())" "db_quiet db2 db3"
    by (rule calm_delete [OF sch [folded 1(3) 2(3)] ix _ one_field_total 2(4), of "JStr [97]" "[97]"]) (simp_all add: key_defs)
  note run = run_start [of ?put ?del db_quiet ?db, THEN run_put, OF 1(1,2), THEN run_put, OF 2(1,2), THEN run_delete, OF 3, simplified]
  have r: "mts_reach (memtables ?db)" by (simp add: mem_db_def mem_engine_memtables mts_reach.intros)
  have "json_get plain_ext one_field 5 [115] (JStr [97]) db3 = Some (db3, Inr None)"
    "json_get plain_ext one_field 5 [115] (JStr [98]) db3 = Some (db3, Inr (Some (idoc [98])))"
    using documents_read_back [OF run _ r, of 5 "JStr [97]" "[97]" None]
      documents_read_back [OF run _ r, of 5 "JStr [98]" "[98]" "Some (idoc [98])"] sch
    by (auto simp: i64_max_def one_field_reads_back last_write_def)
  with run show ?thesis by blast
qed



section \<open>Index entries follow the document\<close>

lemma read_old_get:
  assumes "json_get ext jx now_us store k db = Some (db0, Inr old)" "pk jx k = Inr kb"
    and "read_old_doc ext jx now_us store kb (jd_engine db) = Some (e0, Inr old')"
  shows "old' = old"
proof -
  obtain def where def: "jd_schema db store = Some def" using assms(1) by (auto simp: json_get_def with_store_def split: option.splits)
  obtain e r where g: "eng_get ext now_us (doc_key store kb) (jd_engine db) = Some (e, Inr r)"
    using assms(3) by (auto simp: read_old_doc_def elim!: bind_call_SomeD)
  show ?thesis
  proof (cases r)
    case None
    then show ?thesis using assms g def
      by (simp add: json_get_def with_store_def on_engine_def read_old_doc_def bind_call_def lift_res_def ret_def)
  next
    case (Some x)
    then show ?thesis using assms g def
      by (cases "decode_doc (from_slice jx) (pval x)")
        (simp_all add: json_get_def with_store_def on_engine_def read_old_doc_def bind_call_def lift_res_def ret_def)
  qed
qed

text \<open>C6. Index maintenance: after a put (that does not flush), the entries of the new document are there and point to its key, the
  entries that only the old document had are deleted, the document is there, and memory answers every other key as before.\<close>

theorem put_maintains_indexes:
  assumes "json_put ext jx now_us store doc db = Some (db', Inr k)" "jd_schema db store = Some def" "pk jx k = Inr kb"
    and "json_get ext jx now_us store k db = Some (db0, Inr old)" "db_quiet db db'" "mts_reach (memtables db)" "t \<le> i64_max"
  shows "mem_look t (memtables db') ik =
    (if ik \<in> set (entry_keys jx def store kb doc) then Some (Put, kb)
     else if ik = doc_key store kb then Some (Put, projr (to_vec jx doc))
     else if \<exists>d. old = Some d \<and> ik \<in> set (entry_keys jx def store kb d) then Some (Delete, [])
     else mem_look t (memtables db) ik)"
  using assms(1)
proof (rule json_put_inv)
  fix def' kb' b e1 e2 old' e0
  assume a: "jd_schema db store = Some def'" "extract_field doc (key_path def') = Some k" "pk jx k = Inr kb'"
    "to_vec jx doc = Inr b" "read_old_doc ext jx now_us store kb' (jd_engine db) = Some (e0, Inr old')"
    "engine_view e1 = engine_view (jd_engine db)"
    "eng_write ext now_us (old_deletes jx def' store kb' old' @ [from_record (Record_new (doc_key store kb') 0 b) 0]
       @ entry_puts jx def' store kb' doc) e1 = Some (e2, Inr ())" "db' = db\<lparr>jd_engine := e2\<rparr>"
  have s: "def' = def" "kb' = kb" using a(1,3) assms(2,3) by simp_all
  have o: "old' = old" by (rule read_old_get [OF assms(4,3) a(5) [unfolded s]])
  have r: "db_ready t store db" using assms(2,7) mts_ok_active [OF mts_reach_ok [OF assms(6)]] by (simp add: db_ready_def)
  have e: "\<forall>r\<in>set (old_deletes jx def' store kb' old' @ [from_record (Record_new (doc_key store kb') 0 b) 0] @ entry_puts jx def' store kb' doc).
      expire_at r = i64_max" using batch_expire by (auto simp: from_record_def Record_new_def)
  from quiet_write(2) [OF a(7,6,8) assms(5) r _ e, of ik] show ?thesis
    using a(4) unfolding s o look_put_batch by (auto split: if_splits)
qed

theorem put_maintains_indexes_witness:
  "\<exists>db'. json_put plain_ext one_field 0 [115] (idoc [97]) (mem_db (with_index [120] [[105]] False (StoreDef_new [115] [105])) [])
      = Some (db', Inr (JStr [97]))
    \<and> mem_look 5 (memtables db') (idx_key [115] [120] (encode_index_value (to_vec one_field) (JStr [97])) [97]) = Some (Put, [97])"
proof -
  let ?def = "with_index [120] [[105]] False (StoreDef_new [115] [105])"
  let ?db = "mem_db ?def []" and ?k = "idx_key [115] [120] (encode_index_value (to_vec one_field) (JStr [97])) [97]"
  have sch: "jd_schema ?db [115] = Some ?def" by (simp add: mem_db_def StoreDef_new_def with_index_def)
  have ix: "\<forall>idx\<in>set (indexes ?def). \<not> unique idx" by (simp add: StoreDef_new_def with_index_def)
  have kp: "extract_field (idoc [97]) (key_path ?def) = Some (JStr [97])" by (simp add: StoreDef_new_def with_index_def extract_field_top)
  have c: "calm 1000 (jd_engine ?db)" by (simp add: mem_db_def mem_engine_calm)
  have ek: "entry_keys one_field ?def [115] [97] (idoc [97]) = [?k]"
    by (simp add: entry_keys_def with_index_def StoreDef_new_def extract_index_values_def extract_field_top index_entry_key_def
        encode_composite_value_def)
  have ml: "mem_look t (memtables ?db) k = None" for t k
    by (simp add: mem_look_def mem_db_def mem_engine_memtables mts_get_def MemTables_new_def MemTable_new_def mt_get_def)
  obtain r where g: "eng_get plain_ext 0 (doc_key [115] [97]) (jd_engine ?db) = Some (jd_engine ?db, Inr r)" "r = None"
    using calm_get [OF c, of plain_ext 0 "doc_key [115] [97]"] ml by auto
  have o: "read_old_doc plain_ext one_field 0 [115] [97] (jd_engine ?db) = Some (jd_engine ?db, Inr None)"
    using g by (simp add: read_old_doc_def bind_call_def ret_def)
  have get: "json_get plain_ext one_field 0 [115] (JStr [97]) ?db = Some (?db, Inr None)"
    using g sch by (simp add: json_get_def with_store_def bind_call_def lift_res_def on_engine_def ret_def)
  have pk: "pk one_field (JStr [97]) = Inr [97]" by simp
  obtain db' where p: "json_put plain_ext one_field 0 [115] (idoc [97]) ?db = Some (db', Inr (JStr [97]))" "db_quiet ?db db'"
    by (rule calm_put_indexed [OF sch ix kp pk _ o c, of "[97]"])
      (simp_all add: ek entry_puts_def old_deletes_def estimated_size_def from_record_def Record_new_def key_defs)
  have r: "mts_reach (memtables ?db)" by (simp add: mem_db_def mem_engine_memtables mts_reach.intros)
  have "mem_look 5 (memtables db') ?k = Some (Put, [97])"
    using put_maintains_indexes [OF p(1) sch pk get p(2) r, of 5 ?k] by (simp add: ek i64_max_def)
  with p(1) show ?thesis by blast
qed

end
