(* ===== verification/Json_Schema.thy ===== *)
theory Json_Schema
  imports Json_Docs Json_Query
begin

text \<open>
  The schema cache.  Its definitions are well formed whatever calls are made: filed under their own valid name, with a key path
  and with indexes of distinct valid names.  The state machine \<open>json_reach\<close> has one rule per call of the database.
\<close>

section \<open>Well-formed definitions\<close>

definition index_ok :: "IndexDef \<Rightarrow> bool" where
  "index_ok i \<longleftrightarrow> validate_name (ix_name i) = Inr () \<and> key_paths i \<noteq> [] \<and> [] \<notin> set (key_paths i)"

definition store_ok :: "StoreDef \<Rightarrow> bool" where
  "store_ok def \<longleftrightarrow> validate_name (sd_name def) = Inr () \<and> key_path def \<noteq> [] \<and> distinct (map ix_name (indexes def))
     \<and> (\<forall>i\<in>set (indexes def). index_ok i)"

definition schema_ok :: "Schema \<Rightarrow> bool" where
  "schema_ok sch \<longleftrightarrow> (\<forall>st def. sch st = Some def \<longrightarrow> sd_name def = st \<and> store_ok def)"

lemma schema_ok_insert: "schema_ok sch \<Longrightarrow> store_ok def \<Longrightarrow> schema_ok (schema_insert def sch)"
  by (simp add: schema_ok_def schema_insert_def)

lemma schema_ok_remove: "schema_ok sch \<Longrightarrow> schema_ok (schema_remove name sch)"
  by (simp add: schema_ok_def schema_remove_def)

lemma schema_ok_lookup: "schema_ok sch \<Longrightarrow> sch st = Some def \<Longrightarrow> store_ok def"
  by (simp add: schema_ok_def)

lemma store_ok_new: "validate_store_def name kp = Inr () \<Longrightarrow> store_ok (StoreDef_new name kp)"
  by (auto simp: store_ok_def StoreDef_new_def validate_store_def_def split: sum.splits if_splits)

lemma store_ok_add_index:
  assumes "store_ok def" "validate_index_def def name paths = Inr ()"
  shows "store_ok (def\<lparr>indexes := indexes def @ [\<lparr>key_paths = paths, ix_name = name, unique = u, multi_entry = m\<rparr>]\<rparr>)"
  using assms by (auto simp: store_ok_def validate_index_def_def index_ok_def split: sum.splits if_splits)

lemma remove_index_set: "set (remove_index name is) \<subseteq> set is"
  by (induction "is") auto

lemma remove_index_distinct: "distinct (map ix_name is) \<Longrightarrow> distinct (map ix_name (remove_index name is))"
  using remove_index_set by (induction "is") fastforce+

lemma store_ok_remove_index: "store_ok def \<Longrightarrow> store_ok (def\<lparr>indexes := remove_index name (indexes def)\<rparr>)"
  using remove_index_set [of name "indexes def"] by (auto simp: store_ok_def remove_index_distinct)

section \<open>Every call keeps the schema well formed\<close>

abbreviation schema_inv :: "'l JsonDB \<Rightarrow> bool" where
  "schema_inv \<equiv> \<lambda>db. schema_ok (jd_schema db)"

lemma keeps_insert: "store_ok def \<Longrightarrow> keeps schema_inv (set_schema (schema_insert def))"
  by (auto simp: keeps_def set_schema_def schema_ok_insert)

lemma keeps_remove: "keeps schema_inv (set_schema (schema_remove name))"
  by (auto simp: keeps_def set_schema_def schema_ok_remove)

lemma keeps_schema_store:
  "(\<And>def. store_ok def \<Longrightarrow> keeps schema_inv (f def)) \<Longrightarrow> keeps schema_inv (with_store store f)"
  by (rule keeps_store) (blast intro: schema_ok_lookup)

lemma keeps_case_schema:
  assumes "keeps schema_inv m" "\<And>def. store_ok def \<Longrightarrow> keeps schema_inv (f def)"
  shows "keeps schema_inv (\<lambda>db. case jd_schema db name of None \<Rightarrow> m db | Some def \<Rightarrow> f def db)"
proof
  fix db db' r
  assume i: "schema_inv db" and c: "(case jd_schema db name of None \<Rightarrow> m db | Some def \<Rightarrow> f def db) = Some (db', r)"
  show "schema_inv db'"
  proof (cases "jd_schema db name")
    case None
    with c keepsD [OF assms(1) _ i] show ?thesis by simp
  next
    case (Some def)
    with c have "f def db = Some (db', r)" by simp
    from keepsD [OF assms(2) [OF schema_ok_lookup [OF i Some]] this i] show ?thesis .
  qed
qed

lemma keeps_same: "(\<And>db. \<exists>r. m db = Some (db, r)) \<Longrightarrow> keeps I m"
  unfolding keeps_def by (metis option.inject prod.inject)

lemma keeps_create_object_store: "keeps schema_inv (create_object_store ext jx now_us name kp)"
  unfolding create_object_store_def Let_def
  by (intro keeps_lift_bind keeps_case_schema keeps_bind_simple keeps_lift_res keeps_on_engine_schema keeps_insert)
    (auto intro: store_ok_new keeps_same)

lemma keeps_delete_object_store: "keeps schema_inv (delete_object_store ext now_us name)"
  unfolding delete_object_store_def by (intro keeps_schema_store keeps_intros keeps_remove)

lemma keeps_create_index: "keeps schema_inv (create_index ext jx now_us store name paths u)"
proof -
  have "keeps schema_inv (for_each (backfill jx def' store index) docs)" for def' index docs
    unfolding backfill_def by (intro keeps_intros)
  then show ?thesis
    unfolding create_index_def Let_def
    by (intro keeps_schema_store keeps_lift_bind keeps_bind_simple keeps_on_engine_schema keeps_lift_res keeps_insert store_ok_add_index) auto
qed

lemma keeps_delete_index: "keeps schema_inv (delete_index ext jx now_us store name)"
  unfolding delete_index_def Let_def
  by (intro keeps_schema_store keeps_if keeps_bind_simple keeps_on_engine_schema keeps_lift_res keeps_insert store_ok_remove_index)

lemma keeps_apply_new_store: "keeps schema_inv (apply_new_store ext jx now_us def)"
proof -
  have auto: "store_ok (c\<lparr>auto_increment := True\<rparr>)" if "store_ok c" for c using that by (simp add: store_ok_def)
  have "keeps schema_inv (\<lambda>_. None)" by (simp add: keeps_def)
  then show ?thesis
    unfolding apply_new_store_def Let_def
    by (intro keeps_bind_simple keeps_create_object_store keeps_if keeps_case_schema keeps_lift_res keeps_on_engine_schema keeps_insert
        keeps_ret keeps_for_each keeps_create_index auto)
qed

lemma keeps_apply_store: "keeps schema_inv (apply_store ext jx now_us def)"
proof -
  have upd: "keeps schema_inv (bind_call (for_each (\<lambda>idx. create_index ext jx now_us st (ix_name idx) (key_paths idx) (unique idx)) xs) (\<lambda>_.
      bind_call (for_each (\<lambda>ex. delete_index ext jx now_us st (ix_name ex)) ys) (\<lambda>_. ret ())))" for st xs ys
    by (intro keeps_bind_simple keeps_ret keeps_for_each keeps_create_index keeps_delete_index)
  have "keeps schema_inv (\<lambda>db. if key_path existing \<noteq> kp then Some (db, Inl err)
      else case is of idx # _ \<Rightarrow> Some (db, Inl (err' idx)) | [] \<Rightarrow> m db)" if "keeps schema_inv m" for existing kp err "is" err' m
    using that by (cases "is") (auto simp: keeps_def)
  from this [OF upd] show ?thesis
    unfolding apply_store_def by (intro keeps_case_schema keeps_apply_new_store)
qed

lemma keeps_apply_schemas: "keeps schema_inv (apply_schemas ext jx now_us stores)"
  unfolding apply_schemas_def by (intro keeps_intros keeps_apply_store)

section \<open>The calls as a state machine\<close>

text \<open>A database opened on definitions that are well formed, and any calls on it, whatever they return; commits of transactions
  included.\<close>

inductive json_reach :: "'l externals \<Rightarrow> json_ext \<Rightarrow> 'l JsonDB \<Rightarrow> bool" for ext jx where
  reach_open: "from_engine ext jx now_us e = Some (Inr db) \<Longrightarrow>
    (\<And>e' rs r def. eng_scan ext now_us (prefix_range schema_prefix) e = Some (e', Inr rs) \<Longrightarrow> r \<in> set rs \<Longrightarrow>
       def_from_slice jx (pval r) = Inr def \<Longrightarrow> store_ok def) \<Longrightarrow> json_reach ext jx db"
| reach_create_store: "json_reach ext jx db \<Longrightarrow> create_object_store ext jx now_us name kp db = Some (db', res) \<Longrightarrow> json_reach ext jx db'"
| reach_delete_store: "json_reach ext jx db \<Longrightarrow> delete_object_store ext now_us name db = Some (db', res) \<Longrightarrow> json_reach ext jx db'"
| reach_create_index: "json_reach ext jx db \<Longrightarrow> create_index ext jx now_us store name paths u db = Some (db', res) \<Longrightarrow> json_reach ext jx db'"
| reach_delete_index: "json_reach ext jx db \<Longrightarrow> delete_index ext jx now_us store name db = Some (db', res) \<Longrightarrow> json_reach ext jx db'"
| reach_apply: "json_reach ext jx db \<Longrightarrow> apply_schemas ext jx now_us stores db = Some (db', res) \<Longrightarrow> json_reach ext jx db'"
| reach_put: "json_reach ext jx db \<Longrightarrow> json_put ext jx now_us store doc db = Some (db', key_res) \<Longrightarrow> json_reach ext jx db'"
| reach_put_auto: "json_reach ext jx db \<Longrightarrow> put_auto ext jx now_us store doc db = Some (db', key_res) \<Longrightarrow> json_reach ext jx db'"
| reach_delete: "json_reach ext jx db \<Longrightarrow> json_delete ext jx now_us store k db = Some (db', res) \<Longrightarrow> json_reach ext jx db'"
| reach_get: "json_reach ext jx db \<Longrightarrow> json_get ext jx now_us store k db = Some (db', get_res) \<Longrightarrow> json_reach ext jx db'"
| reach_count: "json_reach ext jx db \<Longrightarrow> json_count ext now_us store db = Some (db', count_res) \<Longrightarrow> json_reach ext jx db'"
| reach_scan: "json_reach ext jx db \<Longrightarrow> json_scan ext jx now_us store db = Some (db', docs_res) \<Longrightarrow> json_reach ext jx db'"
| reach_get_by_index: "json_reach ext jx db \<Longrightarrow> get_by_index ext jx now_us store index v db = Some (db', docs_res) \<Longrightarrow> json_reach ext jx db'"
| reach_range: "json_reach ext jx db \<Longrightarrow> range_by_index ext jx now_us store index v w db = Some (db', docs_res) \<Longrightarrow> json_reach ext jx db'"
| reach_query: "json_reach ext jx db \<Longrightarrow> collect_query ext jx now_us q db = Some (db', docs_res) \<Longrightarrow> json_reach ext jx db'"
| reach_commit: "json_reach ext jx db \<Longrightarrow> tx_commit ext jx now_us order (db, tx) = Some ((db', tx'), res) \<Longrightarrow> json_reach ext jx db'"

lemma load_defs_ok:
  assumes "load_defs jx rs sch = Inr sch'" "schema_ok sch" "\<And>r def. r \<in> set rs \<Longrightarrow> def_from_slice jx (pval r) = Inr def \<Longrightarrow> store_ok def"
  shows "schema_ok sch'"
  using assms
proof (induction rs arbitrary: sch)
  case (Cons r rs)
  from Cons.prems(1) obtain def where d: "def_from_slice jx (pval r) = Inr def" "load_defs jx rs (schema_insert def sch) = Inr sch'"
    by (auto split: sum.splits)
  have "store_ok def" using Cons.prems(3) [of r] d(1) by simp
  then show ?case by (rule Cons.IH [OF d(2) schema_ok_insert [OF Cons.prems(2)]]) (use Cons.prems(3) in auto)
qed simp

lemma from_engine_ok:
  assumes "from_engine ext jx now_us e = Some (Inr db)"
    and "\<And>e' rs r def. eng_scan ext now_us (prefix_range schema_prefix) e = Some (e', Inr rs) \<Longrightarrow> r \<in> set rs \<Longrightarrow>
       def_from_slice jx (pval r) = Inr def \<Longrightarrow> store_ok def"
  shows "schema_ok (jd_schema db)"
proof -
  from assms(1) obtain e' r where r: "load_schemas ext jx now_us e = Some (e', r)"
    "(case r of Inl err \<Rightarrow> Inl err | Inr sch \<Rightarrow> Inr \<lparr>jd_engine = e', jd_schema = sch\<rparr>) = Inr db" by (auto simp: from_engine_def)
  then obtain sch where l: "load_schemas ext jx now_us e = Some (e', Inr sch)" "db = \<lparr>jd_engine = e', jd_schema = sch\<rparr>"
    by (cases r) auto
  from l(1) obtain e1 rs where "eng_scan ext now_us (prefix_range schema_prefix) e = Some (e1, Inr rs)" "load_defs jx rs Map.empty = Inr sch"
    by (auto simp: load_schemas_def lift_res_def elim!: bind_call_SomeD)
  with load_defs_ok [of jx rs Map.empty sch] assms(2) l(2) show ?thesis by (simp add: schema_ok_def)
qed

text \<open>The document calls do not touch the schema at all.\<close>

lemma keeps_doc_calls:
  "keeps (\<lambda>db. P (jd_schema db)) (json_put ext jx now_us store doc)" "keeps (\<lambda>db. P (jd_schema db)) (put_auto ext jx now_us store doc)"
  "keeps (\<lambda>db. P (jd_schema db)) (json_delete ext jx now_us store k)" "keeps (\<lambda>db. P (jd_schema db)) (json_get ext jx now_us store k)"
  "keeps (\<lambda>db. P (jd_schema db)) (json_count ext now_us store)" "keeps (\<lambda>db. P (jd_schema db)) (json_scan ext jx now_us store)"
  "keeps (\<lambda>db. P (jd_schema db)) (get_by_index ext jx now_us store index v)"
  "keeps (\<lambda>db. P (jd_schema db)) (range_by_index ext jx now_us store index v w)"
  "keeps (\<lambda>db. P (jd_schema db)) (collect_query ext jx now_us q)"
  unfolding json_put_def put_auto_def json_delete_def json_get_def json_count_def json_scan_def get_by_index_def range_by_index_def
    collect_query_def Let_def
  by (intro keeps_intros)+

lemma keeps_on_db: "keeps I m \<Longrightarrow> keeps (\<lambda>s. I (fst s)) (on_db m)"
  by (fastforce simp: keeps_def on_db_def)

lemma keeps_commit_write: "keeps (\<lambda>db. P (jd_schema db)) (commit_write ext jx now_us ws w)"
proof -
  obtain store kb v where w: "w = ((store, kb), v)" by (metis surj_pair)
  show ?thesis unfolding w commit_write_def prod.case by (intro keeps_with_store keeps_on_engine_schema)
qed

lemma keeps_commit: "keeps (\<lambda>s. P (jd_schema (fst s))) (tx_commit ext jx now_us order)"
proof
  fix s s' r
  assume p: "P (jd_schema (fst s))" and c: "tx_commit ext jx now_us order s = Some (s', r)"
  let ?m = "\<lambda>tx. bind_call (on_db (for_each (commit_write ext jx now_us (write_list order tx)) (write_list order tx))) (\<lambda>rs.
       bind_call (if tx_counter_updates tx @ concat rs \<noteq> [] then tx_engine (eng_write ext now_us (tx_counter_updates tx @ concat rs)) else ret ())
         (\<lambda>_ (db, tx). Some ((db, tx\<lparr>tx_counter_updates := [], tx_committed := True\<rparr>), Inr ())))"
  have last: "keeps (\<lambda>s. P (jd_schema (fst s))) (\<lambda>(db, tx). Some ((db, tx\<lparr>tx_counter_updates := [], tx_committed := True\<rparr>), Inr ()))"
    by (auto simp: keeps_def)
  have k: "keeps (\<lambda>s. P (jd_schema (fst s))) (?m tx)" for tx
    unfolding tx_engine_def
    by (intro keeps_bind_simple keeps_on_db keeps_if keeps_ret keeps_for_each keeps_commit_write keeps_on_engine_schema last)
  obtain db tx where s: "s = (db, tx)" by (metis surj_pair)
  show "P (jd_schema (fst s'))"
  proof (cases "tx_committed tx")
    case True
    then show ?thesis using p c by (auto simp: tx_commit_def s)
  next
    case False
    then have "?m tx s = Some (s', r)" using c by (simp add: tx_commit_def s Let_def)
    from keepsD [OF k this p] show ?thesis .
  qed
qed

lemmas schema_keeps = keeps_create_object_store keeps_delete_object_store keeps_create_index keeps_delete_index keeps_apply_schemas
  keeps_doc_calls [where P = schema_ok]



end
