(* ===== verification/Json_Atomic.thy ===== *)
theory Json_Atomic
  imports Json_Schema
begin

text \<open>
  Transactions: until the commit nothing of the database changes but the block cache, a commit is one batch of the engine or
  nothing, what it refuses, and how generated keys go wrong.
\<close>

section \<open>Before the commit\<close>

abbreviation tx_view :: "((WriteWorker \<times> nat) \<times> Schema \<Rightarrow> bool) \<Rightarrow> 'l JsonDB \<times> Transaction \<Rightarrow> bool" where
  "tx_view P \<equiv> \<lambda>s. P (db_view (fst s))"

lemma keeps_tx_engine [keeps_intros]: "(\<And>Q. keeps (\<lambda>e. Q (engine_view e)) m) \<Longrightarrow> keeps (tx_view P) (tx_engine m)"
  unfolding tx_engine_def by (intro keeps_on_db keeps_on_engine_db)

lemma keeps_tx_state [keeps_intros]:
  "keeps (tx_view P) require_read_write" "keeps (tx_view P) (buffer_write store k v)" "keeps (tx_view P) (buffered store k)"
  "keeps (tx_view P) (all_writes order)" "keeps (tx_view P) (require_store store)"
  by (auto simp: keeps_def require_read_write_def buffer_write_def buffered_def all_writes_def require_store_def on_db_def with_store_def
      ret_def split: option.splits)

lemma keeps_prod_app [keeps_intros]: "(\<And>a b. keeps I (f a b y)) \<Longrightarrow> keeps I ((case x of (a, b) \<Rightarrow> f a b) y)"
  by (cases x) simp

lemma keeps_new_puts [keeps_intros]: "keeps (tx_view P) (new_puts ext now_us store order)"
  unfolding new_puts_def by (intro keeps_intros)

lemma keeps_tx_entries [keeps_intros]: "keeps (tx_view P) (tx_entries ext jx now_us store Q rng)"
  unfolding tx_entries_def by (intro keeps_intros)

lemma keeps_tx_next_id [keeps_intros]: "keeps (tx_view P) (tx_next_id ext now_us store)"
proof
  fix s s' r
  assume p: "tx_view P s" and n: "tx_next_id ext now_us store s = Some (s', r)"
  obtain db tx where s: "s = (db, tx)" by (metis surj_pair)
  have k: "keeps (tx_view P) (bind_call (tx_engine (prepare_counter ext now_us store)) (\<lambda>(i, counter_rec) (db, tx).
      Some ((db, tx\<lparr>tx_counter_updates := tx_counter_updates tx @ [counter_rec], tx_next_ids := (tx_next_ids tx)(store \<mapsto> i)\<rparr>), Inr i)))"
    by (intro keeps_bind_simple keeps_tx_engine keeps_prepare_counter keeps_prod) (auto simp: keeps_def)
  show "tx_view P s'"
    using p n keepsD [OF k] by (cases "tx_next_ids tx store") (auto simp: tx_next_id_def s)
qed

lemma keeps_tx_calls:
  "keeps (tx_view P) (tx_put jx store doc)" "keeps (tx_view P) (tx_delete jx store k)" "keeps (tx_view P) (tx_get ext jx now_us store k)"
  "keeps (tx_view P) (tx_count ext now_us order store)" "keeps (tx_view P) (tx_scan ext jx now_us order store)"
  "keeps (tx_view P) (tx_range_by_index ext jx now_us order store index v w)" "keeps (tx_view P) (tx_put_auto ext jx now_us store doc)"
  unfolding tx_put_def tx_delete_def tx_get_def tx_count_def tx_scan_def tx_range_by_index_def tx_put_auto_def Let_def
  by (intro keeps_intros)+

lemma keeps_tx_get_by_index: "keeps (tx_view P) (tx_get_by_index ext jx now_us order store index v)"
  unfolding tx_get_by_index_def Let_def by (intro keeps_intros)

text \<open>One call of a transaction, whatever it returns.\<close>

inductive tx_step :: "'l externals \<Rightarrow> json_ext \<Rightarrow> 'l JsonDB \<times> Transaction \<Rightarrow> 'l JsonDB \<times> Transaction \<Rightarrow> bool" for ext jx where
  step_put: "tx_put jx store doc s = Some (s', key_res) \<Longrightarrow> tx_step ext jx s s'"
| step_put_auto: "tx_put_auto ext jx now_us store doc s = Some (s', key_res) \<Longrightarrow> tx_step ext jx s s'"
| step_delete: "tx_delete jx store k s = Some (s', res) \<Longrightarrow> tx_step ext jx s s'"
| step_get: "tx_get ext jx now_us store k s = Some (s', get_res) \<Longrightarrow> tx_step ext jx s s'"
| step_count: "tx_count ext now_us order store s = Some (s', count_res) \<Longrightarrow> tx_step ext jx s s'"
| step_scan: "tx_scan ext jx now_us order store s = Some (s', docs_res) \<Longrightarrow> tx_step ext jx s s'"
| step_get_by_index: "tx_get_by_index ext jx now_us order store index v s = Some (s', docs_res) \<Longrightarrow> tx_step ext jx s s'"
| step_range: "tx_range_by_index ext jx now_us order store index v w s = Some (s', docs_res) \<Longrightarrow> tx_step ext jx s s'"

lemmas tx_keeps = keeps_tx_calls keeps_tx_get_by_index

lemma tx_step_view: "tx_step ext jx s s' \<Longrightarrow> db_view (fst s') = db_view (fst s)"
  by (induction rule: tx_step.induct) (erule tx_keeps [where P = "\<lambda>v. v = db_view (fst s)" for s, THEN keepsD], rule refl)+

lemma tx_steps_view: "(tx_step ext jx)\<^sup>*\<^sup>* s s' \<Longrightarrow> db_view (fst s') = db_view (fst s)"
  by (induction rule: rtranclp_induct) (simp_all add: tx_step_view)

section \<open>The commit\<close>

lemma keeps_tx_check_unique [keeps_intros]: "keeps (\<lambda>e. P (engine_view e)) (tx_check_unique ext jx now_us store idx kb ws vs)"
  by (induction vs) (auto simp: Let_def intro!: keeps_intros)

lemma keeps_commit_reads [keeps_intros]:
  "keeps (\<lambda>e. P (engine_view e)) (tx_index_entries ext jx now_us store kb doc ws idx)"
  "keeps (\<lambda>e. P (engine_view e)) (old_doc_lenient ext jx now_us store kb)"
  unfolding tx_index_entries_def old_doc_lenient_def by (intro keeps_intros)+

lemma keeps_commit_write_view: "keeps (\<lambda>db. P (db_view db)) (commit_write ext jx now_us ws w)"
  unfolding commit_write_def by (intro keeps_intros)

text \<open>The records of one buffered write.\<close>

lemma commit_write_shape:
  assumes "commit_write ext jx now_us ws ((store, kb), v) db = Some (db', Inr recs)"
  obtains def old where "jd_schema db store = Some def"
    "recs = old_deletes jx def store kb old @ (case v of
        Some b \<Rightarrow> from_record (Record_new (doc_key store kb) 0 b) 0 # entry_puts jx def store kb (projr (decode_doc (from_slice jx) b))
      | None \<Rightarrow> [delete_rec (doc_key store kb) 0 0])"
    "\<And>b idx vals. v = Some b \<Longrightarrow> idx \<in> set (indexes def) \<Longrightarrow> unique idx \<Longrightarrow>
       vals \<in> set (extract_index_values (projr (decode_doc (from_slice jx) b)) idx) \<Longrightarrow>
       buffer_conflict jx store kb idx (encode_composite_value (to_vec jx) vals) ws = Inr ()"
proof -
  obtain def where def: "jd_schema db store = Some def"
    using assms by (auto simp: commit_write_def with_store_def split: option.splits)
  show thesis
  proof (cases v)
    case None
    then obtain e e' old where "old_doc_lenient ext jx now_us store kb e = Some (e', Inr old)"
      "recs = old_deletes jx def store kb old @ [delete_rec (doc_key store kb) 0 0]"
      using assms by (auto simp: commit_write_def with_store_def def on_engine_def ret_def old_deletes_def elim!: bind_call_SomeD)
    then show thesis using that [OF def] None by simp
  next
    case (Some b)
    then obtain old doc es e e' where d: "decode_doc (from_slice jx) b = Inr doc"
      and es: "for_each (tx_index_entries ext jx now_us store kb doc ws) (indexes def) e = Some (e', Inr es)"
      and r: "recs = old_deletes jx def store kb old @ [from_record (Record_new (doc_key store kb) 0 b) 0] @ concat es"
      using assms by (auto simp: commit_write_def with_store_def def on_engine_def ret_def lift_res_def old_deletes_def elim!: bind_call_SomeD)
    have conf: "vals \<in> set vs \<Longrightarrow> buffer_conflict jx store kb idx (encode_composite_value (to_vec jx) vals) ws = Inr ()"
      if "tx_check_unique ext jx now_us store idx kb ws vs s = Some (s', Inr u)" for vals vs s s' u idx
      using that by (induction vs arbitrary: s) (auto simp: Let_def lift_res_def elim!: bind_call_SomeD split: if_splits)
    have one: "y = index_puts jx store idx kb (extract_index_values doc idx)
        \<and> (unique idx \<longrightarrow> (\<exists>u s s'. tx_check_unique ext jx now_us store idx kb ws (extract_index_values doc idx) s = Some (s', Inr u)))"
      if "tx_index_entries ext jx now_us store kb doc ws idx s = Some (s', Inr y)" for idx s s' y
    proof -
      from that obtain u s1 where "(if unique idx then tx_check_unique ext jx now_us store idx kb ws (extract_index_values doc idx) else ret ()) s = Some (s1, Inr u)"
        "y = index_puts jx store idx kb (extract_index_values doc idx)"
        by (auto simp: tx_index_entries_def Let_def ret_def elim!: bind_call_SomeD)
      then show ?thesis by (cases "unique idx") auto
    qed
    have all: "list_all2 (\<lambda>idx y. y = index_puts jx store idx kb (extract_index_values doc idx)
        \<and> (unique idx \<longrightarrow> (\<exists>u s s'. tx_check_unique ext jx now_us store idx kb ws (extract_index_values doc idx) s = Some (s', Inr u)))) (indexes def) es"
      using for_each_results [OF es] one by (auto elim!: list_all2_mono)
    then have es_eq: "es = map (\<lambda>idx. index_puts jx store idx kb (extract_index_values doc idx)) (indexes def)"
      by (simp add: list_all2_conv_all_nth list_eq_iff_nth_eq)
    have chk: "\<exists>u s s'. tx_check_unique ext jx now_us store idx kb ws (extract_index_values doc idx) s = Some (s', Inr u)"
      if "idx \<in> set (indexes def)" "unique idx" for idx
      using all that by (auto simp: list_all2_conv_all_nth in_set_conv_nth)
    have conflict: "buffer_conflict jx store kb idx (encode_composite_value (to_vec jx) vals) ws = Inr ()"
      if "idx \<in> set (indexes def)" "unique idx" "vals \<in> set (extract_index_values doc idx)" for idx vals
      using chk [OF that(1,2)] conf that(3) by blast
    have "recs = old_deletes jx def store kb old @ from_record (Record_new (doc_key store kb) 0 b) 0 # entry_puts jx def store kb doc"
      using r es_eq index_puts_keys [of jx store kb doc def] by simp
    then show thesis by (intro that [OF def, of old]) (use Some d conflict in auto)
  qed
qed

lemma tx_commit_inv:
  assumes "tx_commit ext jx now_us order (db, tx) = Some ((db', tx'), Inr ())" "\<not> tx_committed tx"
  obtains e rss where "engine_view e = engine_view (jd_engine db)"
    "eng_write ext now_us (tx_counter_updates tx @ concat rss) e = Some (jd_engine db', Inr ())"
    "jd_schema db' = jd_schema db"
    "list_all2 (\<lambda>w recs. \<exists>db1 db2. jd_schema db1 = jd_schema db \<and> commit_write ext jx now_us (write_list order tx) w db1 = Some (db2, Inr recs))
      (write_list order tx) rss"
proof -
  let ?ws = "write_list order tx" and ?P = "\<lambda>v. v = db_view db"
  from assms obtain db1 rss tx1 where f: "for_each (commit_write ext jx now_us ?ws) ?ws db = Some (db1, Inr rss)"
    and w: "(if tx_counter_updates tx @ concat rss \<noteq> [] then tx_engine (eng_write ext now_us (tx_counter_updates tx @ concat rss)) else ret ())
       (db1, tx) = Some ((db', tx1), Inr ())"
    by (auto simp: tx_commit_def Let_def on_db_def elim!: bind_call_SomeD split: if_splits prod.splits)
  have "db_view db1 = db_view db"
    using keepsD [OF keeps_for_each [OF keeps_commit_write_view [where P = ?P]] f] by simp
  then have v: "engine_view (jd_engine db1) = engine_view (jd_engine db)" "jd_schema db1 = jd_schema db" by (simp_all add: db_view_def)
  have e: "eng_write ext now_us (tx_counter_updates tx @ concat rss) (jd_engine db1) = Some (jd_engine db', Inr ())" "jd_schema db' = jd_schema db1"
    using w by (auto simp: tx_engine_def on_db_def on_engine_def ret_def eng_write_def write_internal_def split: if_splits)
  have "list_all2 (\<lambda>w recs. \<exists>db1 db2. jd_schema db1 = jd_schema db \<and> commit_write ext jx now_us ?ws w db1 = Some (db2, Inr recs)) ?ws rss"
    by (rule for_each_results_keeps [OF f keeps_commit_write]) simp
  then show thesis using that [OF v(1) e(1)] e(2) v(2) by simp
qed

lemma list_all2_in: "list_all2 P xs ys \<Longrightarrow> x \<in> set xs \<Longrightarrow> \<exists>y\<in>set ys. P x y"
  by (induction rule: list_all2_induct) auto

lemma commit_result_set:
  assumes "list_all2 (\<lambda>w recs. \<exists>db1 db2. jd_schema db1 = sch \<and> commit_write ext jx now_us ws w db1 = Some (db2, Inr recs)) xs rss"
    and "((st, kb), v) \<in> set xs"
  shows "(case v of Some b \<Rightarrow> from_record (Record_new (doc_key st kb) 0 b) 0 | None \<Rightarrow> delete_rec (doc_key st kb) 0 0) \<in> set (concat rss)"
proof -
  from list_all2_in [OF assms] obtain recs db1 db2 where r: "recs \<in> set rss" "commit_write ext jx now_us ws ((st, kb), v) db1 = Some (db2, Inr recs)"
    by blast
  from r(2) have "(case v of Some b \<Rightarrow> from_record (Record_new (doc_key st kb) 0 b) 0 | None \<Rightarrow> delete_rec (doc_key st kb) 0 0) \<in> set recs"
    by (rule commit_write_shape) (simp split: option.split)
  with r(1) show ?thesis by auto
qed

lemma tx_commit_error:
  assumes "tx_commit ext jx now_us order (db, tx) = Some ((db', tx'), Inl err)"
  shows "db_view db' = db_view db"
proof -
  let ?ws = "write_list order tx" and ?P = "\<lambda>v. v = db_view db"
  have c: "\<not> tx_committed tx" using assms by (auto simp: tx_commit_def)
  have w: "eng_write ext now_us recs e \<noteq> Some (e', Inl x)" for recs e e' x by (auto simp: eng_write_def)
  obtain db1 r where f: "for_each (commit_write ext jx now_us ?ws) ?ws db = Some (db1, r)"
    using assms c by (cases "for_each (commit_write ext jx now_us ?ws) ?ws db") (auto simp: tx_commit_def Let_def on_db_def bind_call_def)
  have "db' = db1"
    using assms c f w
    by (cases r) (auto simp: tx_commit_def Let_def on_db_def bind_call_def tx_engine_def on_engine_def ret_def split: if_splits option.splits prod.splits sum.splits)
  then show ?thesis using keepsD [OF keeps_for_each [OF keeps_commit_write_view [where P = ?P]] f] by simp
qed

lemma tx_commit_effect:
  assumes "tx_commit ext jx now_us order (db, tx) = Some ((db', tx'), r)" "\<not> tx_committed tx"
  shows "jd_schema db' = jd_schema db
    \<and> (case r of
         Inl _ \<Rightarrow> db_view db' = db_view db
       | Inr _ \<Rightarrow> \<exists>e recs. engine_view e = engine_view (jd_engine db) \<and> write_internal ext now_us recs e = Some (jd_engine db')
           \<and> set (tx_counter_updates tx) \<subseteq> set recs
           \<and> (\<forall>st kb v. ((st, kb), v) \<in> set (write_list order tx) \<longrightarrow>
                (case v of Some b \<Rightarrow> from_record (Record_new (doc_key st kb) 0 b) 0 | None \<Rightarrow> delete_rec (doc_key st kb) 0 0) \<in> set recs))"
proof (cases r)
  case (Inl err)
  then have "db_view db' = db_view db" using tx_commit_error assms(1) by blast
  with Inl show ?thesis by (simp add: db_view_def)
next
  case (Inr u)
  with assms(1) have c: "tx_commit ext jx now_us order (db, tx) = Some ((db', tx'), Inr ())" by simp
  from c assms(2) obtain e rss where e: "engine_view e = engine_view (jd_engine db)"
      "eng_write ext now_us (tx_counter_updates tx @ concat rss) e = Some (jd_engine db', Inr ())" "jd_schema db' = jd_schema db"
    and l: "list_all2 (\<lambda>w recs. \<exists>d1 d2. jd_schema d1 = jd_schema db \<and> commit_write ext jx now_us (write_list order tx) w d1 = Some (d2, Inr recs))
      (write_list order tx) rss" by (rule tx_commit_inv)
  have w: "write_internal ext now_us (tx_counter_updates tx @ concat rss) e = Some (jd_engine db')"
    using e(2) by (auto simp: eng_write_def)
  have s: "((st, kb), u) \<in> set (write_list order tx) \<Longrightarrow>
      (case u of Some b \<Rightarrow> from_record (Record_new (doc_key st kb) 0 b) 0 | None \<Rightarrow> delete_rec (doc_key st kb) 0 0)
        \<in> set (tx_counter_updates tx @ concat rss)" for st kb u
    using commit_result_set [OF l, of st kb u] by simp
  have "set (tx_counter_updates tx) \<subseteq> set (tx_counter_updates tx @ concat rss)" by simp
  with e(1,3) w s Inr show ?thesis unfolding sum.case Inr by blast
qed

text \<open>C5. Transactions are atomic: no call of a transaction before the commit changes anything of the database but the block cache; a
  commit that fails changes nothing either; and a commit that succeeds is one batch of the engine, which
  holds the generated counters and the document or the deletion of every buffered write, with the schema unchanged.\<close>

theorem transaction_atomic:
  assumes "(tx_step ext jx)\<^sup>*\<^sup>* (db, tx) (db1, tx1)" "\<not> tx_committed tx1"
    and "tx_commit ext jx now_us order (db1, tx1) = Some ((db2, tx2), r)"
  shows "db_view db1 = db_view db \<and> jd_schema db2 = jd_schema db
    \<and> (case r of
         Inl _ \<Rightarrow> db_view db2 = db_view db
       | Inr _ \<Rightarrow> \<exists>e recs. engine_view e = engine_view (jd_engine db) \<and> write_internal ext now_us recs e = Some (jd_engine db2)
           \<and> set (tx_counter_updates tx1) \<subseteq> set recs
           \<and> (\<forall>st kb v. ((st, kb), v) \<in> set (write_list order tx1) \<longrightarrow>
                (case v of Some b \<Rightarrow> from_record (Record_new (doc_key st kb) 0 b) 0 | None \<Rightarrow> delete_rec (doc_key st kb) 0 0) \<in> set recs))"
  using tx_commit_effect [OF assms(3,2)] tx_steps_view [OF assms(1)] by (auto simp: db_view_def split: sum.splits)

text \<open>For examples: the empty engine, and a transaction with two documents in a store with a unique index.\<close>

lemma empty_engine_reads [simp]:
  "eng_get plain_ext now_us k (mem_engine []) = Some (mem_engine [], Inr None)"
  "eng_scan plain_ext now_us (prefix_range p) (mem_engine []) = Some (mem_engine [], Inr [])"
proof -
  have c: "calm 0 (mem_engine [])" by (rule mem_engine_calm) simp
  have "mem_look now_us (ww_memtables (en_worker (mem_engine []))) k = None" "mts_query_prefix p now_us (ww_memtables (en_worker (mem_engine []))) = []"
    by (simp_all add: mem_engine_memtables mem_look_def mts_get_def mt_get_def mts_query_prefix_def mt_query_prefix_def MemTables_new_def
        MemTable_new_def)
  then show "eng_get plain_ext now_us k (mem_engine []) = Some (mem_engine [], Inr None)"
    "eng_scan plain_ext now_us (prefix_range p) (mem_engine []) = Some (mem_engine [], Inr [])"
    using calm_get [OF c, of plain_ext now_us k] calm_scan [OF c, of p now_us plain_ext] by auto
qed

definition unique_def :: StoreDef where
  "unique_def = with_index [120] [[105]] True (StoreDef_new [115] [105])"

definition two_docs :: Transaction where
  "two_docs = \<lparr>tx_mode = ReadWrite, tx_writes = [([115], [97]) \<mapsto> Some [97], ([115], [98]) \<mapsto> Some [98]], tx_counter_updates = [],
     tx_next_ids = Map.empty, tx_committed = False\<rparr>"

lemma two_docs_commit:
  "\<exists>db' tx'. tx_commit plain_ext one_field 0 [([115], [97]), ([115], [98])] (mem_db unique_def [], two_docs) = Some ((db', tx'), Inr ())"
proof -
  let ?e = "mem_engine []" and ?db = "mem_db unique_def []" and ?ws = "[(([115], [97]), Some [97]), (([115], [98]), Some [98])]"
  have sch: "jd_schema ?db = [[115] \<mapsto> unique_def]" "jd_engine ?db = ?e" by (simp_all add: mem_db_def unique_def_def with_index_def StoreDef_new_def)
  have ws: "write_list [([115], [97]), ([115], [98])] two_docs = ?ws" by (simp add: write_list_def two_docs_def List.map_filter_def)
  have dec: "decode_doc (from_slice one_field) [c] = Inr (idoc [c])" if "c \<noteq> 255" for c using that by (simp add: decode_doc_def one_field_def)
  have ix: "indexes unique_def = [\<lparr>key_paths = [[105]], ix_name = [120], unique = True, multi_entry = False\<rparr>]"
    by (simp add: unique_def_def with_index_def StoreDef_new_def)
  have xv: "extract_index_values (idoc [c]) \<lparr>key_paths = [[105]], ix_name = [120], unique = True, multi_entry = False\<rparr> = [[JStr [c]]]" for c
    by (simp add: extract_index_values_def extract_field_top)
  have w: "\<exists>recs. commit_write plain_ext one_field 0 ?ws (([115], [c]), Some [c]) ?db = Some (?db, Inr recs)
      \<and> sum_list (map estimated_size recs) \<le> 100" if "c = 97 \<or> c = 98" for c
    using that
    by (auto simp: commit_write_def with_store_def sch on_engine_def bind_call_def old_doc_lenient_def ret_def lift_res_def dec ix xv
        tx_index_entries_def Let_def index_puts_def encode_composite_value_def estimated_size_def from_record_def Record_new_def
        index_entry_key_def key_defs tag_defs)
  from w [of 97] w [of 98] obtain r1 r2 where r:
    "commit_write plain_ext one_field 0 ?ws (([115], [97]), Some [97]) ?db = Some (?db, Inr r1)" "sum_list (map estimated_size r1) \<le> 100"
    "commit_write plain_ext one_field 0 ?ws (([115], [98]), Some [98]) ?db = Some (?db, Inr r2)" "sum_list (map estimated_size r2) \<le> 100"
    by auto
  have "\<exists>e'. eng_write plain_ext 0 (r1 @ r2) ?e = Some (e', Inr ())"
  proof (cases "r1 @ r2 = []")
    case True
    then show ?thesis by (simp add: eng_write_def write_internal_def)
  next
    case False
    have c: "calm 200 ?e" by (rule mem_engine_calm) simp
    have "sum_list (map estimated_size (r1 @ r2)) \<le> 200" using r(2,4) by simp
    from calm_write [OF c this False] show ?thesis by metis
  qed
  then obtain e' where "eng_write plain_ext 0 (r1 @ r2) ?e = Some (e', Inr ())" by blast
  moreover have "\<not> tx_committed two_docs" "tx_counter_updates two_docs = []" by (simp_all add: two_docs_def)
  ultimately show ?thesis
    by (simp add: tx_commit_def ws r(1,3) Let_def on_db_def bind_call_def tx_engine_def on_engine_def sch ret_def)
qed

theorem transaction_atomic_witness:
  "\<exists>e recs e'. engine_view e = engine_view (mem_engine []) \<and> write_internal plain_ext 0 recs e = Some e'
    \<and> from_record (Record_new (doc_key [115] [97]) 0 [97]) 0 \<in> set recs \<and> from_record (Record_new (doc_key [115] [98]) 0 [98]) 0 \<in> set recs"
proof -
  let ?db = "mem_db unique_def []" and ?o = "[([115], [97]), ([115], [98])]"
  obtain db' tx' where c: "tx_commit plain_ext one_field 0 ?o (?db, two_docs) = Some ((db', tx'), Inr ())" using two_docs_commit by blast
  have n: "\<not> tx_committed two_docs" by (simp add: two_docs_def)
  have ws: "write_list ?o two_docs = [(([115], [97]), Some [97]), (([115], [98]), Some [98])]"
    by (simp add: write_list_def two_docs_def List.map_filter_def)
  from transaction_atomic [OF rtranclp.rtrancl_refl n c] obtain e recs where e: "engine_view e = engine_view (jd_engine ?db)"
      "write_internal plain_ext 0 recs e = Some (jd_engine db')"
    and m: "((st, kb), v) \<in> set (write_list ?o two_docs) \<Longrightarrow>
        (case v of Some b \<Rightarrow> from_record (Record_new (doc_key st kb) 0 b) 0 | None \<Rightarrow> delete_rec (doc_key st kb) 0 0) \<in> set recs" for st kb v
    by auto
  from m [of "[115]" "[97]" "Some [97]"] m [of "[115]" "[98]" "Some [98]"] e show ?thesis by (simp add: ws mem_db_def) blast
qed

text \<open>Unique indexes within a transaction.\<close>

lemma buffer_conflict_none:
  assumes "buffer_conflict jx store kb idx encoded ws = Inr ()" "((store, k'), Some b) \<in> set ws" "k' \<noteq> kb"
    and "decode_doc (from_slice jx) b = Inr d" "vals \<in> set (extract_index_values d idx)"
  shows "encode_composite_value (to_vec jx) vals \<noteq> encoded"
  using assms(1,2)
proof (induction ws)
  case (Cons w ws)
  obtain s k v where w: "w = ((s, k), v)" by (metis surj_pair)
  show ?case
  proof (cases "w = ((store, k'), Some b)")
    case True
    then show ?thesis using Cons.prems(1) assms(3-5) by (auto split: if_splits)
  next
    case False
    then have "((store, k'), Some b) \<in> set ws" using Cons.prems(2) by simp
    then show ?thesis using Cons w by (auto split: if_splits option.splits sum.splits)
  qed
qed simp

text \<open>C19. A commit that succeeds has no two documents with the same value of a unique index: for two buffered documents of a store
  under different keys, no value of a unique index of the one has the same encoding as one of the other.\<close>

theorem commit_unique:
  assumes "tx_commit ext jx now_us order (db, tx) = Some ((db', tx'), Inr ())" "\<not> tx_committed tx"
    and "jd_schema db store = Some def" "idx \<in> set (indexes def)" "unique idx"
    and "((store, k1), Some b1) \<in> set (write_list order tx)" "((store, k2), Some b2) \<in> set (write_list order tx)" "k1 \<noteq> k2"
    and "decode_doc (from_slice jx) b1 = Inr d1" "decode_doc (from_slice jx) b2 = Inr d2"
    and "v1 \<in> set (extract_index_values d1 idx)" "v2 \<in> set (extract_index_values d2 idx)"
  shows "encode_composite_value (to_vec jx) v1 \<noteq> encode_composite_value (to_vec jx) v2"
proof -
  let ?ws = "write_list order tx"
  from assms(1,2) obtain e rss where l: "list_all2 (\<lambda>w recs. \<exists>db1 db2. jd_schema db1 = jd_schema db
      \<and> commit_write ext jx now_us ?ws w db1 = Some (db2, Inr recs)) ?ws rss" by (rule tx_commit_inv)
  from list_all2_in [OF l assms(6)] obtain recs db1 db2 where r: "jd_schema db1 = jd_schema db"
    "commit_write ext jx now_us ?ws ((store, k1), Some b1) db1 = Some (db2, Inr recs)" by blast
  from r(2) have "buffer_conflict jx store k1 idx (encode_composite_value (to_vec jx) v1) ?ws = Inr ()"
    by (rule commit_write_shape) (use assms r(1) in auto)
  from buffer_conflict_none [OF this assms(7)] assms(8,10,12) show ?thesis by metis
qed

theorem commit_unique_witness:
  "encode_composite_value (to_vec one_field) [JStr [97]] \<noteq> encode_composite_value (to_vec one_field) [JStr [98]]"
proof -
  let ?o = "[([115], [97]), ([115], [98])]" and ?idx = "\<lparr>key_paths = [[105]], ix_name = [120], unique = True, multi_entry = False\<rparr>"
  obtain db' tx' where c: "tx_commit plain_ext one_field 0 ?o (mem_db unique_def [], two_docs) = Some ((db', tx'), Inr ())"
    using two_docs_commit by blast
  have ws: "write_list ?o two_docs = [(([115], [97]), Some [97]), (([115], [98]), Some [98])]"
    by (simp add: write_list_def two_docs_def List.map_filter_def)
  have d: "decode_doc (from_slice one_field) [c] = Inr (idoc [c])" if "c \<noteq> 255" for c using that by (simp add: decode_doc_def one_field_def)
  have x: "[JStr [c]] \<in> set (extract_index_values (idoc [c]) ?idx)" for c by (simp add: extract_index_values_def extract_field_top)
  show ?thesis
    by (rule commit_unique [OF c, where store = "[115]" and idx = ?idx and ?k1.0 = "[97]" and ?k2.0 = "[98]" and ?b1.0 = "[97]"
        and ?b2.0 = "[98]" and ?d1.0 = "idoc [97]" and ?d2.0 = "idoc [98]"])
      (use d [of 97] d [of 98] x in \<open>auto simp: ws two_docs_def [THEN arg_cong [where f = tx_committed]] mem_db_def unique_def_def with_index_def StoreDef_new_def\<close>)
qed

end
