(* ===== verification/Json_Results.thy ===== *)
theory Json_Results
  imports Json_Atomic
begin

text \<open>
  Results of the document layer: what a query returns, how a limit cuts a full scan, that a call that fails changes nothing,
  how generated keys repeat after a transaction, and what is left of a store that was deleted.
\<close>

section \<open>What a query returns\<close>

lemma fold_filter: "fold (\<lambda>f docs. filter (\<lambda>d. P d f) docs) fs docs = filter (\<lambda>d. \<forall>f\<in>set fs. P d f) docs"
  by (induction fs arbitrary: docs) (auto simp: conj_commute intro: filter_cong)

definition query_matches :: "json_ext \<Rightarrow> QueryBuilder \<Rightarrow> json \<Rightarrow> bool" where
  "query_matches jx q d \<longleftrightarrow> (\<forall>f\<in>set (q_filters q). filter_matches jx d f)"

lemma finish_query_eq:
  "finish_query jx q sorting docs =
     (case q_limit q of Some l \<Rightarrow> take l | None \<Rightarrow> (\<lambda>ds. ds))
       (drop (q_offset q) ((if sorting then sort_docs jx q else (\<lambda>ds. ds)) (filter (query_matches jx q) docs)))"
  by (simp add: finish_query_def fold_filter Let_def query_matches_def [abs_def] split: option.split)

lemma sort_docs_set [simp]: "set (sort_docs jx q docs) = set docs"
  by (simp add: sort_docs_def split: option.split SortDir.split)

lemma set_finish: "set (finish_query jx q sorting docs) \<subseteq> {d \<in> set docs. query_matches jx q d}"
  unfolding finish_query_eq by (auto split: option.splits if_splits dest!: in_set_takeD in_set_dropD)

text \<open>The order a query asks for.\<close>

definition ordered_by :: "json_ext \<Rightarrow> bytes \<Rightarrow> SortDir \<Rightarrow> json list \<Rightarrow> bool" where
  "ordered_by jx f sd docs \<longleftrightarrow> sorted ((case sd of Asc \<Rightarrow> \<lambda>ks. ks | Desc \<Rightarrow> rev) (map (order_key jx f) docs))"

lemma ordered_by_take_drop: "ordered_by jx f sd docs \<Longrightarrow> ordered_by jx f sd (take n docs) \<and> ordered_by jx f sd (drop n docs)"
  by (cases sd) (simp_all add: ordered_by_def take_map [symmetric] drop_map [symmetric] rev_take rev_drop
      sorted_wrt_take sorted_wrt_drop)

lemma sort_docs_ordered: "order_field q = Some f \<Longrightarrow> ordered_by jx f (order_dir q) (sort_docs jx q docs)"
  by (simp add: sort_docs_def ordered_by_def rev_map split: SortDir.split)

lemma finish_query_ordered: "order_field q = Some f \<Longrightarrow> ordered_by jx f (order_dir q) (finish_query jx q True docs)"
  unfolding finish_query_eq using sort_docs_ordered ordered_by_take_drop by (auto split: option.split)

text \<open>C20. What a query returns: every document satisfies every filter, at most \<open>limit\<close> documents come back, and when the chosen index
  does not give the order they are sorted as \<open>order_by\<close> asks.  All of them were found by the scan of the plan, and the
  schema is not touched.\<close>

theorem query_sound:
  assumes "collect_query ext jx now_us q db = Some (db', Inr docs)"
  shows "\<exists>def e' found. jd_schema db (q_store q) = Some def
    \<and> scan_docs ext jx now_us q (needs_sort q (snd (plan_scan jx q def))) (fst (plan_scan jx q def)) (jd_engine db) = Some (e', Inr found)
    \<and> db' = db\<lparr>jd_engine := e'\<rparr>
    \<and> set docs \<subseteq> {d \<in> set found. \<forall>f\<in>set (q_filters q). filter_matches jx d f}
    \<and> (case q_limit q of Some l \<Rightarrow> length docs \<le> l | None \<Rightarrow> True)
    \<and> (case order_field q of
         Some f \<Rightarrow> needs_sort q (snd (plan_scan jx q def)) \<longrightarrow> ordered_by jx f (order_dir q) docs
       | None \<Rightarrow> True)"
proof -
  obtain def where def: "jd_schema db (q_store q) = Some def" using assms
    by (auto simp: collect_query_def with_store_def split: option.splits)
  let ?s = "needs_sort q (snd (plan_scan jx q def))" and ?p = "fst (plan_scan jx q def)"
  have "bind_call (on_engine (scan_docs ext jx now_us q ?s ?p)) (\<lambda>ds. ret (finish_query jx q ?s ds)) db = Some (db', Inr docs)"
    using assms def by (simp add: collect_query_def with_store_def split_beta Let_def)
  then obtain e' found where f: "scan_docs ext jx now_us q ?s ?p (jd_engine db) = Some (e', Inr found)"
      "db' = db\<lparr>jd_engine := e'\<rparr>" "docs = finish_query jx q ?s found"
    by (auto simp: on_engine_def ret_def elim!: bind_call_SomeD)
  have "length docs \<le> l" if "q_limit q = Some l" for l using that f(3) by (simp add: finish_query_eq)
  with def f set_finish [of jx q ?s found] finish_query_ordered [of q _ jx found] show ?thesis
    by (intro exI [of _ def] exI [of _ e'] exI [of _ found]) (auto simp: query_matches_def split: option.split)
qed

section \<open>A limit on a full scan\<close>

lemma best_index_none: "\<forall>idx\<in>set is. score_index q idx = 0 \<Longrightarrow> best_index q is = None"
proof -
  assume z: "\<forall>idx\<in>set is. score_index q idx = 0"
  have "fold (\<lambda>idx best. if (case best of Some (s, _) \<Rightarrow> s | None \<Rightarrow> 0) < score_index q idx then Some (score_index q idx, idx) else best)
       is None = None"
    using z by (induction "is") simp_all
  then show ?thesis by (simp add: best_index_def)
qed

lemma full_loop_take:
  assumes "list_all2 (\<lambda>r d. decode_doc (from_slice jx) (pval r) = Inr d) rs ds"
  shows "full_loop jx (Some t) rs acc = Inr (acc @ take (max 1 (t - length acc)) ds)"
    and "full_loop jx None rs acc = Inr (acc @ ds)"
  using assms
proof (induction rs ds arbitrary: acc rule: list_all2_induct)
  case (Cons r rs d ds)
  { case 1
    have "max (Suc 0) (t - length acc) = Suc (t - length acc - 1)" by simp
    moreover have "max (Suc 0) (t - Suc (length acc)) = t - Suc (length acc)" if "\<not> t \<le> Suc (length acc)" using that by simp
    ultimately show ?case using Cons.hyps Cons.IH(1) [of "acc @ [d]"] by (simp add: Let_def) }
  { case 2
    show ?case using Cons.hyps Cons.IH(2) [of "acc @ [d]"] by (simp add: Let_def) }
qed simp_all

text \<open>A limit cuts a full scan before the filters and the sort: when no index fits the filters, a query with a limit looks at
  the first \<open>limit + offset\<close> documents of the store only (modulo \<open>2^64\<close>, and one when that is 0), filters and sorts those, and
  never sees the rest.\<close>

theorem query_limit_before_filter:
  assumes "jd_schema db (q_store q) = Some def" "\<forall>idx\<in>set (indexes def). score_index q idx = 0"
    and "eng_scan ext now_us (prefix_range (doc_prefix (q_store q))) (jd_engine db) = Some (e', Inr rs)"
    and "list_all2 (\<lambda>r d. decode_doc (from_slice jx) (pval r) = Inr d) rs ds" "q_limit q = Some l"
  shows "collect_query ext jx now_us q db = Some (db\<lparr>jd_engine := e'\<rparr>, Inr (take l (drop (q_offset q)
      (sort_docs jx q (filter (\<lambda>d. \<forall>f\<in>set (q_filters q). filter_matches jx d f) (take (max 1 ((l + q_offset q) mod 2 ^ 64)) ds))))))"
proof -
  have p: "plan_scan jx q def = (FullScan, None)" using best_index_none [OF assms(2)] by (simp add: plan_scan_def)
  have s: "(if needs_sort q None then sort_docs jx q else (\<lambda>ds. ds)) = sort_docs jx q"
    by (auto simp: needs_sort_def sort_docs_def fun_eq_iff split: option.split)
  show ?thesis
    using assms p full_loop_take(1) [OF assms(4), of "(l + q_offset q) mod 2 ^ 64" "[]"] s
    by (simp add: collect_query_def with_store_def on_engine_def scan_docs_def bind_call_def lift_res_def ret_def limit_target_def
        finish_query_eq query_matches_def [abs_def])
qed

text \<open>For examples: a database in memory with two documents, and a filter that the second one satisfies.\<close>

definition two_doc_db :: "(nat \<times> (CacheKey \<times> InternalRecord list) list) JsonDB" where
  "two_doc_db = mem_db (StoreDef_new [115] [105])
     [from_record (Record_new (doc_key [115] [97]) 0 [97]) 1, from_record (Record_new (doc_key [115] [98]) 0 [98]) 2]"

lemma two_doc_scan:
  "eng_scan plain_ext 0 (prefix_range (doc_prefix [115])) (jd_engine two_doc_db)
     = Some (jd_engine two_doc_db, Inr [Record_new (doc_key [115] [97]) 0 [97], Record_new (doc_key [115] [98]) 0 [98]])"
proof -
  let ?a = "from_record (Record_new (doc_key [115] [97]) 0 [97]) 1" and ?b = "from_record (Record_new (doc_key [115] [98]) 0 [98]) 2"
  let ?ms = "ww_memtables (en_worker (mem_engine [?a, ?b]))"
  have c: "calm 0 (mem_engine [?a, ?b])" by (rule mem_engine_calm) (simp add: estimated_size_def Record_new_def key_defs)
  have q: "mts_query_prefix (doc_prefix [115]) 0 ?ms = [?a, ?b]"
    by (simp add: mem_engine_memtables mts_query_prefix_def mts_insert_def MemTables_new_def MemTable_new_def mt_insert_def
        mt_query_prefix_def i64_max_def Record_new_def key_defs)
  have "sort_key sort_ord [?a, ?b] = [?a, ?b]" by (simp add: sort_ord_def Record_new_def key_defs)
  moreover have "to_record ?a = Record_new (doc_key [115] [97]) 0 [97]" "to_record ?b = Record_new (doc_key [115] [98]) 0 [98]"
    by (simp_all add: to_record_def Record_new_def)
  ultimately show ?thesis
    using calm_scan [OF c, of "doc_prefix [115]" 0 plain_ext] q
    by (simp add: two_doc_db_def mem_db_def version_def tombstoned_by_def Record_new_def key_defs)
qed

lemma two_doc_decode:
  "list_all2 (\<lambda>r d. decode_doc (from_slice one_field) (pval r) = Inr d)
     [Record_new (doc_key [115] [97]) 0 [97], Record_new (doc_key [115] [98]) 0 [98]] [idoc [97], idoc [98]]"
  by (simp add: decode_doc_def one_field_def Record_new_def)

lemma two_doc_schema: "jd_schema two_doc_db [115] = Some (StoreDef_new [115] [105])" "indexes (StoreDef_new [115] [105]) = []"
  by (simp_all add: two_doc_db_def mem_db_def StoreDef_new_def)

lemma idoc_matches: "filter_matches one_field (idoc [c]) (QEq [105] (JStr [x])) \<longleftrightarrow> c = x"
  by (simp add: extract_field_top value_eq_def)

theorem query_limit_before_filter_witness:
  "(\<exists>db'. collect_query plain_ext one_field 0 (limit 1 (where_eq [105] (JStr [98]) (QueryBuilder_new [115]))) two_doc_db = Some (db', Inr []))
   \<and> filter_matches one_field (idoc [98]) (QEq [105] (JStr [98]))"
proof -
  define q where "q = limit 1 (where_eq [105] (JStr [98]) (QueryBuilder_new [115]))"
  have f: "q_store q = [115]" "q_limit q = Some 1" "q_offset q = 0" "q_filters q = [QEq [105] (JStr [98])]" "order_field q = None"
    by (simp_all add: q_def limit_def where_eq_def QueryBuilder_new_def)
  have "collect_query plain_ext one_field 0 q two_doc_db = Some (two_doc_db\<lparr>jd_engine := jd_engine two_doc_db\<rparr>, Inr (take 1 (drop (q_offset q)
      (sort_docs one_field q (filter (\<lambda>d. \<forall>f\<in>set (q_filters q). filter_matches one_field d f) (take (max 1 ((1 + q_offset q) mod 2 ^ 64)) [idoc [97], idoc [98]]))))))"
    by (rule query_limit_before_filter) (use two_doc_scan two_doc_decode two_doc_schema f in auto)
  then have "collect_query plain_ext one_field 0 q two_doc_db = Some (two_doc_db, Inr [])"
    by (simp add: f idoc_matches sort_docs_def del: filter_matches.simps)
  then show ?thesis using idoc_matches unfolding q_def by blast
qed

theorem query_sound_witness:
  "\<exists>db' docs. collect_query plain_ext one_field 0 (where_eq [105] (JStr [98]) (QueryBuilder_new [115])) two_doc_db = Some (db', Inr docs)
   \<and> docs = [idoc [98]] \<and> (\<forall>d\<in>set docs. filter_matches one_field d (QEq [105] (JStr [98])))"
proof -
  define q where "q = where_eq [105] (JStr [98]) (QueryBuilder_new [115])"
  have f: "q_store q = [115]" "q_limit q = None" "q_offset q = 0" "q_filters q = [QEq [105] (JStr [98])]" "order_field q = None"
    by (simp_all add: q_def where_eq_def QueryBuilder_new_def)
  have "collect_query plain_ext one_field 0 q two_doc_db = Some (two_doc_db\<lparr>jd_engine := jd_engine two_doc_db\<rparr>, Inr [idoc [98]])"
    using two_doc_scan full_loop_take(2) [OF two_doc_decode, of "[]"]
    by (simp add: collect_query_def with_store_def f two_doc_schema plan_scan_def best_index_def needs_sort_def on_engine_def scan_docs_def
        bind_call_def lift_res_def ret_def limit_target_def finish_query_eq query_matches_def [abs_def] idoc_matches del: filter_matches.simps)
  from query_sound [OF this] this show ?thesis unfolding q_def [symmetric] by (auto simp: f simp del: filter_matches.simps)
qed

section \<open>Calls that fail\<close>

text \<open>\<open>fails_clean V m\<close>: when the call fails, \<open>V\<close> of the state is as before.\<close>

definition fails_clean :: "('s \<Rightarrow> 'v) \<Rightarrow> ('s, 'a) call \<Rightarrow> bool" where
  "fails_clean V m \<longleftrightarrow> (\<forall>s s' err. m s = Some (s', Inl err) \<longrightarrow> V s' = V s)"

definition never_fails :: "('s, 'a) call \<Rightarrow> bool" where
  "never_fails m \<longleftrightarrow> (\<forall>s s' err. m s \<noteq> Some (s', Inl err))"

named_theorems clean_intros

lemma clean_bind [clean_intros]:
  assumes "\<And>v. keeps (\<lambda>s. V s = v) m" "\<And>x. fails_clean V (f x)"
  shows "fails_clean V (bind_call m f)"
  unfolding fails_clean_def
proof (intro allI impI)
  fix s s' err
  assume b: "bind_call m f s = Some (s', Inl err)"
  then obtain s1 r where m: "m s = Some (s1, r)" by (cases "m s") (auto simp: bind_call_def)
  then have v: "V s1 = V s" using keepsD [OF assms(1) m] by blast
  show "V s' = V s"
  proof (cases r)
    case (Inl e)
    then show ?thesis using b m v by (simp add: bind_call_def)
  next
    case (Inr x)
    then have "f x s1 = Some (s', Inl err)" using b m by (simp add: bind_call_def)
    then show ?thesis using assms(2) [of x] v unfolding fails_clean_def by metis
  qed
qed

lemma clean_never [clean_intros]: "never_fails m \<Longrightarrow> fails_clean V m"
  by (simp add: fails_clean_def never_fails_def)

lemma clean_keeps: "(\<And>v. keeps (\<lambda>s. V s = v) m) \<Longrightarrow> fails_clean V m"
  unfolding fails_clean_def using keepsD by fastforce

lemma never_bind [clean_intros]:
  assumes "never_fails m" "\<And>x. never_fails (f x)"
  shows "never_fails (bind_call m f)"
  unfolding never_fails_def
proof (intro allI notI)
  fix s s' err
  assume b: "bind_call m f s = Some (s', Inl err)"
  then obtain s1 r where m: "m s = Some (s1, r)" by (cases "m s") (auto simp: bind_call_def)
  with assms(1) obtain x where "r = Inr x" by (cases r) (auto simp: never_fails_def)
  then show False using b m assms(2) by (simp add: bind_call_def never_fails_def)
qed

lemma never_simps [clean_intros]:
  "never_fails (ret x)" "never_fails (on_engine (eng_write ext now_us recs))" "never_fails (set_schema g)"
  by (auto simp: never_fails_def ret_def on_engine_def eng_write_def set_schema_def)

lemma clean_structure [clean_intros]:
  "(P \<Longrightarrow> fails_clean V m) \<Longrightarrow> (\<not> P \<Longrightarrow> fails_clean V m') \<Longrightarrow> fails_clean V (if P then m else m')"
  "fails_clean V m \<Longrightarrow> (\<And>y. fails_clean V (f y)) \<Longrightarrow> fails_clean V (case x of None \<Rightarrow> m | Some y \<Rightarrow> f y)"
  "(\<And>a b. fails_clean V (g a b)) \<Longrightarrow> fails_clean V (case p of (a, b) \<Rightarrow> g a b)"
  "fails_clean V (lift_res r)"
  by (auto simp: fails_clean_def lift_res_def split: option.split prod.split)

lemma clean_with_store [clean_intros]: "(\<And>def. fails_clean V (f def)) \<Longrightarrow> fails_clean V (with_store store f)"
  by (auto simp: fails_clean_def with_store_def split: option.splits)

lemma keeps_view_eq [keeps_intros]: "(\<And>Q. keeps (\<lambda>e. Q (engine_view e)) m) \<Longrightarrow> keeps (\<lambda>db. db_view db = v) (on_engine m)"
  by (rule keeps_on_engine_db [where P = "\<lambda>x. x = v"])

lemma document_calls_clean:
  "fails_clean db_view (json_put ext jx now_us store doc)" "fails_clean db_view (json_delete ext jx now_us store k)"
  "fails_clean db_view (put_auto ext jx now_us store doc)"
  unfolding json_put_def json_delete_def put_auto_def Let_def
  by (intro clean_intros keeps_intros clean_keeps)+

lemma schema_calls_clean:
  "fails_clean db_view (delete_object_store ext now_us name)" "fails_clean db_view (create_index ext jx now_us store name paths u)"
  "fails_clean db_view (delete_index ext jx now_us store name)" "fails_clean db_view (create_object_store ext jx now_us name kp)"
proof -
  have bf: "keeps (\<lambda>db. db_view db = v) (for_each (backfill jx def store index) rs)" for def index rs v
    unfolding backfill_def by (intro keeps_intros)
  show "fails_clean db_view (delete_object_store ext now_us name)" "fails_clean db_view (create_index ext jx now_us store name paths u)"
    "fails_clean db_view (delete_index ext jx now_us store name)"
    unfolding delete_object_store_def create_index_def delete_index_def Let_def
    by (intro clean_intros keeps_intros bf)+
  have c: "fails_clean db_view (bind_call (lift_res (schema_record jx entry)) (\<lambda>r.
      bind_call (on_engine (eng_write ext now_us [from_record r 0])) (\<lambda>_. set_schema (schema_insert entry))))" for entry
    by (intro clean_intros keeps_intros)
  have "fails_clean db_view (\<lambda>db. case jd_schema db name of
      Some d \<Rightarrow> if key_path d \<noteq> kp then Some (db, Inl err) else Some (db, Inr ()) | None \<Rightarrow> m db)" if "fails_clean db_view m" for m err
    using that by (auto simp: fails_clean_def split: option.splits if_splits)
  from this [OF c] show "fails_clean db_view (create_object_store ext jx now_us name kp)"
    unfolding create_object_store_def Let_def by (intro clean_bind keeps_lift_res)
qed

lemma fails_cleanD: "fails_clean V m \<Longrightarrow> m s = Some (s', Inl err) \<Longrightarrow> V s' = V s"
  unfolding fails_clean_def by metis

lemmas clean_calls = document_calls_clean schema_calls_clean

text \<open>C21. A call that fails changes nothing: when creating or deleting a store or an index, putting or deleting a document, or putting
  one with a generated key returns an error (a missing store or key, an invalid name, a corrupted document, a unique index
  violated), the log, the memtables, the tables, the sequence counter and the schema are as before.\<close>

theorem failed_calls_change_nothing:
  assumes "json_put ext jx now_us store doc db = Some (db', Inl err) \<or> put_auto ext jx now_us store doc db = Some (db', Inl err)
    \<or> json_delete ext jx now_us store k db = Some (db', Inl err) \<or> create_object_store ext jx now_us store kp db = Some (db', Inl err)
    \<or> delete_object_store ext now_us store db = Some (db', Inl err) \<or> create_index ext jx now_us store name paths u db = Some (db', Inl err)
    \<or> delete_index ext jx now_us store name db = Some (db', Inl err)"
  shows "en_worker (jd_engine db') = en_worker (jd_engine db) \<and> en_seq_counter (jd_engine db') = en_seq_counter (jd_engine db)
    \<and> jd_schema db' = jd_schema db"
proof -
  have "db_view db' = db_view db"
    using assms by (elim disjE) (erule clean_calls [THEN fails_cleanD])+
  then show ?thesis by (simp add: db_view_def engine_view_def)
qed

theorem failed_calls_change_nothing_witness:
  "\<exists>db' err. create_index plain_ext one_field 0 [115] [120] [[105]] False (mem_db unique_def []) = Some (db', Inl err)
    \<and> jd_schema db' = jd_schema (mem_db unique_def [])"
proof -
  obtain err where "create_index plain_ext one_field 0 [115] [120] [[105]] False (mem_db unique_def []) = Some (mem_db unique_def [], Inl err)"
    by (simp add: create_index_def with_store_def mem_db_def unique_def_def with_index_def StoreDef_new_def bind_call_def lift_res_def
        validate_index_def_def validate_name_def name_byte_def)
  then show ?thesis
    using failed_calls_change_nothing [of plain_ext one_field 0 "[115]" JNull "mem_db unique_def []" "mem_db unique_def []" err JNull "[]" "[120]"
        "[[105]]" False] by blast
qed

section \<open>A store that was deleted\<close>

lemma eng_write_all:
  assumes "eng_write ext now_us recs e = Some (e', r)" "no_flush e e'"
  shows "set (mts_all (ww_memtables (en_worker e))) \<subseteq> set (mts_all (ww_memtables (en_worker e')))"
    and "x \<in> set recs \<Longrightarrow> \<exists>s. x\<lparr>seq := s\<rparr> \<in> set (mts_all (ww_memtables (en_worker e')))"
proof -
  have w: "write_internal ext now_us recs e = Some e'" using assms(1) by (auto simp: eng_write_def)
  show "set (mts_all (ww_memtables (en_worker e))) \<subseteq> set (mts_all (ww_memtables (en_worker e')))"
  proof (cases "recs = []")
    case True
    then show ?thesis using w by (simp add: write_internal_def)
  next
    case False
    show ?thesis unfolding write_internal_memory [OF w assms(2) False] by (auto simp: mts_all_def)
  qed
  assume x: "x \<in> set recs"
  then have n: "recs \<noteq> []" by auto
  obtain i where "i < length recs" "recs ! i = x" using x by (auto simp: in_set_conv_nth)
  then have "(i, x) \<in> set (enumerate 0 recs)" by (auto simp: in_set_enumerate_eq)
  then show "\<exists>s. x\<lparr>seq := s\<rparr> \<in> set (mts_all (ww_memtables (en_worker e')))"
    unfolding write_internal_memory [OF w assms(2) n] by (force simp: mts_all_def)
qed

lemma prefix_scan_hidden:
  assumes "eng_scan ext now_us (prefix_range p) e = Some (e', Inr rs)"
    and "\<forall>e'' it. scan_default ext now_us (prefix_range p) e = Some (e'', it) \<longrightarrow> length (sc_sources it) \<le> usize_max"
    and "delete_range_rec p (increment_prefix_bytes p) s \<in> set (mts_all (ww_memtables (en_worker e)))" "now_us \<le> i64_max" "\<exists>b\<in>set p. b \<noteq> 255"
  shows "rs = []"
proof -
  let ?q = "\<lparr>key_filter = Prefix p, time_range = None\<rparr>" and ?ms = "ww_memtables (en_worker e)" and ?d = "delete_range_rec p (increment_prefix_bytes p) s"
  from assms(1) obtain it where it: "scan_default ext now_us (prefix_range p) e = Some (e', it)" "rs = scan_collect it"
    by (auto simp: eng_scan_def)
  then obtain c where b: "scan_build (ev_lru ext) (ev_decompress ext) ?q ?ms (ww_index (en_worker e)) (en_cache e) (en_readers e)
      (ww_ssts (en_worker e)) now_us = Some (c, it)"
    by (auto simp: scan_default_def scan_opt_def to_query_prefix engine_scan_def)
  have l: "length (sc_sources it) \<le> usize_max" using assms(2) it(1) by blast
  have d: "?d \<in> set (scan_mem ?q ?ms now_us)"
    using assms(3,4) by (auto simp: scan_mem_def mts_query_prefix_def mt_query_prefix_def mts_all_def)
  have False if x: "x \<in> set rs" for x
  proof -
    obtain xs where xs: "scan_collect it = emit (sc_tombstones it) None xs" "mset xs = mset (concat (sc_sources it))"
      by (rule scan_collect_emit [OF b l])
    have "x \<in> set (emit t l ys) \<Longrightarrow> \<exists>r\<in>set ys. x = to_record r" for t l ys by (induction ys arbitrary: l) (auto split: if_splits)
    then obtain r where "r \<in> set (concat (sc_sources it))" "x = to_record r" using x it(2) xs(1) mset_eq_setD [OF xs(2)] by metis
    then have "prefix p (pkey x)" using scan_sources_match [OF b] by (auto simp: matches_query_def key_matches_def to_record_def)
    moreover have "\<not> (p \<le> pkey x \<and> pkey x < increment_prefix_bytes p)"
      using scan_hides_range [OF b l d] x it(2) by simp
    ultimately show False using prefix_range_iff [OF assms(5)] by blast
  qed
  then show ?thesis by (metis list.set_intros(1) neq_Nil_conv)
qed

lemma run_memtables:
  assumes "doc_run (\<lambda>t. json_put ext jx t store) (\<lambda>t. json_delete ext jx t store) db_quiet db h db'"
  shows "set (mts_all (memtables db)) \<subseteq> set (mts_all (memtables db'))"
  using assms
proof (induction rule: doc_run.induct)
  case (run_put h db1 now_us d db2 k)
  from run_put.hyps(2) obtain e1 e2 recs where "engine_view e1 = engine_view (jd_engine db1)" "eng_write ext now_us recs e1 = Some (e2, Inr ())"
    "db2 = db1\<lparr>jd_engine := e2\<rparr>" by (rule json_put_inv)
  with run_put.hyps(3) run_put.IH eng_write_all(1) [of ext now_us recs e1 e2] no_flush_view [of e1 "jd_engine db1" e2] show ?case
    by (auto simp: db_quiet_def engine_view_def)
next
  case (run_delete h db1 now_us k db2)
  from run_delete.hyps(2) obtain e1 e2 recs where "engine_view e1 = engine_view (jd_engine db1)" "eng_write ext now_us recs e1 = Some (e2, Inr ())"
    "db2 = db1\<lparr>jd_engine := e2\<rparr>" by (rule json_delete_inv)
  with run_delete.hyps(3) run_delete.IH eng_write_all(1) [of ext now_us recs e1 e2] no_flush_view [of e1 "jd_engine db1" e2] show ?case
    by (auto simp: db_quiet_def engine_view_def)
qed simp

lemma delete_store_memory:
  assumes "delete_object_store ext now_us store db = Some (db1, Inr ())" "db_quiet db db1" "active_ok (memtables db)" "t \<le> i64_max" "kb \<noteq> []"
  shows "jd_schema db1 store = None" "active_ok (memtables db1)"
    and "mem_look t (memtables db1) (doc_key store kb) = mem_look t (memtables db) (doc_key store kb)"
    and "\<exists>s. delete_range_rec (doc_prefix store) (increment_prefix_bytes (doc_prefix store)) s \<in> set (mts_all (memtables db1))"
proof -
  obtain def where def: "jd_schema db store = Some def"
    using assms(1) by (auto simp: delete_object_store_def with_store_def split: option.splits)
  let ?recs = "map (\<lambda>idx. let p = idx_prefix store (ix_name idx) in delete_range_rec p (increment_prefix_bytes p) 0) (indexes def)
      @ [delete_range_rec (doc_prefix store) (increment_prefix_bytes (doc_prefix store)) 0, schema_delete_record store, delete_rec (counter_key store) 0 0]"
  from assms(1) obtain e' where w: "eng_write ext now_us ?recs (jd_engine db) = Some (e', Inr ())" "jd_engine db1 = e'" "jd_schema db1 = (jd_schema db)(store := None)"
    by (auto simp: delete_object_store_def with_store_def def Let_def on_engine_def set_schema_def schema_remove_def elim!: bind_call_SomeD)
  have q: "no_flush (jd_engine db) e'" using assms(2) w(2) by (simp add: db_quiet_def)
  have "\<forall>r\<in>set ?recs. expire_at r = i64_max" by (auto simp: Let_def schema_delete_record_def)
  note m = eng_write_memory [OF w(1) q _ assms(3) this assms(4)]
  have "batch_look ?recs (doc_key store kb) = None"
    unfolding batch_look_none using assms(5) by (auto simp: version_def Let_def schema_delete_record_def key_defs)
  with m w(2) show "active_ok (memtables db1)" "mem_look t (memtables db1) (doc_key store kb) = mem_look t (memtables db) (doc_key store kb)"
    by simp_all
  show "jd_schema db1 store = None" using w(3) by simp
  have "delete_range_rec (doc_prefix store) (increment_prefix_bytes (doc_prefix store)) 0 \<in> set ?recs" by simp
  from eng_write_all(2) [OF w(1) q this] w(2)
  show "\<exists>s. delete_range_rec (doc_prefix store) (increment_prefix_bytes (doc_prefix store)) s \<in> set (mts_all (memtables db1))"
    by (simp add: delete_range_rec_def)
qed

lemma create_store_memory:
  assumes "create_object_store ext jx now_us store kp db = Some (db1, Inr ())" "jd_schema db store = None" "db_quiet db db1"
    and "active_ok (memtables db)" "t \<le> i64_max"
  shows "jd_schema db1 store \<noteq> None" "active_ok (memtables db1)"
    and "mem_look t (memtables db1) (doc_key store kb) = mem_look t (memtables db) (doc_key store kb)"
    and "set (mts_all (memtables db)) \<subseteq> set (mts_all (memtables db1))"
proof -
  from assms(1,2) obtain b e' where w: "eng_write ext now_us [from_record (Record_new (schema_key store) 0 b) 0] (jd_engine db) = Some (e', Inr ())"
    "jd_engine db1 = e'" "jd_schema db1 store \<noteq> None"
    by (auto simp: create_object_store_def lift_res_def on_engine_def set_schema_def schema_insert_def Let_def schema_record_def StoreDef_new_def
        elim!: bind_call_SomeD split: sum.splits)
  have q: "no_flush (jd_engine db) e'" using assms(3) w(2) by (simp add: db_quiet_def)
  have "\<forall>r\<in>set [from_record (Record_new (schema_key store) 0 b) 0]. expire_at r = i64_max" by (simp add: Record_new_def)
  note m = eng_write_memory [OF w(1) q _ assms(4) this assms(5)]
  have "batch_look [from_record (Record_new (schema_key store) 0 b) 0] (doc_key store kb) = None"
    unfolding batch_look_none by (simp add: version_def Record_new_def key_defs)
  with m w(2) show "active_ok (memtables db1)" "mem_look t (memtables db1) (doc_key store kb) = mem_look t (memtables db) (doc_key store kb)"
    by simp_all
  show "jd_schema db1 store \<noteq> None" by (rule w(3))
  show "set (mts_all (memtables db)) \<subseteq> set (mts_all (memtables db1))" using eng_write_all(1) [OF w(1) q] w(2) by simp
qed

text \<open>C39. A deleted store lingers: after a store is deleted and created again (without a flush), a get still returns each document of the old
  store that was in memory, while a count sees no document at all, not even those put after the store was created again.
  The range delete hides later writes from scans and does not hide earlier ones from gets.\<close>

theorem deleted_store_lingers:
  assumes "delete_object_store ext t1 store db = Some (db1, Inr ())" "create_object_store ext jx t2 store kp db1 = Some (db2, Inr ())"
    and "db_quiet db db1" "db_quiet db1 db2" "mts_reach (memtables db)" "now_us \<le> i64_max"
    and "pk jx k = Inr kb" "kb \<noteq> []" "mem_docs jx now_us store db kb = Some (Some d)"
    and "doc_run (\<lambda>t. json_put ext jx t store) (\<lambda>t. json_delete ext jx t store) db_quiet db2 h db3"
    and "\<forall>d. Some d \<in> snd ` set h \<longrightarrow> reads_back jx d" "last_write (pk jx) h kb = None"
    and "json_count ext now_us store db3 = Some (db4, Inr n)"
    and "\<forall>e it. scan_default ext now_us (prefix_range (doc_prefix store)) (jd_engine db3) = Some (e, it) \<longrightarrow> length (sc_sources it) \<le> usize_max"
  shows "json_get ext jx now_us store k db3 = Some (db3, Inr (Some d)) \<and> n = 0"
proof -
  note d = delete_store_memory [OF assms(1,3) mts_ok_active [OF mts_reach_ok [OF assms(5)]] assms(6,8)]
  note c = create_store_memory [OF assms(2) d(1) assms(4) d(2) assms(6)]
  have ready: "db_ready now_us store db2" using c(1,2) assms(6) by (simp add: db_ready_def)
  note r = docs.run_look [OF assms(10) ready assms(11), of kb]
  have "mem_docs jx now_us store db3 kb = Some (Some d)"
    using r assms(9,12) c(3) [of kb] d(3) by (simp add: mem_docs_def)
  then have get: "json_get ext jx now_us store k db3 = Some (db3, Inr (Some d))"
    by (intro mem_docs_get [OF conjunct1 [OF r] assms(7)])
  from d(4) obtain s where s: "delete_range_rec (doc_prefix store) (increment_prefix_bytes (doc_prefix store)) s \<in> set (mts_all (memtables db3))"
    using c(4) run_memtables [OF assms(10)] by blast
  from assms(13) obtain e rs where "eng_scan ext now_us (prefix_range (doc_prefix store)) (jd_engine db3) = Some (e, Inr rs)" "n = length rs"
    by (auto simp: json_count_def with_store_def on_engine_def ret_def elim!: bind_call_SomeD split: option.splits)
  moreover have "\<exists>b\<in>set (doc_prefix store). b \<noteq> 255" by (simp add: key_defs)
  ultimately show ?thesis using get prefix_scan_hidden [OF _ assms(14) s assms(6)] by simp
qed

lemma calm_sources:
  assumes "calm room e" "scan_default ext now_us (prefix_range p) e = Some (e', it)"
  shows "length (sc_sources it) \<le> 1"
  using assms
  by (auto simp: scan_default_def scan_opt_def to_query_prefix engine_scan_def scan_build_def calm_def ix_query_def metas_of_def
      is_full_scan_def Let_def split: if_splits)

lemma calm_count:
  assumes "calm room (jd_engine db)" "jd_schema db store \<noteq> None"
  shows "\<exists>db' n. json_count ext now_us store db = Some (db', Inr n)"
proof -
  have "ix_query (ww_index (en_worker (jd_engine db))) (Prefix p) None now_us = Some []" for p
    using assms(1) by (simp add: calm_def ix_query_def metas_of_def)
  then have "\<exists>e' rs. eng_scan ext now_us (prefix_range p) (jd_engine db) = Some (e', Inr rs)" for p
    by (simp add: eng_scan_def scan_default_def scan_opt_def to_query_prefix engine_scan_def scan_build_def Let_def split_beta)
  then obtain e' rs where "eng_scan ext now_us (prefix_range (doc_prefix store)) (jd_engine db) = Some (e', Inr rs)" by blast
  then show ?thesis using assms(2) by (auto simp: json_count_def with_store_def on_engine_def bind_call_def ret_def)
qed

theorem deleted_store_lingers_witness:
  "\<exists>db1 db2 db3 db4. delete_object_store plain_ext 0 [115]
        (mem_db (StoreDef_new [115] [105]) [from_record (Record_new (doc_key [115] [97]) 0 [97]) 1]) = Some (db1, Inr ())
    \<and> create_object_store plain_ext one_field 0 [115] [105] db1 = Some (db2, Inr ())
    \<and> json_put plain_ext one_field 0 [115] (idoc [98]) db2 = Some (db3, Inr (JStr [98]))
    \<and> json_get plain_ext one_field 0 [115] (JStr [97]) db3 = Some (db3, Inr (Some (idoc [97])))
    \<and> json_count plain_ext 0 [115] db3 = Some (db4, Inr 0)"
proof -
  let ?def = "StoreDef_new [115] [105]" and ?r = "from_record (Record_new (doc_key [115] [97]) 0 [97]) 1"
  let ?db = "mem_db ?def [?r]" and ?put = "\<lambda>t. json_put plain_ext one_field t [115]" and ?del = "\<lambda>t. json_delete plain_ext one_field t [115]"
  let ?recs = "[delete_range_rec (doc_prefix [115]) (increment_prefix_bytes (doc_prefix [115])) 0, schema_delete_record [115],
      delete_rec (counter_key [115]) 0 0]"
  have sch: "jd_schema ?db = [[115] \<mapsto> ?def]" "jd_engine ?db = mem_engine [?r]" by (simp_all add: mem_db_def StoreDef_new_def)
  have c: "calm 1000 (mem_engine [?r])" by (rule mem_engine_calm) (simp add: estimated_size_def Record_new_def key_defs)
  have inc: "length (increment_prefix_bytes (doc_prefix [115])) = 3" by (simp add: increment_prefix_bytes_def key_defs)
  have sz: "sum_list (map estimated_size ?recs) \<le> 300"
    using inc by (simp add: estimated_size_def key_defs schema_delete_record_def delete_rec_def delete_range_rec_def)
  from sz have "sum_list (map estimated_size ?recs) \<le> 1000" by linarith
  then obtain e1 where e1: "eng_write plain_ext 0 ?recs (mem_engine [?r]) = Some (e1, Inr ())" "no_flush (mem_engine [?r]) e1"
    "calm (1000 - sum_list (map estimated_size ?recs)) e1" by (rule calm_write [OF c]) simp
  have c1: "calm 500 e1" using e1(3) by (rule calm_less) (use sz in linarith)
  let ?db1 = "\<lparr>jd_engine = e1, jd_schema = Map.empty\<rparr>"
  have ix: "indexes ?def = []" by (simp add: StoreDef_new_def)
  have del: "delete_object_store plain_ext 0 [115] ?db = Some (?db1, Inr ())" "db_quiet ?db ?db1"
    using e1(1,2) by (simp_all add: delete_object_store_def with_store_def sch ix on_engine_def bind_call_def set_schema_def schema_remove_def
        db_quiet_def mem_db_def StoreDef_new_def)
  have r: "schema_record one_field ?def = Inr (Record_new (schema_key [115]) 0 [115])"
    by (simp add: schema_record_def one_field_def StoreDef_new_def)
  have s2: "sum_list (map estimated_size [from_record (Record_new (schema_key [115]) 0 [115]) 0]) = 34"
    by (simp add: estimated_size_def Record_new_def key_defs)
  then have "sum_list (map estimated_size [from_record (Record_new (schema_key [115]) 0 [115]) 0]) \<le> 500" by linarith
  then obtain e2 where e2: "eng_write plain_ext 0 [from_record (Record_new (schema_key [115]) 0 [115]) 0] e1 = Some (e2, Inr ())" "no_flush e1 e2"
    "calm (500 - sum_list (map estimated_size [from_record (Record_new (schema_key [115]) 0 [115]) 0])) e2" by (rule calm_write [OF c1]) simp
  have c2: "calm 400 e2" using e2(3) by (rule calm_less) (use s2 in linarith)
  let ?db2 = "\<lparr>jd_engine = e2, jd_schema = [[115] \<mapsto> ?def]\<rparr>"
  have v: "validate_store_def [115] [105] = Inr ()" by (simp add: validate_store_def_def validate_name_def name_byte_def)
  have cr: "create_object_store plain_ext one_field 0 [115] [105] ?db1 = Some (?db2, Inr ())" "db_quiet ?db1 ?db2"
    using r e2(1,2) v by (simp_all add: create_object_store_def bind_call_def lift_res_def on_engine_def set_schema_def schema_insert_def Let_def
        db_quiet_def StoreDef_new_def [THEN arg_cong [where f = sd_name]])
  have kp: "extract_field (idoc [98]) (key_path ?def) = Some (JStr [98])" by (simp add: StoreDef_new_def extract_field_top)
  obtain db3 where p: "?put 0 (idoc [98]) ?db2 = Some (db3, Inr (JStr [98]))" "db_quiet ?db2 db3" "jd_schema db3 = jd_schema ?db2" "calm 364 (jd_engine db3)"
    by (rule calm_put [of ?db2 "[115]" ?def "idoc [98]" "JStr [98]" one_field "[98]" "[98]" 400 plain_ext 0])
      (use c2 ix kp one_field_total in \<open>simp_all add: key_defs\<close>)
  note run = run_start [of ?put ?del db_quiet ?db2, THEN run_put, OF p(1,2), simplified]
  obtain db4 n where n: "json_count plain_ext 0 [115] db3 = Some (db4, Inr n)"
    using calm_count [OF p(4), of "[115]" plain_ext 0] p(3) by auto
  have src: "\<forall>e it. scan_default plain_ext 0 (prefix_range (doc_prefix [115])) (jd_engine db3) = Some (e, it) \<longrightarrow> length (sc_sources it) \<le> usize_max"
    using calm_sources [OF p(4)] by (fastforce simp: usize_max_def)
  have m: "memtables ?db = mts_insert ?r (MemTables_new 2 (64 * 1024 * 1024))" by (simp add: mem_db_def mem_engine_memtables)
  have reach: "mts_reach (memtables ?db)" unfolding m by (intro mts_reach.intros) simp
  have doc: "mem_docs one_field 0 [115] ?db [97] = Some (Some (idoc [97]))"
    unfolding mem_docs_def m
    by (simp add: mem_look_def mts_get_def mt_get_def mts_insert_def mt_insert_def Record_new_def i64_max_def read_op_def decode_doc_def one_field_def)
  have "json_get plain_ext one_field 0 [115] (JStr [97]) db3 = Some (db3, Inr (Some (idoc [97]))) \<and> n = 0"
    by (rule deleted_store_lingers [OF del(1) cr(1) del(2) cr(2) reach _ _ _ doc run _ _ n src])
      (simp_all add: i64_max_def one_field_reads_back last_write_def)
  with del(1) cr(1) p(1) n show ?thesis by blast
qed

section \<open>Generated keys in transactions\<close>

definition counter_rec :: "bytes \<Rightarrow> nat \<Rightarrow> InternalRecord" where
  "counter_rec store i = from_record (Record_new (counter_key store) 0 (be_bytes 8 i)) 0"

lemma prepare_counter_inv:
  assumes "prepare_counter ext now_us store e = Some (e', Inr (i, r))"
  shows "r = counter_rec store i" "i < 2 ^ 64"
  using assms by (auto simp: prepare_counter_def counter_rec_def Let_def ret_def elim!: bind_call_SomeD)

lemma prepare_counter_memory:
  assumes "prepare_counter ext now_us store e = Some (e', Inr (j, r))" "i < 2 ^ 64"
    and "mem_look now_us (ww_memtables (en_worker e)) (counter_key store) = Some (Put, be_bytes 8 i)"
  shows "j = (i + 1) mod 2 ^ 64"
proof -
  from eng_get_memory [OF assms(3), of ext] obtain x where "eng_get ext now_us (counter_key store) e = Some (e, Inr (Some x))" "pval x = be_bytes 8 i"
    by auto
  then show ?thesis using assms(1,2) by (simp add: prepare_counter_def bind_call_def ret_def Let_def)
qed

lemma tx_put_auto_inv:
  assumes "tx_put_auto ext jx now_us store doc (db, tx) = Some ((db', tx'), Inr k)"
  obtains i where "k = JNum (PosInt i)" "tx_next_ids tx' store = Some i" "tx_committed tx' = tx_committed tx"
    "case tx_next_ids tx store of
       Some j \<Rightarrow> i = (j + 1) mod 2 ^ 64 \<and> tx_counter_updates tx' = tx_counter_updates tx
     | None \<Rightarrow> i < 2 ^ 64 \<and> tx_counter_updates tx' = tx_counter_updates tx @ [counter_rec store i]"
proof -
  from assms obtain s1 i b where n: "tx_next_id ext now_us store (db, tx) = Some (s1, Inr i)"
    and b: "buffer_write store (digits i) b s1 = Some ((db', tx'), Inr ())" and k: "k = JNum (PosInt i)"
    by (auto simp: tx_put_auto_def require_read_write_def require_store_def on_db_def with_store_def lift_res_def ret_def Let_def
        elim!: bind_call_SomeD split: if_splits option.splits)
  obtain tx1 where tx1: "s1 = (db', tx1)" "tx' = tx1\<lparr>tx_writes := (tx_writes tx1)((store, digits i) \<mapsto> b)\<rparr>"
    using b by (cases s1) (auto simp: buffer_write_def)
  show thesis
  proof (cases "tx_next_ids tx store")
    case None
    with n tx1(1) obtain r where r: "tx1 = tx\<lparr>tx_counter_updates := tx_counter_updates tx @ [r], tx_next_ids := (tx_next_ids tx)(store \<mapsto> i)\<rparr>"
      "prepare_counter ext now_us store (jd_engine db) = Some (jd_engine db', Inr (i, r))"
      by (auto simp: tx_next_id_def tx_engine_def on_db_def on_engine_def elim!: bind_call_SomeD)
    show thesis using that [OF k] tx1(2) None prepare_counter_inv [OF r(2)] by (simp add: r(1))
  next
    case (Some j)
    have t: "tx1 = tx\<lparr>tx_next_ids := (tx_next_ids tx)(store \<mapsto> (j + 1) mod 2 ^ 64)\<rparr>" "i = (j + 1) mod 2 ^ 64"
      using n Some unfolding tx_next_id_def tx1(1) by auto
    show thesis using that [OF k] tx1(2) Some by (simp add: t)
  qed
qed

lemma commit_keeps_counter:
  assumes "list_all2 (\<lambda>w recs. \<exists>db1 db2. jd_schema db1 = sch \<and> commit_write ext jx now_us ws w db1 = Some (db2, Inr recs)) xs rss"
  shows "batch_look (concat rss) (counter_key st) = None" "\<forall>r\<in>set (concat rss). expire_at r = i64_max"
proof -
  have one: "version x \<noteq> (counter_key st, 0) \<and> expire_at x = i64_max"
    if c: "commit_write ext jx now_us ws w db1 = Some (db2, Inr recs)" and x: "x \<in> set recs" for w db1 db2 recs x
  proof -
    obtain store kb v where w: "w = ((store, kb), v)" by (metis surj_pair)
    have ek: "counter_key st \<notin> set (entry_keys jx def store kb d)" for def d by (auto simp: entry_keys_def index_entry_key_def key_defs)
    have dk: "counter_key st \<noteq> doc_key store kb" by (simp add: key_defs)
    have od: "y \<in> set (old_deletes jx def store kb old) \<Longrightarrow> version y \<noteq> (counter_key st, 0)" for def old y
      using ek by (auto simp: old_deletes_def index_deletes_keys version_def split: option.splits)
    have ep: "y \<in> set (entry_puts jx def store kb d) \<Longrightarrow> version y \<noteq> (counter_key st, 0)" for def d y
      using ek by (auto simp: entry_puts_def version_def Record_new_def)
    from c show ?thesis unfolding w
      by (rule commit_write_shape) (use x dk od ep batch_expire in \<open>auto simp: version_def Record_new_def split: option.splits\<close>)
  qed
  have "\<forall>recs\<in>set rss. \<forall>x\<in>set recs. version x \<noteq> (counter_key st, 0) \<and> expire_at x = i64_max"
    using assms by (induction rule: list_all2_induct) (auto dest: one)
  then show "batch_look (concat rss) (counter_key st) = None" "\<forall>r\<in>set (concat rss). expire_at r = i64_max"
    by (auto simp: batch_look_none)
qed

text \<open>Generated keys repeat: when a transaction puts two documents with generated keys into a store, the commit (that does not flush)
  writes only the counter of the first, so the next generated key of the store, outside or in another transaction, is the one the
  second document got, and its put overwrites that document.\<close>

theorem generated_keys_repeat:
  assumes "tx_put_auto ext jx t1 store d1 (db, tx) = Some ((db1, tx1), Inr k1)" "tx_next_ids tx store = None" "tx_counter_updates tx = []"
    and "tx_put_auto ext jx t2 store d2 (db1, tx1) = Some ((db2, tx2), Inr k2)" "\<not> tx_committed tx"
    and "tx_commit ext jx t3 order (db2, tx2) = Some ((db3, tx3), Inr ())" "db_quiet db2 db3" "mts_reach (memtables db2)" "t4 \<le> i64_max"
    and "put_auto ext jx t4 store d4 db3 = Some (db4, Inr k4)"
  shows "k4 = k2"
proof -
  from assms(1) obtain i where i: "k1 = JNum (PosInt i)" "tx_next_ids tx1 store = Some i" "i < 2 ^ 64" "tx_committed tx1 = tx_committed tx"
    "tx_counter_updates tx1 = [counter_rec store i]" by (rule tx_put_auto_inv) (use assms(2,3) in simp)
  from assms(4) have 2: "k2 = JNum (PosInt ((i + 1) mod 2 ^ 64))" "tx_counter_updates tx2 = [counter_rec store i]" "\<not> tx_committed tx2"
    using assms(5) i by (auto elim!: tx_put_auto_inv)
  from assms(6) 2(3) obtain e rss where e: "engine_view e = engine_view (jd_engine db2)"
      "eng_write ext t3 (tx_counter_updates tx2 @ concat rss) e = Some (jd_engine db3, Inr ())"
    and l: "list_all2 (\<lambda>w recs. \<exists>d1 d2. jd_schema d1 = jd_schema db2 \<and> commit_write ext jx t3 (write_list order tx2) w d1 = Some (d2, Inr recs))
        (write_list order tx2) rss" by (rule tx_commit_inv)
  note c = commit_keeps_counter(1) [OF l, of store] commit_keeps_counter(2) [OF l]
  have x: "\<forall>r\<in>set (tx_counter_updates tx2 @ concat rss). expire_at r = i64_max" using c(2) 2(2) by (auto simp: counter_rec_def Record_new_def)
  have q: "no_flush e (jd_engine db3)" using assms(7) no_flush_view [OF e(1)] by (simp add: db_quiet_def)
  have a: "active_ok (ww_memtables (en_worker e))" using e(1) mts_ok_active [OF mts_reach_ok [OF assms(8)]] by (simp add: engine_view_def)
  have "batch_look (tx_counter_updates tx2 @ concat rss) (counter_key store) = Some (Put, be_bytes 8 i)"
    using c(1) by (simp add: 2(2) batch_look_append batch_look_Cons counter_rec_def version_def Record_new_def)
  then have m: "mem_look t4 (memtables db3) (counter_key store) = Some (Put, be_bytes 8 i)"
    using eng_write_memory(2) [OF e(2) q _ a x assms(9), of "counter_key store"] 2(2) by simp
  from assms(10) obtain e4 j r where p: "prepare_counter ext t4 store (jd_engine db3) = Some (e4, Inr (j, r))" "k4 = JNum (PosInt j)"
    by (auto simp: put_auto_def with_store_def on_engine_def lift_res_def ret_def Let_def elim!: bind_call_SomeD split: option.splits if_splits)
  then show ?thesis using prepare_counter_memory [OF p(1) i(3) m] 2(1) by simp
qed

text \<open>For examples: a store with generated keys, and a transaction of it that has put two empty documents.\<close>

definition auto_def :: StoreDef where
  "auto_def = with_auto_increment (StoreDef_new [115] [105])"

abbreviation ndoc :: "nat \<Rightarrow> json" where
  "ndoc n \<equiv> JObj [([105], JNum (PosInt n))]"

definition auto_tx :: "nat \<Rightarrow> Transaction" where
  "auto_tx n = \<lparr>tx_mode = ReadWrite, tx_writes = (if n = 0 then Map.empty else if n = 1 then [([115], [49]) \<mapsto> Some [255, 1]]
       else [([115], [49]) \<mapsto> Some [255, 1], ([115], [50]) \<mapsto> Some [255, 1, 1]]),
     tx_counter_updates = (if n = 0 then [] else [counter_rec [115] 1]), tx_next_ids = (if n = 0 then Map.empty else [[115] \<mapsto> n]),
     tx_committed = False\<rparr>"

lemma auto_db: "jd_schema (mem_db auto_def []) = [[115] \<mapsto> auto_def]" "jd_engine (mem_db auto_def []) = mem_engine []"
  "auto_increment auto_def" "key_path auto_def = [105]" "indexes auto_def = []"
  by (simp_all add: mem_db_def auto_def_def with_auto_increment_def StoreDef_new_def)

lemma replicate_2: "replicate 2 x = [x, x]"
  by (simp add: numeral_2_eq_2)

lemma digits_12: "digits (Suc 0) = [49]" "digits 2 = [50]"
  by (simp_all add: digits_def show_nat.simps)

lemma auto_tx_put:
  "tx_put_auto plain_ext one_field 0 [115] (JObj []) (mem_db auto_def [], auto_tx 0) = Some ((mem_db auto_def [], auto_tx 1), Inr (JNum (PosInt 1)))"
  "tx_put_auto plain_ext one_field 0 [115] (JObj []) (mem_db auto_def [], auto_tx 1) = Some ((mem_db auto_def [], auto_tx 2), Inr (JNum (PosInt 2)))"
proof -
  have p: "prepare_counter plain_ext 0 [115] (mem_engine []) = Some (mem_engine [], Inr (1, counter_rec [115] 1))"
    by (simp add: prepare_counter_def bind_call_def ret_def Let_def counter_rec_def)
  have db: "(mem_db auto_def [])\<lparr>jd_engine := mem_engine []\<rparr> = mem_db auto_def []" by (simp add: mem_db_def)
  have v: "encode_doc (to_vec one_field) (inject_key [105] (JNum (PosInt n)) (JObj [])) = Inr (255 # replicate n 1)" for n
    by (simp add: encode_doc_def inject_key_def one_field_def)
  note defs = tx_put_auto_def require_read_write_def require_store_def on_db_def with_store_def auto_db bind_call_def ret_def tx_next_id_def
    tx_engine_def on_engine_def lift_res_def v buffer_write_def p db digits_12
  show "tx_put_auto plain_ext one_field 0 [115] (JObj []) (mem_db auto_def [], auto_tx 0) = Some ((mem_db auto_def [], auto_tx 1), Inr (JNum (PosInt 1)))"
    by (simp add: defs auto_tx_def)
  show "tx_put_auto plain_ext one_field 0 [115] (JObj []) (mem_db auto_def [], auto_tx 1) = Some ((mem_db auto_def [], auto_tx 2), Inr (JNum (PosInt 2)))"
    by (simp add: defs auto_tx_def numeral_2_eq_2 [symmetric] replicate_2)
qed

lemma auto_tx_commit:
  obtains e where "tx_commit plain_ext one_field 0 [([115], [49]), ([115], [50])] (mem_db auto_def [], auto_tx 2)
      = Some (((mem_db auto_def [])\<lparr>jd_engine := e\<rparr>, (auto_tx 2)\<lparr>tx_counter_updates := [], tx_committed := True\<rparr>), Inr ())"
    "no_flush (mem_engine []) e" "calm 500 e" "mem_look 0 (ww_memtables (en_worker e)) (counter_key [115]) = Some (Put, be_bytes 8 1)"
proof -
  let ?ws = "[(([115], [49]), Some [255, 1]), (([115], [50]), Some [255, 1, 1])]"
  let ?r = "\<lambda>kb b. from_record (Record_new (doc_key [115] kb) 0 b) 0"
  let ?recs = "[counter_rec [115] 1, ?r [49] [255, 1], ?r [50] [255, 1, 1]]"
  have ws: "write_list [([115], [49]), ([115], [50])] (auto_tx 2) = ?ws" by (simp add: write_list_def auto_tx_def List.map_filter_def)
  have db: "(mem_db auto_def [])\<lparr>jd_engine := mem_engine []\<rparr> = mem_db auto_def []" by (simp add: mem_db_def)
  have w: "commit_write plain_ext one_field 0 ?ws (([115], kb), Some b) (mem_db auto_def []) = Some (mem_db auto_def [], Inr [?r kb b])" for kb b
    by (simp add: commit_write_def with_store_def auto_db on_engine_def bind_call_def old_doc_lenient_def ret_def lift_res_def db
        decode_doc_def one_field_def)
  have c: "calm 1000 (mem_engine [])" by (rule mem_engine_calm) simp
  have sz: "sum_list (map estimated_size ?recs) \<le> 400" by (simp add: estimated_size_def counter_rec_def Record_new_def key_defs)
  from sz have "sum_list (map estimated_size ?recs) \<le> 1000" by linarith
  then obtain e where e: "eng_write plain_ext 0 ?recs (mem_engine []) = Some (e, Inr ())" "no_flush (mem_engine []) e"
    "calm (1000 - sum_list (map estimated_size ?recs)) e" by (rule calm_write [OF c]) simp
  have x: "\<forall>r\<in>set ?recs. expire_at r = i64_max" by (simp add: counter_rec_def Record_new_def)
  have a: "active_ok (ww_memtables (en_worker (mem_engine [])))" using c by (simp add: calm_def)
  have "mem_look 0 (ww_memtables (en_worker e)) (counter_key [115]) = Some (Put, be_bytes 8 1)"
    using eng_write_memory(2) [OF e(1,2) _ a x, of 0 "counter_key [115]"]
    by (simp add: batch_look_Cons version_def counter_rec_def Record_new_def key_defs i64_max_def)
  moreover have "tx_commit plain_ext one_field 0 [([115], [49]), ([115], [50])] (mem_db auto_def [], auto_tx 2)
      = Some (((mem_db auto_def [])\<lparr>jd_engine := e\<rparr>, (auto_tx 2)\<lparr>tx_counter_updates := [], tx_committed := True\<rparr>), Inr ())"
    using e(1) by (simp add: tx_commit_def ws w Let_def on_db_def bind_call_def tx_engine_def on_engine_def auto_db ret_def
        auto_tx_def [THEN arg_cong [where f = tx_committed]] auto_tx_def [THEN arg_cong [where f = tx_counter_updates]])
  moreover have "calm 500 e" using e(3) by (rule calm_less) (use sz in linarith)
  ultimately show thesis using that e(2) by blast
qed

lemma auto_put:
  assumes "calm 500 e" "mem_look 0 (ww_memtables (en_worker e)) (counter_key [115]) = Some (Put, be_bytes 8 1)"
  shows "\<exists>db' k. put_auto plain_ext one_field 0 [115] (JObj []) ((mem_db auto_def [])\<lparr>jd_engine := e\<rparr>) = Some (db', Inr k)"
proof -
  let ?db = "(mem_db auto_def [])\<lparr>jd_engine := e\<rparr>" and ?rec = "from_record (Record_new (doc_key [115] [50]) 0 [255, 1, 1]) 0"
  from eng_get_memory [OF assms(2), of plain_ext] obtain x where "eng_get plain_ext 0 (counter_key [115]) e = Some (e, Inr (Some x))" "pval x = be_bytes 8 1"
    by auto
  then have p: "prepare_counter plain_ext 0 [115] e = Some (e, Inr (2, counter_rec [115] 2))"
    by (simp add: prepare_counter_def bind_call_def ret_def Let_def counter_rec_def numeral_2_eq_2 [symmetric])
  have v: "encode_doc (to_vec one_field) (inject_key [105] (JNum (PosInt 2)) (JObj [])) = Inr [255, 1, 1]"
    by (simp add: encode_doc_def inject_key_def one_field_def numeral_2_eq_2)
  obtain old where "read_old_doc plain_ext one_field 0 [115] [50] e = Some (e, Inr old)" using calm_read_old [OF assms(1) one_field_total] by blast
  then have b: "build_put_batch plain_ext one_field 0 auto_def [115] [50] [255, 1, 1] d e = Some (e, Inr [?rec])" for d
    by (simp add: build_put_batch_def bind_call_def Let_def ret_def auto_db index_deletes_def split: option.split)
  have "sum_list (map estimated_size [?rec, counter_rec [115] 2]) \<le> 500" by (simp add: estimated_size_def counter_rec_def Record_new_def key_defs)
  then obtain e' where "eng_write plain_ext 0 [?rec, counter_rec [115] 2] e = Some (e', Inr ())" by (rule calm_write [OF assms(1)]) simp
  then show ?thesis
    using p b by (simp add: put_auto_def with_store_def auto_db on_engine_def bind_call_def lift_res_def ret_def Let_def v digits_12)
qed

theorem generated_keys_repeat_witness:
  "\<exists>db3 tx3 db4. tx_commit plain_ext one_field 0 [([115], [49]), ([115], [50])] (mem_db auto_def [], auto_tx 2) = Some ((db3, tx3), Inr ())
    \<and> put_auto plain_ext one_field 0 [115] (JObj []) db3 = Some (db4, Inr (JNum (PosInt 2)))"
proof (rule auto_tx_commit)
  fix e
  let ?db3 = "(mem_db auto_def [])\<lparr>jd_engine := e\<rparr>"
  assume c: "tx_commit plain_ext one_field 0 [([115], [49]), ([115], [50])] (mem_db auto_def [], auto_tx 2)
      = Some ((?db3, (auto_tx 2)\<lparr>tx_counter_updates := [], tx_committed := True\<rparr>), Inr ())"
    and e: "no_flush (mem_engine []) e" "calm 500 e" "mem_look 0 (ww_memtables (en_worker e)) (counter_key [115]) = Some (Put, be_bytes 8 1)"
  obtain db4 k where p: "put_auto plain_ext one_field 0 [115] (JObj []) ?db3 = Some (db4, Inr k)" using auto_put [OF e(2,3)] by blast
  have q: "db_quiet (mem_db auto_def []) ?db3" using e(1) by (simp add: db_quiet_def auto_db)
  have r: "mts_reach (memtables (mem_db auto_def []))" by (simp add: auto_db mem_engine_memtables mts_reach.intros)
  have "k = JNum (PosInt 2)"
    by (rule generated_keys_repeat [OF auto_tx_put(1) _ _ auto_tx_put(2) _ c q r _ p]) (simp_all add: auto_tx_def i64_max_def)
  with c p show ?thesis by blast
qed

end
