(* ===== verification/Node.thy ===== *)
theory Node
  imports Json_Atomic
begin

text \<open>
  \<^verbatim>\<open>bindings/node/src/lib.rs\<close>: the Node.js addon over the document database.  Every asynchronous method makes a task; its \<open>compute\<close>
  runs once, off the main thread, on the shared database, and its \<open>resolve\<close> turns the output into a JavaScript value.
  A transaction object only records operations; its commit replays them in a transaction of the database.  The conversion
  \<^verbatim>\<open>env.to_js_value\<close> of the binding library is the parameter \<open>to_js\<close>.
\<close>

section \<open>Errors and values\<close>

text \<open>\<^verbatim>\<open>{:#x}\<close>.\<close>

fun hex_digits :: "nat \<Rightarrow> string" where
  "hex_digits n = (if n < 16 then [''0123456789abcdef'' ! n] else hex_digits (n div 16) @ [''0123456789abcdef'' ! (n mod 16)])"

declare hex_digits.simps [simp del]

text \<open>The \<^verbatim>\<open>Display\<close> of \<^verbatim>\<open>FlowError\<close>, from its \<^verbatim>\<open>#[error]\<close> attributes.\<close>

fun error_text :: "flow_error \<Rightarrow> string" where
  "error_text (Io e) = ''IO error: '' @ e"
| "error_text (Corruption file msg) = ''Corruption in '' @ file @ '': '' @ msg"
| "error_text Closed = ''Engine is closed''"
| "error_text WriteBufferFull = ''Write buffer full''"
| "error_text (ConfigErr msg) = ''Config error: '' @ msg"
| "error_text (SstNotFound sid) = ''SSTable not found: '' @ show_nat sid"
| "error_text (BlockNotFound sid idx) = ''Block not found: sst='' @ show_nat sid @ '', block='' @ show_nat idx"
| "error_text (InvalidMagic expected actual) = ''Invalid magic: expected 0x'' @ hex_digits expected @ '', got 0x'' @ hex_digits actual"
| "error_text (JsonErr e) = ''JSON error: '' @ e"
| "error_text (JsonDbErr msg) = ''JsonDB: '' @ msg"
| "error_text (Other msg) = msg"

type_synonym 'a napi_result = "string + 'a"
type_synonym ('s, 'a) napi_call = "'s \<Rightarrow> ('s \<times> 'a napi_result) option"

definition flow_err :: "flow_error \<Rightarrow> string" where
  "flow_err e = error_text e"

definition map_err :: "('s, 'a) call \<Rightarrow> ('s, 'a) napi_call" where
  "map_err m = (\<lambda>s. map_option (map_prod id (map_sum flow_err id)) (m s))"

definition apostrophed :: "string \<Rightarrow> string" where
  "apostrophed s = CHR 0x27 # s @ [CHR 0x27]"

definition parse_mode :: "string \<Rightarrow> TransactionMode napi_result" where
  "parse_mode s =
     (if s = ''readonly'' then Inr ReadOnly
      else if s = ''readwrite'' then Inr ReadWrite
      else Inl (''mode must be '' @ apostrophed ''readonly'' @ '' or '' @ apostrophed ''readwrite''))"

definition value_to_js :: "(json \<Rightarrow> 'js napi_result) \<Rightarrow> json \<Rightarrow> 'js napi_result" where
  "value_to_js to_js v = to_js v"

definition value_opt_to_js :: "(json \<Rightarrow> 'js napi_result) \<Rightarrow> json option \<Rightarrow> 'js napi_result" where
  "value_opt_to_js to_js v = (case v of Some v \<Rightarrow> value_to_js to_js v | None \<Rightarrow> value_to_js to_js JNull)"

fun values_to_js_vec :: "(json \<Rightarrow> 'js napi_result) \<Rightarrow> json list \<Rightarrow> 'js list napi_result" where
  "values_to_js_vec to_js [] = Inr []"
| "values_to_js_vec to_js (v # vs) =
     (case value_to_js to_js v of
        Inl err \<Rightarrow> Inl err
      | Inr x \<Rightarrow> (case values_to_js_vec to_js vs of Inl err \<Rightarrow> Inl err | Inr xs \<Rightarrow> Inr (x # xs)))"

section \<open>Opening\<close>

record JsConfig =
  js_data_dir :: string
  js_create_if_missing :: "bool option"
  js_default_ttl_secs :: "int option"
  js_memtable_size_mb :: "int option"
  js_block_cache_capacity_mb :: "int option"
  js_bloom_bits_per_key :: "int option"

text \<open>\<^verbatim>\<open>v as u64\<close> and \<^verbatim>\<open>v as usize\<close> of an \<^verbatim>\<open>i64\<close> on a 64-bit machine.\<close>

definition as_u64_cast :: "int \<Rightarrow> nat" where
  "as_u64_cast v = nat (v mod 2 ^ 64)"

definition set_opt :: "('a \<Rightarrow> 'c \<Rightarrow> 'c) \<Rightarrow> 'a option \<Rightarrow> 'c \<Rightarrow> 'c" where
  "set_opt f v c = (case v of Some x \<Rightarrow> f x c | None \<Rightarrow> c)"

definition open_config :: "JsConfig \<Rightarrow> Config" where
  "open_config config =
     (let cfg = Config_default\<lparr>data_dir := js_data_dir config\<rparr>;
          cfg = set_opt (\<lambda>v c. c\<lparr>create_if_missing := v\<rparr>) (js_create_if_missing config) cfg;
          cfg = set_opt (\<lambda>v c. c\<lparr>default_ttl_secs := Some (as_u64_cast v)\<rparr>) (js_default_ttl_secs config) cfg;
          cfg = set_opt (\<lambda>v c. c\<lparr>memtable_size_mb := as_u64_cast v\<rparr>) (js_memtable_size_mb config) cfg;
          cfg = set_opt (\<lambda>v c. c\<lparr>block_cache_capacity_mb := as_u64_cast v\<rparr>) (js_block_cache_capacity_mb config) cfg
      in set_opt (\<lambda>v c. c\<lparr>bloom_bits_per_key := as_u64_cast v\<rparr>) (js_bloom_bits_per_key config) cfg)"

text \<open>\<^verbatim>\<open>FlowDb\<close> is a shared pointer to the database, so its state is the database.\<close>

definition FlowDb_open :: "'l externals \<Rightarrow> json_ext \<Rightarrow> nat \<Rightarrow> int \<Rightarrow> JsConfig \<Rightarrow> disk option \<Rightarrow> 'l JsonDB napi_result option" where
  "FlowDb_open ext jx stack_size now_us config d =
     map_option (map_sum flow_err id) (json_open ext jx stack_size now_us (open_config config) d)"

section \<open>Tasks\<close>

text \<open>An operation a transaction object has recorded.\<close>

datatype TxOp = TxPut bytes json | TxDelete bytes json

datatype Task =
    CloseTask
  | PutTask bytes json
  | PutAutoTask bytes json
  | GetTask bytes json
  | DeleteTask bytes json
  | ScanTask bytes
  | CreateObjectStoreTask bytes bytes
  | DeleteObjectStoreTask bytes
  | CreateIndexTask bytes bytes "bytes list" bool
  | DeleteIndexTask bytes bytes
  | CountTask bytes
  | GetByIndexTask bytes bytes json
  | RangeByIndexTask bytes bytes json json
  | CommitTask TransactionMode "bytes list" "TxOp list"

text \<open>The outputs of the tasks and the values they resolve to.\<close>

datatype Output = OutUnit | OutValue json | OutOption "json option" | OutList "json list" | OutI64 int

datatype 'js JsValue = JsUndefined | JsUnknown 'js | JsArray "'js list" | JsNumber int

subsection \<open>The methods\<close>

definition FlowDb_close :: Task where
  "FlowDb_close = CloseTask"

definition FlowDb_put :: "bytes \<Rightarrow> json \<Rightarrow> Task" where
  "FlowDb_put store value = PutTask store value"

definition FlowDb_put_auto :: "bytes \<Rightarrow> json \<Rightarrow> Task" where
  "FlowDb_put_auto store value = PutAutoTask store value"

definition FlowDb_get :: "bytes \<Rightarrow> json \<Rightarrow> Task" where
  "FlowDb_get store k = GetTask store k"

definition FlowDb_delete :: "bytes \<Rightarrow> json \<Rightarrow> Task" where
  "FlowDb_delete store k = DeleteTask store k"

definition FlowDb_scan :: "bytes \<Rightarrow> Task" where
  "FlowDb_scan store = ScanTask store"

definition FlowDb_store_names :: "bytes list \<Rightarrow> 'l JsonDB \<Rightarrow> bytes list" where
  "FlowDb_store_names order db = store_names order db"

definition FlowDb_create_object_store :: "bytes \<Rightarrow> bytes \<Rightarrow> Task" where
  "FlowDb_create_object_store name kp = CreateObjectStoreTask name kp"

definition FlowDb_delete_object_store :: "bytes \<Rightarrow> Task" where
  "FlowDb_delete_object_store name = DeleteObjectStoreTask name"

definition FlowDb_create_index :: "bytes \<Rightarrow> bytes \<Rightarrow> bytes list \<Rightarrow> bool option \<Rightarrow> Task" where
  "FlowDb_create_index store name kps uniq = CreateIndexTask store name kps (case uniq of Some u \<Rightarrow> u | None \<Rightarrow> False)"

definition FlowDb_delete_index :: "bytes \<Rightarrow> bytes \<Rightarrow> Task" where
  "FlowDb_delete_index store name = DeleteIndexTask store name"

definition FlowDb_count :: "bytes \<Rightarrow> Task" where
  "FlowDb_count store = CountTask store"

definition FlowDb_get_by_index :: "bytes \<Rightarrow> bytes \<Rightarrow> json \<Rightarrow> Task" where
  "FlowDb_get_by_index store index value = GetByIndexTask store index value"

definition FlowDb_range_by_index :: "bytes \<Rightarrow> bytes \<Rightarrow> json \<Rightarrow> json \<Rightarrow> Task" where
  "FlowDb_range_by_index store index start end_value = RangeByIndexTask store index start end_value"

subsection \<open>What the tasks compute\<close>

text \<open>\<^verbatim>\<open>compute\<close> moves the arguments out of the task with \<^verbatim>\<open>mem::take\<close>; it runs once, so nothing reads what is left.\<close>

definition CloseTask_compute :: "'l externals \<Rightarrow> int \<Rightarrow> ('l JsonDB, unit) napi_call" where
  "CloseTask_compute ext now_us = map_err (\<lambda>db. Some (json_close ext now_us db, Inr ()))"

definition PutTask_compute :: "'l externals \<Rightarrow> json_ext \<Rightarrow> int \<Rightarrow> bytes \<Rightarrow> json \<Rightarrow> ('l JsonDB, unit) napi_call" where
  "PutTask_compute ext jx now_us store value = map_err (bind_call (json_put ext jx now_us store value) (\<lambda>_. ret ()))"

definition PutAutoTask_compute :: "'l externals \<Rightarrow> json_ext \<Rightarrow> int \<Rightarrow> bytes \<Rightarrow> json \<Rightarrow> ('l JsonDB, json) napi_call" where
  "PutAutoTask_compute ext jx now_us store value = map_err (put_auto ext jx now_us store value)"

definition GetTask_compute :: "'l externals \<Rightarrow> json_ext \<Rightarrow> int \<Rightarrow> bytes \<Rightarrow> json \<Rightarrow> ('l JsonDB, json option) napi_call" where
  "GetTask_compute ext jx now_us store k = map_err (json_get ext jx now_us store k)"

definition DeleteTask_compute :: "'l externals \<Rightarrow> json_ext \<Rightarrow> int \<Rightarrow> bytes \<Rightarrow> json \<Rightarrow> ('l JsonDB, unit) napi_call" where
  "DeleteTask_compute ext jx now_us store k = map_err (json_delete ext jx now_us store k)"

definition ScanTask_compute :: "'l externals \<Rightarrow> json_ext \<Rightarrow> int \<Rightarrow> bytes \<Rightarrow> ('l JsonDB, json list) napi_call" where
  "ScanTask_compute ext jx now_us store = map_err (json_scan ext jx now_us store)"

definition CreateObjectStoreTask_compute :: "'l externals \<Rightarrow> json_ext \<Rightarrow> int \<Rightarrow> bytes \<Rightarrow> bytes \<Rightarrow> ('l JsonDB, unit) napi_call" where
  "CreateObjectStoreTask_compute ext jx now_us name kp = map_err (create_object_store ext jx now_us name kp)"

definition DeleteObjectStoreTask_compute :: "'l externals \<Rightarrow> int \<Rightarrow> bytes \<Rightarrow> ('l JsonDB, unit) napi_call" where
  "DeleteObjectStoreTask_compute ext now_us name = map_err (delete_object_store ext now_us name)"

definition CreateIndexTask_compute :: "'l externals \<Rightarrow> json_ext \<Rightarrow> int \<Rightarrow> bytes \<Rightarrow> bytes \<Rightarrow> bytes list \<Rightarrow> bool
    \<Rightarrow> ('l JsonDB, unit) napi_call" where
  "CreateIndexTask_compute ext jx now_us store name kps uniq = map_err (create_index ext jx now_us store name kps uniq)"

definition DeleteIndexTask_compute :: "'l externals \<Rightarrow> json_ext \<Rightarrow> int \<Rightarrow> bytes \<Rightarrow> bytes \<Rightarrow> ('l JsonDB, unit) napi_call" where
  "DeleteIndexTask_compute ext jx now_us store name = map_err (delete_index ext jx now_us store name)"

text \<open>The count is a \<^verbatim>\<open>usize\<close>, cast to \<^verbatim>\<open>i64\<close>.\<close>

definition CountTask_compute :: "'l externals \<Rightarrow> int \<Rightarrow> bytes \<Rightarrow> ('l JsonDB, int) napi_call" where
  "CountTask_compute ext now_us store = map_err (bind_call (json_count ext now_us store) (\<lambda>c. ret (u64_as_i64 c)))"

definition GetByIndexTask_compute :: "'l externals \<Rightarrow> json_ext \<Rightarrow> int \<Rightarrow> bytes \<Rightarrow> bytes \<Rightarrow> json \<Rightarrow> ('l JsonDB, json list) napi_call" where
  "GetByIndexTask_compute ext jx now_us store index value = map_err (get_by_index ext jx now_us store index value)"

definition RangeByIndexTask_compute :: "'l externals \<Rightarrow> json_ext \<Rightarrow> int \<Rightarrow> bytes \<Rightarrow> bytes \<Rightarrow> json \<Rightarrow> json
    \<Rightarrow> ('l JsonDB, json list) napi_call" where
  "RangeByIndexTask_compute ext jx now_us store index start end_value = map_err (range_by_index ext jx now_us store index start end_value)"

text \<open>The loop of \<^verbatim>\<open>CommitTask::compute\<close> over the recorded operations.\<close>

fun replay_ops :: "json_ext \<Rightarrow> TxOp list \<Rightarrow> ('l, unit) tx_call" where
  "replay_ops jx [] = ret ()"
| "replay_ops jx (TxPut store value # ops) = bind_call (tx_put jx store value) (\<lambda>_. replay_ops jx ops)"
| "replay_ops jx (TxDelete store k # ops) = bind_call (tx_delete jx store k) (\<lambda>_. replay_ops jx ops)"

text \<open>The transaction lives in the call; \<open>order\<close> is the order in which its buffer is iterated.\<close>

definition CommitTask_compute :: "'l externals \<Rightarrow> json_ext \<Rightarrow> int \<Rightarrow> (bytes \<times> bytes) list \<Rightarrow> TransactionMode \<Rightarrow> bytes list \<Rightarrow> TxOp list
    \<Rightarrow> ('l JsonDB, unit) napi_call" where
  "CommitTask_compute ext jx now_us order mode stores ops = map_err (\<lambda>db.
     case transaction stores mode db of
       Inl err \<Rightarrow> Some (db, Inl err)
     | Inr tx \<Rightarrow>
         map_option (\<lambda>((db, tx), r). (db, r)) (bind_call (replay_ops jx ops) (\<lambda>_. tx_commit ext jx now_us order) (db, tx)))"

definition out :: "('a \<Rightarrow> Output) \<Rightarrow> ('s, 'a) napi_call \<Rightarrow> ('s, Output) napi_call" where
  "out f m = (\<lambda>s. map_option (map_prod id (map_sum id f)) (m s))"

text \<open>The dispatch of the task queue.\<close>

fun compute :: "'l externals \<Rightarrow> json_ext \<Rightarrow> int \<Rightarrow> (bytes \<times> bytes) list \<Rightarrow> Task \<Rightarrow> ('l JsonDB, Output) napi_call" where
  "compute ext jx now_us order CloseTask = out (\<lambda>_. OutUnit) (CloseTask_compute ext now_us)"
| "compute ext jx now_us order (PutTask store value) = out (\<lambda>_. OutUnit) (PutTask_compute ext jx now_us store value)"
| "compute ext jx now_us order (PutAutoTask store value) = out OutValue (PutAutoTask_compute ext jx now_us store value)"
| "compute ext jx now_us order (GetTask store k) = out OutOption (GetTask_compute ext jx now_us store k)"
| "compute ext jx now_us order (DeleteTask store k) = out (\<lambda>_. OutUnit) (DeleteTask_compute ext jx now_us store k)"
| "compute ext jx now_us order (ScanTask store) = out OutList (ScanTask_compute ext jx now_us store)"
| "compute ext jx now_us order (CreateObjectStoreTask name kp) = out (\<lambda>_. OutUnit) (CreateObjectStoreTask_compute ext jx now_us name kp)"
| "compute ext jx now_us order (DeleteObjectStoreTask name) = out (\<lambda>_. OutUnit) (DeleteObjectStoreTask_compute ext now_us name)"
| "compute ext jx now_us order (CreateIndexTask store name kps uniq) = out (\<lambda>_. OutUnit) (CreateIndexTask_compute ext jx now_us store name kps uniq)"
| "compute ext jx now_us order (DeleteIndexTask store name) = out (\<lambda>_. OutUnit) (DeleteIndexTask_compute ext jx now_us store name)"
| "compute ext jx now_us order (CountTask store) = out OutI64 (CountTask_compute ext now_us store)"
| "compute ext jx now_us order (GetByIndexTask store index value) = out OutList (GetByIndexTask_compute ext jx now_us store index value)"
| "compute ext jx now_us order (RangeByIndexTask store index start end_value)
     = out OutList (RangeByIndexTask_compute ext jx now_us store index start end_value)"
| "compute ext jx now_us order (CommitTask mode stores ops) = out (\<lambda>_. OutUnit) (CommitTask_compute ext jx now_us order mode stores ops)"

text \<open>\<^verbatim>\<open>resolve\<close>.\<close>

fun resolve :: "(json \<Rightarrow> 'js napi_result) \<Rightarrow> Output \<Rightarrow> 'js JsValue napi_result" where
  "resolve to_js OutUnit = Inr JsUndefined"
| "resolve to_js (OutValue v) = map_sum id JsUnknown (value_to_js to_js v)"
| "resolve to_js (OutOption v) = map_sum id JsUnknown (value_opt_to_js to_js v)"
| "resolve to_js (OutList vs) = map_sum id JsArray (values_to_js_vec to_js vs)"
| "resolve to_js (OutI64 n) = Inr (JsNumber n)"

section \<open>Transaction objects\<close>

record JsTransaction =
  jt_mode :: TransactionMode
  jt_stores :: "bytes list"
  jt_ops :: "TxOp list"

definition FlowDb_transaction :: "bytes list \<Rightarrow> string \<Rightarrow> JsTransaction napi_result" where
  "FlowDb_transaction stores mode = map_sum id (\<lambda>m. \<lparr>jt_mode = m, jt_stores = stores, jt_ops = []\<rparr>) (parse_mode mode)"

text \<open>The lock is only held to push, take or clear, which do not panic, so it is never poisoned.\<close>

definition JsTransaction_put :: "bytes \<Rightarrow> json \<Rightarrow> JsTransaction \<Rightarrow> JsTransaction" where
  "JsTransaction_put store value t = t\<lparr>jt_ops := jt_ops t @ [TxPut store value]\<rparr>"

definition JsTransaction_delete :: "bytes \<Rightarrow> json \<Rightarrow> JsTransaction \<Rightarrow> JsTransaction" where
  "JsTransaction_delete store k t = t\<lparr>jt_ops := jt_ops t @ [TxDelete store k]\<rparr>"

definition JsTransaction_commit :: "JsTransaction \<Rightarrow> JsTransaction \<times> Task" where
  "JsTransaction_commit t = (t\<lparr>jt_ops := []\<rparr>, CommitTask (jt_mode t) (jt_stores t) (jt_ops t))"

definition JsTransaction_abort :: "JsTransaction \<Rightarrow> JsTransaction" where
  "JsTransaction_abort t = t\<lparr>jt_ops := []\<rparr>"

section \<open>Numbers in the configuration\<close>

lemma as_u64_cast_nonneg: "0 \<le> v \<Longrightarrow> i64 v \<Longrightarrow> as_u64_cast v = nat v"
  by (simp add: as_u64_cast_def i64_def i64_max_def)

lemma as_u64_cast_neg:
  assumes "v < 0" "i64 v"
  shows "2 ^ 63 \<le> as_u64_cast v"
proof -
  have "v mod 2 ^ 64 = (v + 2 ^ 64) mod 2 ^ 64" by simp
  also have "\<dots> = v + 2 ^ 64" using assms by (intro mod_pos_pos_trivial) (simp_all add: i64_def i64_min_def)
  finally show ?thesis using assms by (simp add: as_u64_cast_def i64_def i64_min_def le_nat_iff)
qed

text \<open>Numbers of the JavaScript configuration are 64-bit signed and cast to unsigned.  The check of the configuration refuses every
  default TTL that is not positive, but a negative table size is taken for more than $2^{63}$ megabytes and accepted.\<close>

theorem node_open_numbers:
  assumes "i64 v"
  shows "js_default_ttl_secs config = Some v \<Longrightarrow> v \<le> 0 \<Longrightarrow>
      \<exists>msg. FlowDb_open ext jx stack_size now_us config d = Some (Inl (''Config error: '' @ msg))"
    and "js_memtable_size_mb config = Some v \<Longrightarrow> v < 0 \<Longrightarrow> 2 ^ 63 \<le> memtable_size_mb (open_config config)"
    and "js_memtable_size_mb config = Some v \<Longrightarrow> 0 \<le> v \<Longrightarrow> memtable_size_mb (open_config config) = nat v"
proof -
  assume t: "js_default_ttl_secs config = Some v" "v \<le> 0"
  have ttl: "default_ttl_secs (open_config config) = Some (as_u64_cast v)" using t(1) by (simp add: open_config_def set_opt_def Let_def split: option.split)
  have "as_u64_cast v = 0 \<or> max_bucket < as_u64_cast v"
    using as_u64_cast_neg [OF _ assms] t(2) by (cases "v = 0") (auto simp: as_u64_cast_def max_bucket_def i64_max_def)
  then have "\<exists>msg. validate (open_config config) = Inl (ConfigErr msg)" by (auto simp: validate_def ttl)
  then show "\<exists>msg. FlowDb_open ext jx stack_size now_us config d = Some (Inl (''Config error: '' @ msg))"
    by (auto simp: FlowDb_open_def json_open_def engine_open_def flow_err_def)
next
  assume "js_memtable_size_mb config = Some v" "v < 0"
  then show "2 ^ 63 \<le> memtable_size_mb (open_config config)"
    using as_u64_cast_neg [OF _ assms] by (simp add: open_config_def set_opt_def Let_def split: option.split)
next
  assume "js_memtable_size_mb config = Some v" "0 \<le> v"
  then show "memtable_size_mb (open_config config) = nat v"
    using as_u64_cast_nonneg [OF _ assms] by (simp add: open_config_def set_opt_def Let_def split: option.split)
qed

section \<open>Committing a transaction object\<close>

text \<open>The write of one operation, where it is valid.\<close>

fun op_write :: "json_ext \<Rightarrow> Schema \<Rightarrow> TxOp \<Rightarrow> ((bytes \<times> bytes) \<times> bytes option) option" where
  "op_write jx sch (TxPut store doc) =
     (case sch store of None \<Rightarrow> None
      | Some def \<Rightarrow>
          (case extract_field doc (key_path def) of None \<Rightarrow> None
           | Some v \<Rightarrow>
               (case (encode_primary_key (to_vec jx) (num_str jx) v, encode_doc (to_vec jx) doc) of
                  (Inr kb, Inr b) \<Rightarrow> Some ((store, kb), Some b)
                | _ \<Rightarrow> None)))"
| "op_write jx sch (TxDelete store k) =
     (case sch store of None \<Rightarrow> None
      | Some _ \<Rightarrow>
          (case encode_primary_key (to_vec jx) (num_str jx) k of Inr kb \<Rightarrow> Some ((store, kb), None) | Inl _ \<Rightarrow> None))"

text \<open>Of several operations on a document the last one counts.\<close>

definition last_writes :: "json_ext \<Rightarrow> Schema \<Rightarrow> TxOp list \<Rightarrow> bytes \<times> bytes \<rightharpoonup> bytes option" where
  "last_writes jx sch ops = map_of (rev (List.map_filter (op_write jx sch) ops))"

lemma last_writes_Nil [simp]: "last_writes jx sch [] = Map.empty"
  by (simp add: last_writes_def List.map_filter_def)

lemma last_writes_Cons:
  "op_write jx sch op = Some (k, v) \<Longrightarrow> last_writes jx sch (op # ops) = [k \<mapsto> v] ++ last_writes jx sch ops"
  by (simp add: last_writes_def List.map_filter_def)

lemmas tx_call_defs = bind_call_def require_read_write_def require_store_def on_db_def with_store_def ret_def lift_res_def buffer_write_def

lemma tx_put_op:
  "tx_put jx store doc (db, tx) = Some (s', r) \<Longrightarrow>
   (case r of Inl _ \<Rightarrow> s' = (db, tx)
    | Inr _ \<Rightarrow> tx_mode tx = ReadWrite \<and> (\<exists>k v. op_write jx (jd_schema db) (TxPut store doc) = Some (k, v)
        \<and> s' = (db, tx\<lparr>tx_writes := (tx_writes tx)(k \<mapsto> v)\<rparr>)))"
  by (cases "tx_mode tx") (auto simp: tx_put_def tx_call_defs split: option.splits sum.splits)

lemma tx_delete_op:
  "tx_delete jx store k (db, tx) = Some (s', r) \<Longrightarrow>
   (case r of Inl _ \<Rightarrow> s' = (db, tx)
    | Inr _ \<Rightarrow> tx_mode tx = ReadWrite \<and> (\<exists>k' v. op_write jx (jd_schema db) (TxDelete store k) = Some (k', v)
        \<and> s' = (db, tx\<lparr>tx_writes := (tx_writes tx)(k' \<mapsto> v)\<rparr>)))"
  by (cases "tx_mode tx") (auto simp: tx_delete_def tx_call_defs split: option.splits sum.splits)

definition op_call :: "json_ext \<Rightarrow> TxOp \<Rightarrow> ('l, unit) tx_call" where
  "op_call jx op = (case op of TxPut store doc \<Rightarrow> bind_call (tx_put jx store doc) (\<lambda>_. ret ()) | TxDelete store k \<Rightarrow> tx_delete jx store k)"

lemma replay_ops_Cons: "replay_ops jx (op # ops) = bind_call (op_call jx op) (\<lambda>_. replay_ops jx ops)"
  by (cases op) (auto simp: op_call_def bind_call_def ret_def fun_eq_iff split: option.split sum.split)

lemma op_call_cases:
  assumes "op_call jx op (db, tx) = Some (s', r)"
  shows "case r of Inl _ \<Rightarrow> s' = (db, tx)
    | Inr _ \<Rightarrow> tx_mode tx = ReadWrite \<and> (\<exists>k v. op_write jx (jd_schema db) op = Some (k, v) \<and> s' = (db, tx\<lparr>tx_writes := (tx_writes tx)(k \<mapsto> v)\<rparr>))"
proof (cases op)
  case (TxPut store doc)
  then obtain r' where p: "tx_put jx store doc (db, tx) = Some (s', r')" "isl r' = isl r"
    using assms by (auto simp: op_call_def bind_call_def ret_def split: option.splits sum.splits)
  from tx_put_op [OF p(1)] p(2) TxPut show ?thesis by (cases r'; cases r) auto
next
  case (TxDelete store k)
  then show ?thesis using assms tx_delete_op [of jx store k db tx] by (simp only: op_call_def TxOp.case)
qed

lemma replay_ops_effect:
  assumes "replay_ops jx ops (db, tx) = Some ((db', tx'), r)"
  shows "db' = db \<and> (r = Inr () \<longrightarrow> (ops = [] \<or> tx_mode tx = ReadWrite) \<and> (\<forall>op\<in>set ops. op_write jx (jd_schema db) op \<noteq> None)
    \<and> tx' = tx\<lparr>tx_writes := tx_writes tx ++ last_writes jx (jd_schema db) ops\<rparr>)"
  using assms
proof (induction ops arbitrary: tx)
  case (Cons op ops)
  obtain s1 r1 where o: "op_call jx op (db, tx) = Some (s1, r1)"
    using Cons.prems by (cases "op_call jx op (db, tx)") (auto simp: replay_ops_Cons bind_call_def)
  note c = op_call_cases [OF o]
  show ?case
  proof (cases r1)
    case (Inl err)
    then show ?thesis using Cons.prems c o by (auto simp: replay_ops_Cons bind_call_def)
  next
    case (Inr u)
    with c obtain k v where kv: "tx_mode tx = ReadWrite" "op_write jx (jd_schema db) op = Some (k, v)"
      "s1 = (db, tx\<lparr>tx_writes := (tx_writes tx)(k \<mapsto> v)\<rparr>)" by auto
    have "replay_ops jx ops (db, tx\<lparr>tx_writes := (tx_writes tx)(k \<mapsto> v)\<rparr>) = Some ((db', tx'), r)"
      using Cons.prems o Inr kv(3) by (simp add: replay_ops_Cons bind_call_def)
    from Cons.IH [OF this] kv show ?thesis by (auto simp: last_writes_Cons [OF kv(2)] map_add_def fun_eq_iff split: option.split)
  qed
qed (auto simp: ret_def)

lemma map_sum_Inl: "map_sum f g x = Inl y \<longleftrightarrow> (\<exists>z. x = Inl z \<and> y = f z)" "Inl y = map_sum f g x \<longleftrightarrow> (\<exists>z. x = Inl z \<and> y = f z)"
  by (cases x; auto)+

lemma commit_task_cases:
  assumes "CommitTask_compute ext jx now_us order mode stores ops db = Some (db', r)"
  obtains (refused) err where "r = Inl err" "db' = db"
  | (committed) tx tx' q where "ops = [] \<or> mode = ReadWrite" "\<forall>op\<in>set ops. op_write jx (jd_schema db) op \<noteq> None"
      "tx_writes tx = last_writes jx (jd_schema db) ops" "\<not> tx_committed tx"
      "tx_commit ext jx now_us order (db, tx) = Some ((db', tx'), q)" "r = map_sum flow_err id q"
proof (cases "transaction stores mode db")
  case (Inl err)
  then show thesis using assms refused by (auto simp: CommitTask_compute_def map_err_def)
next
  case (Inr tx)
  then have tx: "tx_mode tx = mode" "tx_writes tx = Map.empty" "\<not> tx_committed tx" by (auto simp: transaction_def split: list.splits)
  obtain db1 tx1 q where p: "replay_ops jx ops (db, tx) = Some ((db1, tx1), q)"
    using assms Inr by (cases "replay_ops jx ops (db, tx)") (auto simp: CommitTask_compute_def map_err_def bind_call_def)
  note e = replay_ops_effect [OF p]
  show thesis
  proof (cases q)
    case (Inl err)
    then show thesis using assms Inr p e by (intro refused) (auto simp: CommitTask_compute_def map_err_def bind_call_def)
  next
    case (Inr u)
    with e have w: "db1 = db" "ops = [] \<or> mode = ReadWrite" "\<forall>op\<in>set ops. op_write jx (jd_schema db) op \<noteq> None"
      "tx_writes tx1 = last_writes jx (jd_schema db) ops" "\<not> tx_committed tx1" using tx by auto
    obtain tx2 r2 where "tx_commit ext jx now_us order (db, tx1) = Some ((db', tx2), r2)" "r = map_sum flow_err id r2"
      using assms \<open>transaction stores mode db = Inr tx\<close> p Inr w(1) by (auto simp: CommitTask_compute_def map_err_def bind_call_def)
    with w show thesis by (intro committed)
  qed
qed

text \<open>C18. A transaction object commits atomically, in the order of its operations.  A commit that fails, be it for a missing store, an
  operation that is not valid, a write in a read-only transaction or a unique index, changes nothing of the database but
  the block cache.  A commit that succeeds recorded only valid operations (in read-write mode, if any) and is one batch of
  the engine, in which every document an operation touched stands as the last such operation left it.\<close>

theorem node_commit_atomic:
  assumes "CommitTask_compute ext jx now_us order mode stores ops db = Some (db', r)"
    and "dom (last_writes jx (jd_schema db) ops) \<subseteq> set order"
  shows "jd_schema db' = jd_schema db
    \<and> (case r of
         Inl _ \<Rightarrow> db_view db' = db_view db
       | Inr _ \<Rightarrow> (ops = [] \<or> mode = ReadWrite) \<and> (\<forall>op\<in>set ops. op_write jx (jd_schema db) op \<noteq> None)
           \<and> (\<exists>e recs. engine_view e = engine_view (jd_engine db) \<and> write_internal ext now_us recs e = Some (jd_engine db')
                \<and> (\<forall>st kb v. last_writes jx (jd_schema db) ops (st, kb) = Some v \<longrightarrow>
                     (case v of Some b \<Rightarrow> from_record (Record_new (doc_key st kb) 0 b) 0 | None \<Rightarrow> delete_rec (doc_key st kb) 0 0) \<in> set recs)))"
proof (rule commit_task_cases [OF assms(1)])
  fix err
  assume "r = Inl err" "db' = db"
  then show ?thesis by simp
next
  fix tx tx' q
  assume w: "ops = [] \<or> mode = ReadWrite" "\<forall>op\<in>set ops. op_write jx (jd_schema db) op \<noteq> None" "tx_writes tx = last_writes jx (jd_schema db) ops"
    and c: "\<not> tx_committed tx" "tx_commit ext jx now_us order (db, tx) = Some ((db', tx'), q)" "r = map_sum flow_err id q"
  note commit = tx_commit_effect [OF c(2,1)]
  show ?thesis
  proof (cases q)
    case (Inl err)
    then show ?thesis using commit c(3) by simp
  next
    case (Inr u)
    then obtain e recs where er: "engine_view e = engine_view (jd_engine db)" "write_internal ext now_us recs e = Some (jd_engine db')"
      "\<And>st kb v. ((st, kb), v) \<in> set (write_list order tx) \<Longrightarrow>
         (case v of Some b \<Rightarrow> from_record (Record_new (doc_key st kb) 0 b) 0 | None \<Rightarrow> delete_rec (doc_key st kb) 0 0) \<in> set recs"
      using commit by auto
    have "((st, kb), v) \<in> set (write_list order tx)" if "last_writes jx (jd_schema db) ops (st, kb) = Some v" for st kb v
      using that assms(2) by (force simp: write_list_def List.map_filter_def w(3) dom_def)
    with er have "\<exists>e recs. engine_view e = engine_view (jd_engine db) \<and> write_internal ext now_us recs e = Some (jd_engine db')
        \<and> (\<forall>st kb v. last_writes jx (jd_schema db) ops (st, kb) = Some v \<longrightarrow>
           (case v of Some b \<Rightarrow> from_record (Record_new (doc_key st kb) 0 b) 0 | None \<Rightarrow> delete_rec (doc_key st kb) 0 0) \<in> set recs)" by blast
    with w(1,2) commit c(3) Inr show ?thesis by simp
  qed
qed

lemma two_puts_replay:
  "replay_ops one_field [TxPut [115] (idoc [97]), TxPut [115] (idoc [98])]
     (mem_db unique_def [], two_docs\<lparr>tx_writes := Map.empty\<rparr>) = Some ((mem_db unique_def [], two_docs), Inr ())"
proof -
  let ?db = "mem_db unique_def []"
  have sch: "jd_schema ?db = [[115] \<mapsto> unique_def]" "key_path unique_def = [105]"
    by (simp_all add: mem_db_def unique_def_def with_index_def StoreDef_new_def)
  have "tx_put one_field [115] (idoc [c]) (?db, two_docs\<lparr>tx_writes := m\<rparr>)
      = Some ((?db, two_docs\<lparr>tx_writes := m(([115], [c]) \<mapsto> Some [c])\<rparr>), Inr (JStr [c]))" if "c \<noteq> 255" "c \<noteq> 0" for m c
    using that by (simp add: tx_put_def tx_call_defs two_docs_def sch extract_field_top encode_doc_def)
  then show ?thesis by (simp add: bind_call_def ret_def two_docs_def)
qed

theorem node_commit_atomic_witness:
  "\<exists>e recs db'. engine_view e = engine_view (mem_engine []) \<and> write_internal plain_ext 0 recs e = Some (jd_engine db')
    \<and> from_record (Record_new (doc_key [115] [97]) 0 [97]) 0 \<in> set recs \<and> from_record (Record_new (doc_key [115] [98]) 0 [98]) 0 \<in> set recs
    \<and> CommitTask_compute plain_ext one_field 0 [([115], [97]), ([115], [98])] ReadWrite [[115]]
        [TxPut [115] (idoc [97]), TxPut [115] (idoc [98])] (mem_db unique_def []) = Some (db', Inr ())"
proof -
  let ?db = "mem_db unique_def []" and ?o = "[([115], [97]), ([115], [98])]" and ?ops = "[TxPut [115] (idoc [97]), TxPut [115] (idoc [98])]"
  have sch: "jd_schema ?db = [[115] \<mapsto> unique_def]" "key_path unique_def = [105]" "jd_engine ?db = mem_engine []"
    by (simp_all add: mem_db_def unique_def_def with_index_def StoreDef_new_def)
  obtain db' tx' where c: "tx_commit plain_ext one_field 0 ?o (?db, two_docs) = Some ((db', tx'), Inr ())" using two_docs_commit by blast
  have "transaction [[115]] ReadWrite ?db = Inr (two_docs\<lparr>tx_writes := Map.empty\<rparr>)" by (simp add: transaction_def sch two_docs_def)
  then have r: "CommitTask_compute plain_ext one_field 0 ?o ReadWrite [[115]] ?ops ?db = Some (db', Inr ())"
    unfolding CommitTask_compute_def map_err_def by (simp only: sum.case bind_call_def two_puts_replay) (simp add: c)
  have w: "op_write one_field [[115] \<mapsto> unique_def] (TxPut [115] (idoc [c])) = Some (([115], [c]), Some [c])" if "c \<noteq> 255" "c \<noteq> 0" for c
    using that by (simp add: sch extract_field_top encode_doc_def)
  have l: "last_writes one_field (jd_schema ?db) ?ops = [([115], [97]) \<mapsto> Some [97], ([115], [98]) \<mapsto> Some [98]]"
    by (simp add: last_writes_def List.map_filter_def sch(1) w del: op_write.simps)
  from node_commit_atomic [OF r] obtain e recs where
    e: "engine_view e = engine_view (mem_engine [])" "write_internal plain_ext 0 recs e = Some (jd_engine db')"
    and m: "\<forall>st kb v. last_writes one_field (jd_schema ?db) ?ops (st, kb) = Some v \<longrightarrow>
       (case v of Some b \<Rightarrow> from_record (Record_new (doc_key st kb) 0 b) 0 | None \<Rightarrow> delete_rec (doc_key st kb) 0 0) \<in> set recs"
    by (auto simp: l sch(3))
  from m [rule_format, of "[115]" "[97]" "Some [97]"] m [rule_format, of "[115]" "[98]" "Some [98]"] r e
  show ?thesis by (intro exI [of _ e] exI [of _ recs] exI [of _ db']) (simp add: l)
qed

text \<open>C34. A failed commit cannot be repeated.  \<^verbatim>\<open>commit\<close> moves the operations out of the transaction object before they are tried; when
  the task fails nothing was written, and a second \<^verbatim>\<open>commit\<close> of the same object, which the class allows, reports success
  and writes nothing.\<close>

theorem node_retry_loses_writes:
  assumes "\<forall>s\<in>set (jt_stores t). jd_schema db s \<noteq> None" "JsTransaction_commit t = (t', task)"
    and "compute ext jx now_us order task db = Some (db', Inl err)"
  shows "db_view db' = db_view db \<and> compute ext jx now_us' order' (snd (JsTransaction_commit t')) db' = Some (db', Inr OutUnit)"
proof -
  let ?c = "CommitTask_compute ext jx now_us order (jt_mode t) (jt_stores t) (jt_ops t) db"
  have t: "t' = t\<lparr>jt_ops := []\<rparr>" "task = CommitTask (jt_mode t) (jt_stores t) (jt_ops t)" using assms(2) by (simp_all add: JsTransaction_commit_def)
  have "?c = Some (db', Inl err)" using assms(3) by (auto simp: t out_def map_sum_Inl)
  then have v: "db_view db' = db_view db"
    by (cases rule: commit_task_cases) (auto simp: map_sum_Inl intro: tx_commit_error)
  then have "transaction (jt_stores t) m db' = Inr \<lparr>tx_mode = m, tx_writes = Map.empty, tx_counter_updates = [], tx_next_ids = Map.empty,
      tx_committed = False\<rparr>" for m
    using assms(1) by (auto simp: transaction_def db_view_def filter_empty_conv split: list.split dest!: arg_cong [where f = set])
  then have "CommitTask_compute ext jx now_us' order' m (jt_stores t) [] db' = Some (db', Inr ())" for m
    by (simp add: CommitTask_compute_def map_err_def bind_call_def ret_def tx_commit_def write_list_def List.map_filter_def on_db_def Let_def)
  then show ?thesis using v by (simp add: t JsTransaction_commit_def out_def)
qed

theorem node_retry_loses_writes_witness:
  "\<exists>t'. JsTransaction_commit \<lparr>jt_mode = ReadOnly, jt_stores = [[115]], jt_ops = [TxPut [115] (idoc [97])]\<rparr>
        = (t', CommitTask ReadOnly [[115]] [TxPut [115] (idoc [97])])
    \<and> compute plain_ext one_field 0 [] (CommitTask ReadOnly [[115]] [TxPut [115] (idoc [97])]) (mem_db unique_def [])
        = Some (mem_db unique_def [], Inl ''JsonDB: cannot write in a read-only transaction'')
    \<and> compute plain_ext one_field 1 [] (snd (JsTransaction_commit t')) (mem_db unique_def []) = Some (mem_db unique_def [], Inr OutUnit)"
proof -
  let ?t = "\<lparr>jt_mode = ReadOnly, jt_stores = [[115]], jt_ops = [TxPut [115] (idoc [97])]\<rparr>" and ?db = "mem_db unique_def []"
  have sch: "jd_schema ?db = [[115] \<mapsto> unique_def]" by (simp add: mem_db_def unique_def_def with_index_def StoreDef_new_def)
  have c: "JsTransaction_commit ?t = (?t\<lparr>jt_ops := []\<rparr>, CommitTask ReadOnly [[115]] [TxPut [115] (idoc [97])])"
    by (simp add: JsTransaction_commit_def)
  have f: "compute plain_ext one_field 0 [] (CommitTask ReadOnly [[115]] [TxPut [115] (idoc [97])]) ?db
      = Some (?db, Inl ''JsonDB: cannot write in a read-only transaction'')"
    by (simp add: out_def CommitTask_compute_def map_err_def transaction_def sch bind_call_def tx_put_def require_read_write_def flow_err_def)
  from node_retry_loses_writes [OF _ c f, of 1 "[]"] c f show ?thesis by (simp add: sch)
qed

end
